(* ===== verification/Mx_Prelude.thy ===== *)
theory Mx_Prelude
  imports Main "HOL-Library.Word"
begin

text \<open>
  Shared vocabulary of the development: the panics of the Rust program as a datatype, the
  result type of a fallible computation with its bind, checked machine arithmetic, checked
  vector access, \<open>for\<close> loops over a slice, and generic facts on lists.

  The program is modelled in the profile its tests and its Miri run use, with debug
  assertions and overflow checks on: an arithmetic overflow, an index out of bounds, a failed
  \<open>expect\<close> and a failed \<open>debug_assert\<close> are values \<open>Inl p\<close> of the result
  type. A run whose value is \<open>Inr\<close> has met none of them, so it is also what the release
  profile computes.
\<close>

datatype panic =
    AddOverflow
  | SubOverflow
  | IndexOutOfBounds
  | CapacityOverflow
  | Diverges
  | UseAfterFree
  | DoubleFree
  | FenwickUnderflow
  | MissingSparsePrice
  | SparseUnderflow
  | MissingLevel
  | LevelUnderflow
  | EventBufferOverflow
  | MmapFailed
  | UndefinedBehaviour

type_synonym 'a result = "panic + 'a"

named_theorems result_simps \<open>equations that run a fallible computation\<close>
named_theorems inv_intros \<open>introduction rules for the invariants of the components\<close>

subsection \<open>Binding results\<close>

definition rbind :: "'e + 'a \<Rightarrow> ('a \<Rightarrow> 'e + 'b) \<Rightarrow> 'e + 'b" where
  "rbind m f = (case m of Inl e \<Rightarrow> Inl e | Inr x \<Rightarrow> f x)"

lemma rbind_simps [simp, code, result_simps]:
  "rbind (Inl e) f = Inl e"
  "rbind (Inr x) f = f x"
  by (simp_all add: rbind_def)

lemma rbind_eq_Inr:
  "rbind m f = Inr y \<longleftrightarrow> (\<exists>x. m = Inr x \<and> f x = Inr y)"
  by (cases m) auto

lemma rbind_eq_Inl:
  "rbind m f = Inl e \<longleftrightarrow> m = Inl e \<or> (\<exists>x. m = Inr x \<and> f x = Inl e)"
  by (cases m) auto

lemma rbind_InrE:
  assumes "rbind m f = Inr y"
  obtains x where "m = Inr x" and "f x = Inr y"
  using assms by (auto simp: rbind_eq_Inr)

lemma rbind_InlE:
  assumes "rbind m f = Inl e"
  obtains "m = Inl e" | x where "m = Inr x" and "f x = Inl e"
  using assms by (auto simp: rbind_eq_Inl)

lemma rbind_assoc: "rbind (rbind m f) g = rbind m (\<lambda>x. rbind (f x) g)"
  by (cases m) auto

lemma rbind_cong [fundef_cong]:
  "m = m' \<Longrightarrow> (\<And>x. m' = Inr x \<Longrightarrow> f x = g x) \<Longrightarrow> rbind m f = rbind m' g"
  by (cases m') auto

text \<open>Some operations return an \<open>Option\<close> that the code unwraps with \<open>expect\<close>.\<close>

definition expect :: "panic \<Rightarrow> 'a option \<Rightarrow> 'a result" where
  "expect p v = (case v of None \<Rightarrow> Inl p | Some x \<Rightarrow> Inr x)"

lemma expect_simps [simp, result_simps]:
  "expect p None = Inl p" "expect p (Some x) = Inr x"
  by (simp_all add: expect_def)

text \<open>A \<open>for\<close> loop over the elements of a slice, with the loop's variables as state.\<close>

fun rfold :: "('x \<Rightarrow> 's \<Rightarrow> 'e + 's) \<Rightarrow> 'x list \<Rightarrow> 's \<Rightarrow> 'e + 's" where
  "rfold f [] s = Inr s"
| "rfold f (x # xs) s = rbind (f x s) (rfold f xs)"

lemma rfold_append: "rfold f (xs @ ys) s = rbind (rfold f xs s) (rfold f ys)"
proof (induction xs arbitrary: s)
  case (Cons x xs)
  then have "rfold f (xs @ ys) = (\<lambda>s. rbind (rfold f xs s) (rfold f ys))" by auto
  then show ?case by (simp add: rbind_assoc)
qed simp

lemma rfold_invariant:
  assumes "rfold f xs s = Inr t" and "P s"
    and "\<And>x s t. x \<in> set xs \<Longrightarrow> P s \<Longrightarrow> f x s = Inr t \<Longrightarrow> P t"
  shows "P t"
  using assms
proof (induction xs arbitrary: s)
  case Nil
  then show ?case by simp
next
  case (Cons x xs)
  from Cons.prems(1) obtain u where u: "f x s = Inr u" and r: "rfold f xs u = Inr t"
    by (auto elim: rbind_InrE)
  have "P u" using Cons.prems(2,3) u by force
  with r show ?case using Cons.prems(3) by (intro Cons.IH) auto
qed

subsection \<open>Checked machine arithmetic\<close>

text \<open>
  \<open>u64\<close> and \<open>usize\<close> (on the 64-bit targets the program is built for) have the same
  width. Values are naturals; the width is in the checks.
\<close>

definition u64_max :: nat where "u64_max = 18446744073709551615"
definition u32_max :: nat where "u32_max = 4294967295"

lemma u64_max_pow: "Suc u64_max = 2 ^ 64" and u32_max_pow: "Suc u32_max = 2 ^ 32"
  by (simp_all add: u64_max_def u32_max_def)

definition add_u64 :: "nat \<Rightarrow> nat \<Rightarrow> nat result" where
  "add_u64 a b = (if a + b \<le> u64_max then Inr (a + b) else Inl AddOverflow)"

definition add_u32 :: "nat \<Rightarrow> nat \<Rightarrow> nat result" where
  "add_u32 a b = (if a + b \<le> u32_max then Inr (a + b) else Inl AddOverflow)"

definition sub_u :: "nat \<Rightarrow> nat \<Rightarrow> nat result" where
  "sub_u a b = (if b \<le> a then Inr (a - b) else Inl SubOverflow)"

definition saturating_add_u64 :: "nat \<Rightarrow> nat \<Rightarrow> nat" where
  "saturating_add_u64 a b = min (a + b) u64_max"

definition saturating_sub :: "nat \<Rightarrow> nat \<Rightarrow> nat" where
  "saturating_sub a b = (if b \<le> a then a - b else 0)"

definition checked_sub :: "nat \<Rightarrow> nat \<Rightarrow> nat option" where
  "checked_sub a b = (if b \<le> a then Some (a - b) else None)"

lemma add_u64_eq_Inr: "add_u64 a b = Inr c \<longleftrightarrow> c = a + b \<and> a + b \<le> u64_max"
  by (auto simp: add_u64_def)

lemma add_u32_eq_Inr: "add_u32 a b = Inr c \<longleftrightarrow> c = a + b \<and> a + b \<le> u32_max"
  by (auto simp: add_u32_def)

lemma sub_u_eq_Inr: "sub_u a b = Inr c \<longleftrightarrow> c = a - b \<and> b \<le> a"
  by (auto simp: sub_u_def)

lemma add_u64_eq_Inl: "add_u64 a b = Inl e \<longleftrightarrow> e = AddOverflow \<and> u64_max < a + b"
  by (auto simp: add_u64_def)

lemma add_u32_eq_Inl: "add_u32 a b = Inl e \<longleftrightarrow> e = AddOverflow \<and> u32_max < a + b"
  by (auto simp: add_u32_def)

lemma sub_u_eq_Inl: "sub_u a b = Inl e \<longleftrightarrow> e = SubOverflow \<and> a < b"
  by (auto simp: sub_u_def)

lemmas arith_results =
  add_u64_eq_Inr add_u32_eq_Inr sub_u_eq_Inr add_u64_eq_Inl add_u32_eq_Inl sub_u_eq_Inl

lemma sub_u_le [simp]: "b \<le> a \<Longrightarrow> sub_u a b = Inr (a - b)"
  by (simp add: sub_u_def)

lemma saturating_sub_eq [simp]: "saturating_sub a b = a - b"
  by (simp add: saturating_sub_def)

subsection \<open>Running a computation to a postcondition\<close>

text \<open>
  \<open>yields m P\<close>: the computation returns a value with \<open>P\<close>, or stops for want of a machine
  resource (a counter at its width, a vector at its maximal size, the fixed event buffer). Every
  other panic (a failed \<open>expect\<close> or assertion, a subtraction below zero, an access out of
  range, a use after free) refutes it, so \<open>yields\<close> is a safety and a functional statement in
  one, and it composes along \<open>rbind\<close>.
\<close>

definition resource_panic :: "panic \<Rightarrow> bool" where
  "resource_panic p \<longleftrightarrow> p = AddOverflow \<or> p = CapacityOverflow \<or> p = EventBufferOverflow"

definition yields :: "'a result \<Rightarrow> ('a \<Rightarrow> bool) \<Rightarrow> bool" where
  "yields m P \<longleftrightarrow> (case m of Inl p \<Rightarrow> resource_panic p | Inr x \<Rightarrow> P x)"

lemma yields_simps [simp]:
  "yields (Inr x) P \<longleftrightarrow> P x" "yields (Inl p) P \<longleftrightarrow> resource_panic p"
  by (simp_all add: yields_def)

lemma resource_panic_simps [simp]:
  "resource_panic AddOverflow" "resource_panic CapacityOverflow"
  "resource_panic EventBufferOverflow" "\<not> resource_panic SubOverflow"
  "\<not> resource_panic IndexOutOfBounds" "\<not> resource_panic Diverges"
  "\<not> resource_panic UseAfterFree" "\<not> resource_panic DoubleFree"
  "\<not> resource_panic FenwickUnderflow" "\<not> resource_panic MissingSparsePrice"
  "\<not> resource_panic SparseUnderflow" "\<not> resource_panic MissingLevel"
  "\<not> resource_panic LevelUnderflow"
  by (simp_all add: resource_panic_def)

lemma yields_bind:
  assumes "yields m Q" and "\<And>x. m = Inr x \<Longrightarrow> Q x \<Longrightarrow> yields (f x) P"
  shows "yields (rbind m f) P"
  using assms by (cases m) auto

lemma yields_mono: "yields m Q \<Longrightarrow> (\<And>x. m = Inr x \<Longrightarrow> Q x \<Longrightarrow> P x) \<Longrightarrow> yields m P"
  by (cases m) auto

lemma yields_conj: "yields m P \<Longrightarrow> yields m Q \<Longrightarrow> yields m (\<lambda>x. P x \<and> Q x)"
  by (cases m) auto

lemma yields_Inr: "m = Inr x \<Longrightarrow> yields m P \<Longrightarrow> P x"
  by simp

lemma yields_add_u64 [simp]: "yields (add_u64 a b) P \<longleftrightarrow> (a + b \<le> u64_max \<longrightarrow> P (a + b))"
  by (simp add: add_u64_def)

lemma yields_add_u32 [simp]: "yields (add_u32 a b) P \<longleftrightarrow> (a + b \<le> u32_max \<longrightarrow> P (a + b))"
  by (simp add: add_u32_def)

lemma yields_bind_add_u64 [simp]:
  "yields (rbind (add_u64 a b) f) P \<longleftrightarrow> (a + b \<le> u64_max \<longrightarrow> yields (f (a + b)) P)"
  by (simp add: add_u64_def)

lemma yields_bind_add_u32 [simp]:
  "yields (rbind (add_u32 a b) f) P \<longleftrightarrow> (a + b \<le> u32_max \<longrightarrow> yields (f (a + b)) P)"
  by (simp add: add_u32_def)

lemma yields_rfold:
  assumes "P s" and "\<And>x s. x \<in> set xs \<Longrightarrow> P s \<Longrightarrow> yields (f x s) P"
  shows "yields (rfold f xs s) P"
  using assms
proof (induction xs arbitrary: s)
  case (Cons x xs)
  then show ?case by (auto intro!: yields_bind [where Q = P])
qed simp

text \<open>\<open>returns m P\<close>: the computation returns, with \<open>P\<close>; it evaluates on concrete runs.\<close>

definition returns :: "'e + 'a \<Rightarrow> ('a \<Rightarrow> bool) \<Rightarrow> bool" where
  "returns m P \<longleftrightarrow> (case m of Inl _ \<Rightarrow> False | Inr x \<Rightarrow> P x)"

lemma returns_iff: "returns m P \<longleftrightarrow> (\<exists>x. m = Inr x \<and> P x)"
  by (cases m) (simp_all add: returns_def)

lemma returns_nested: "returns m (\<lambda>r. returns r P) \<longleftrightarrow> (\<exists>x. m = Inr (Inr x) \<and> P x)"
  by (cases m) (auto simp: returns_def split: sum.splits)

definition gives :: "'a option \<Rightarrow> ('a \<Rightarrow> bool) \<Rightarrow> bool" where
  "gives m P \<longleftrightarrow> (case m of None \<Rightarrow> False | Some x \<Rightarrow> P x)"

lemma gives_iff: "gives m P \<longleftrightarrow> (\<exists>x. m = Some x \<and> P x)"
  by (cases m) (simp_all add: gives_def)

lemma returns_tuple:
  "returns m (\<lambda>(x, y). P x y) \<longleftrightarrow> (\<exists>x y. m = Inr (x, y) \<and> P x y)"
  "returns n (\<lambda>(x, y, z). R x y z) \<longleftrightarrow> (\<exists>x y z. n = Inr (x, y, z) \<and> R x y z)"
  by (auto simp: returns_iff)

subsection \<open>Checked vector access\<close>

definition vget :: "'a list \<Rightarrow> nat \<Rightarrow> 'a result" where
  "vget xs i = (if i < length xs then Inr (xs ! i) else Inl IndexOutOfBounds)"

definition vset :: "'a list \<Rightarrow> nat \<Rightarrow> 'a \<Rightarrow> 'a list result" where
  "vset xs i x = (if i < length xs then Inr (xs[i := x]) else Inl IndexOutOfBounds)"

lemma vget_lt [simp]: "i < length xs \<Longrightarrow> vget xs i = Inr (xs ! i)"
  by (simp add: vget_def)

lemma vset_lt [simp]: "i < length xs \<Longrightarrow> vset xs i x = Inr (xs[i := x])"
  by (simp add: vset_def)

lemma vget_eq_Inr: "vget xs i = Inr x \<longleftrightarrow> i < length xs \<and> x = xs ! i"
  by (auto simp: vget_def)

lemma vset_eq_Inr: "vset xs i x = Inr ys \<longleftrightarrow> i < length xs \<and> ys = xs[i := x]"
  by (auto simp: vset_def)

lemma vget_eq_Inl: "vget xs i = Inl e \<longleftrightarrow> e = IndexOutOfBounds \<and> length xs \<le> i"
  by (auto simp: vget_def)

lemma vset_eq_Inl: "vset xs i x = Inl e \<longleftrightarrow> e = IndexOutOfBounds \<and> length xs \<le> i"
  by (auto simp: vset_def)

lemmas vec_results = vget_eq_Inr vset_eq_Inr vget_eq_Inl vset_eq_Inl

text \<open>\<open>Vec::insert\<close> and \<open>Vec::remove\<close>: they panic past the end.\<close>

definition vec_insert :: "'a list \<Rightarrow> nat \<Rightarrow> 'a \<Rightarrow> 'a list result" where
  "vec_insert xs i x =
     (if i \<le> length xs then Inr (take i xs @ x # drop i xs) else Inl IndexOutOfBounds)"

definition vec_remove :: "'a list \<Rightarrow> nat \<Rightarrow> ('a \<times> 'a list) result" where
  "vec_remove xs i =
     (if i < length xs then Inr (xs ! i, take i xs @ drop (Suc i) xs) else Inl IndexOutOfBounds)"

lemma vec_insert_le [simp]: "i \<le> length xs \<Longrightarrow> vec_insert xs i x = Inr (take i xs @ x # drop i xs)"
  by (simp add: vec_insert_def)

lemma vec_remove_lt [simp]:
  "i < length xs \<Longrightarrow> vec_remove xs i = Inr (xs ! i, take i xs @ drop (Suc i) xs)"
  by (simp add: vec_remove_def)

text \<open>
  \<open>slice::partition_point\<close> and \<open>slice::binary_search\<close> on the slices their documentation
  asks for (partitioned by the predicate; sorted). \<open>Inr\<close> is Rust's \<open>Ok\<close>, \<open>Inl\<close>
  its \<open>Err\<close>.
\<close>

definition partition_point :: "('a \<Rightarrow> bool) \<Rightarrow> 'a list \<Rightarrow> nat" where
  "partition_point p xs = length (takeWhile p xs)"

definition binary_search :: "nat list \<Rightarrow> nat \<Rightarrow> nat + nat" where
  "binary_search xs x =
     (let r = partition_point (\<lambda>y. y < x) xs
      in if r < length xs \<and> xs ! r = x then Inr r else Inl r)"

lemma partition_point_le [simp]: "partition_point p xs \<le> length xs"
  by (simp add: partition_point_def length_takeWhile_le)

lemma partition_point_take: "take (partition_point p xs) xs = takeWhile p xs"
  by (simp only: partition_point_def takeWhile_eq_take [symmetric])

lemma partition_point_drop: "drop (partition_point p xs) xs = dropWhile p xs"
  by (simp only: partition_point_def dropWhile_eq_drop [symmetric])

end
