(* ===== verification/Mx_Types.thy ===== *)
theory Mx_Types
  imports Mx_Prelude
begin

text \<open>
  The crate \<open>matchx-types\<close>: sides, order kinds, the order stored in the arena, price
  levels, events and commands. \<open>OrderId\<close> and \<open>ArenaIndex\<close> are transparent newtypes of
  \<open>u64\<close> and \<open>u32\<close>; they are naturals here, and \<open>order_ok\<close> states the widths.
\<close>

type_synonym order_id = nat
type_synonym arena_index = nat

definition as_usize :: "arena_index \<Rightarrow> nat" where
  "as_usize i = i"

datatype side = Bid | Ask

fun opposite :: "side \<Rightarrow> side" where
  "opposite Bid = Ask"
| "opposite Ask = Bid"

datatype order_type = Limit | Market | PostOnly | StopLimit | Iceberg

datatype time_in_force = GTC | IOC | FOK

datatype stp_mode = CancelNewest | CancelOldest | CancelBoth | DecrementAndCancel

datatype reject_reason =
    InvalidPrice
  | InvalidQuantity
  | InstrumentNotFound
  | OrderNotFound
  | WouldCrossSpread
  | InsufficientLiquidity
  | SelfTradePreventionTriggered
  | DuplicateOrderId

definition ARENA_NULL :: arena_index where
  "ARENA_NULL = u32_max"

definition STP_NONE :: nat where
  "STP_NONE = u32_max"

record order =
  o_id :: order_id
  o_price :: nat
  o_quantity :: nat
  o_filled :: nat
  o_timestamp :: nat
  o_visible_quantity :: nat
  o_stp_group :: nat
  o_prev :: arena_index
  o_next :: arena_index
  o_side :: side
  o_order_type :: order_type
  o_time_in_force :: time_in_force
  o_pad :: nat

definition remaining :: "order \<Rightarrow> nat" where
  "remaining ord = saturating_sub (o_quantity ord) (o_filled ord)"

definition is_valid_state :: "order \<Rightarrow> bool" where
  "is_valid_state ord \<longleftrightarrow> o_filled ord \<le> o_quantity ord"

definition is_filled :: "order \<Rightarrow> bool" where
  "is_filled ord \<longleftrightarrow> o_quantity ord \<le> o_filled ord"

definition matchable_qty :: "order \<Rightarrow> nat" where
  "matchable_qty ord =
     (if o_order_type ord = Iceberg \<and> 0 < o_visible_quantity ord
      then let peak = o_visible_quantity ord;
               filled_this_slice = o_filled ord mod peak
           in min (peak - filled_this_slice) (remaining ord)
      else remaining ord)"

record price_level =
  total_quantity :: nat
  order_count :: nat
  head :: "arena_index option"
  tail :: "arena_index option"

definition EMPTY :: price_level where
  "EMPTY = \<lparr>total_quantity = 0, order_count = 0, head = None, tail = None\<rparr>"

definition level_empty :: "price_level \<Rightarrow> bool" where
  "level_empty l \<longleftrightarrow> order_count l = 0"

record event_meta =
  m_sequence :: nat
  m_timestamp_ns :: nat

datatype match_event =
    OrderAccepted event_meta order_id side nat nat order_type
  | OrderRejected event_meta order_id reject_reason
  | FillEvent event_meta order_id order_id nat nat nat nat
  | OrderCancelled event_meta order_id nat
  | OrderModified event_meta order_id nat nat
  | BookUpdate event_meta side nat nat
  | StopTriggered event_meta order_id order_id

datatype command =
    NewOrder order_id nat side nat nat order_type time_in_force
      "nat option" "nat option" "nat option"
  | CancelOrder order_id
  | ModifyOrder order_id nat nat

record instrument_config =
  ic_id :: nat
  tick_size :: nat
  lot_size :: nat
  base_price :: nat
  max_ticks :: nat
  cfg_stp_mode :: stp_mode

text \<open>What the widths of the fields say of a value of type \<open>Command\<close>.\<close>

fun command_ok :: "command \<Rightarrow> bool" where
  "command_ok (NewOrder i inst sd px q ot tif vis stop stp) \<longleftrightarrow>
     i \<le> u64_max \<and> inst \<le> u32_max \<and> px \<le> u64_max \<and> q \<le> u64_max \<and>
     (\<forall>v \<in> set_option vis. v \<le> u64_max) \<and> (\<forall>v \<in> set_option stop. v \<le> u64_max) \<and>
     (\<forall>v \<in> set_option stp. v \<le> u32_max)"
| "command_ok (CancelOrder i) \<longleftrightarrow> i \<le> u64_max"
| "command_ok (ModifyOrder i px q) \<longleftrightarrow> i \<le> u64_max \<and> px \<le> u64_max \<and> q \<le> u64_max"

subsection \<open>Facts on orders and levels\<close>

lemma opposite_opposite [simp]: "opposite (opposite s) = s"
  by (cases s) simp_all

lemma opposite_neq [simp]: "opposite s \<noteq> s" "s \<noteq> opposite s"
  by (cases s; simp)+

lemma EMPTY_sel [simp]:
  "total_quantity EMPTY = 0" "order_count EMPTY = 0" "head EMPTY = None" "tail EMPTY = None"
  by (simp_all add: EMPTY_def)

lemma level_empty_EMPTY [simp]: "level_empty EMPTY"
  by (simp add: level_empty_def)

lemma remaining_update [simp]:
  "remaining (ord\<lparr>o_prev := p\<rparr>) = remaining ord"
  "remaining (ord\<lparr>o_next := p\<rparr>) = remaining ord"
  by (simp_all add: remaining_def)

lemma is_filled_iff: "is_filled ord \<longleftrightarrow> remaining ord = 0"
  by (simp add: is_filled_def remaining_def)

lemma matchable_le_remaining: "matchable_qty ord \<le> remaining ord"
  by (simp add: matchable_qty_def Let_def)

lemma matchable_pos: "0 < remaining ord \<Longrightarrow> 0 < matchable_qty ord"
  by (simp add: matchable_qty_def Let_def)

end
