(* ===== verification/Mx_Arena.thy ===== *)
theory Mx_Arena
  imports Mx_Types
begin

text \<open>
  The crate \<open>matchx-arena\<close>: a pre-allocated store of orders with a free list in the
  parallel vector \<open>next_free\<close> and, in debug builds, a generation counter per slot (odd
  when the slot is occupied). \<open>data\<close> is a vector of \<open>MaybeUninit<Order>\<close>; an
  uninitialised or dropped slot is \<open>None\<close>.
\<close>

definition FREE_LIST_END :: nat where
  "FREE_LIST_END = u32_max"

record arena =
  a_data :: "order option list"
  a_next_free :: "nat list"
  a_free_head :: nat
  a_len :: nat
  a_capacity :: nat
  a_generation :: "nat list"

definition arena_new :: "nat \<Rightarrow> arena" where
  "arena_new capacity =
     \<lparr>a_data = replicate capacity None,
      a_next_free = map (\<lambda>i. if i + 1 < capacity then i + 1 else FREE_LIST_END) [0..<capacity],
      a_free_head = (if 0 < capacity then 0 else FREE_LIST_END),
      a_len = 0,
      a_capacity = capacity,
      a_generation = replicate capacity 0\<rparr>"

definition arena_alloc :: "order \<Rightarrow> arena \<Rightarrow> (arena_index option \<times> arena) result" where
  "arena_alloc ord ar =
     (if a_free_head ar = FREE_LIST_END then Inr (None, ar)
      else
        let idx = a_free_head ar in
        rbind (vget (a_next_free ar) idx) (\<lambda>nf.
        rbind (vset (a_data ar) idx (Some ord)) (\<lambda>d.
        rbind (add_u32 (a_len ar) 1) (\<lambda>n.
        rbind (vget (a_generation ar) idx) (\<lambda>g.
        rbind (add_u64 g 1) (\<lambda>g'.
        rbind (vset (a_generation ar) idx g') (\<lambda>gs.
          Inr (Some idx,
            ar\<lparr>a_free_head := nf, a_data := d, a_len := n, a_generation := gs\<rparr>))))))))"

definition arena_free :: "arena_index \<Rightarrow> arena \<Rightarrow> arena result" where
  "arena_free idx ar =
     rbind (vget (a_generation ar) idx) (\<lambda>g.
     if g mod 2 \<noteq> 1 then Inl DoubleFree
     else
       rbind (add_u64 g 1) (\<lambda>g'.
       rbind (vset (a_generation ar) idx g') (\<lambda>gs.
       rbind (vset (a_data ar) idx None) (\<lambda>d.
       rbind (vset (a_next_free ar) idx (a_free_head ar)) (\<lambda>nf.
       rbind (sub_u (a_len ar) 1) (\<lambda>n.
         Inr (ar\<lparr>a_generation := gs, a_data := d, a_next_free := nf,
                 a_free_head := idx, a_len := n\<rparr>)))))))"

text \<open>
  \<open>get\<close> asserts the generation, then reads the slot. Reading an uninitialised slot would be
  undefined behaviour; the model reports it as \<open>UseAfterFree\<close> too, and the invariant below
  shows that the generation check never lets it happen.
\<close>

definition arena_get :: "arena \<Rightarrow> arena_index \<Rightarrow> order result" where
  "arena_get ar idx =
     rbind (vget (a_generation ar) (as_usize idx)) (\<lambda>g.
     if g mod 2 \<noteq> 1 then Inl UseAfterFree
     else rbind (vget (a_data ar) (as_usize idx)) (\<lambda>slot. expect UseAfterFree slot))"

text \<open>
  \<open>get_mut\<close> makes the same check and returns a mutable reference; the code always uses it to
  update fields in place, so it is modelled with the update it is used for.
\<close>

definition arena_get_mut :: "arena_index \<Rightarrow> (order \<Rightarrow> order) \<Rightarrow> arena \<Rightarrow> arena result" where
  "arena_get_mut idx upd ar =
     rbind (arena_get ar idx) (\<lambda>ord.
     rbind (vset (a_data ar) (as_usize idx) (Some (upd ord))) (\<lambda>d.
       Inr (ar\<lparr>a_data := d\<rparr>)))"

definition arena_is_empty :: "arena \<Rightarrow> bool" where
  "arena_is_empty ar \<longleftrightarrow> a_len ar = 0"

subsection \<open>The abstract store and the invariant\<close>

text \<open>
  The arena stands for a partial map from slots to orders. Its invariant: the four vectors have
  the capacity's length, a slot is occupied exactly when its generation is odd, and the free
  list threaded through \<open>next_free\<close> visits every unoccupied slot once, so that \<open>len\<close>
  counts the occupied ones.
\<close>

definition heap_of :: "arena \<Rightarrow> arena_index \<rightharpoonup> order" where
  "heap_of ar i = (if i < length (a_data ar) then a_data ar ! i else None)"

fun free_chain :: "nat list \<Rightarrow> nat \<Rightarrow> nat list \<Rightarrow> bool" where
  "free_chain nf h [] \<longleftrightarrow> h = FREE_LIST_END"
| "free_chain nf h (x # xs) \<longleftrightarrow> h = x \<and> x < length nf \<and> free_chain nf (nf ! x) xs"

definition free_list_of :: "arena \<Rightarrow> nat list \<Rightarrow> bool" where
  "free_list_of ar fl \<longleftrightarrow>
     free_chain (a_next_free ar) (a_free_head ar) fl \<and> distinct fl \<and>
     (\<forall>i. i \<in> set fl \<longleftrightarrow> i < a_capacity ar \<and> a_data ar ! i = None) \<and>
     a_len ar + length fl = a_capacity ar"

definition arena_shape :: "arena \<Rightarrow> bool" where
  "arena_shape ar \<longleftrightarrow>
     a_capacity ar \<le> u32_max \<and>
     length (a_data ar) = a_capacity ar \<and> length (a_next_free ar) = a_capacity ar \<and>
     length (a_generation ar) = a_capacity ar \<and>
     (\<forall>i < a_capacity ar. odd (a_generation ar ! i) \<longleftrightarrow> a_data ar ! i \<noteq> None)"

definition arena_inv :: "arena \<Rightarrow> bool" where
  "arena_inv ar \<longleftrightarrow> arena_shape ar \<and> (\<exists>fl. free_list_of ar fl)"

lemma arena_invI [inv_intros]: "arena_shape ar \<Longrightarrow> free_list_of ar fl \<Longrightarrow> arena_inv ar"
  by (auto simp: arena_inv_def)

lemma arena_invE:
  assumes "arena_inv ar"
  obtains fl where "arena_shape ar" "free_list_of ar fl"
  using assms by (auto simp: arena_inv_def)

lemma free_chain_frame:
  "x \<notin> set fl \<Longrightarrow> free_chain (nf[x := v]) h fl \<longleftrightarrow> free_chain nf h fl"
  by (induction fl arbitrary: h) auto

lemma free_chain_upt:
  assumes "k \<le> n" and "length nf = n"
    and "\<And>i. i < n \<Longrightarrow> nf ! i = (if Suc i < n then Suc i else FREE_LIST_END)"
  shows "free_chain nf (if k < n then k else FREE_LIST_END) [k..<n]"
  using assms(1)
proof (induction k rule: inc_induct)
  case base
  then show ?case by simp
next
  case (step k)
  then have "[k..<n] = k # [Suc k..<n]" by (simp add: upt_conv_Cons)
  with step assms show ?case by (simp only: free_chain.simps) simp
qed

lemma free_listD:
  assumes "free_list_of ar fl"
  shows "free_chain (a_next_free ar) (a_free_head ar) fl" "distinct fl"
    "x \<in> set fl \<longleftrightarrow> x < a_capacity ar \<and> a_data ar ! x = None"
    "a_len ar + length fl = a_capacity ar"
  using assms unfolding free_list_of_def by blast+

lemma arena_inv_new: "capacity \<le> u32_max \<Longrightarrow> arena_inv (arena_new capacity)"
proof (rule arena_invI)
  assume "capacity \<le> u32_max"
  then show "arena_shape (arena_new capacity)"
    by (simp add: arena_shape_def arena_new_def)
  show "free_list_of (arena_new capacity) [0..<capacity]"
    using free_chain_upt [of 0 capacity "a_next_free (arena_new capacity)"]
    by (auto simp: free_list_of_def arena_new_def)
qed

lemma heap_of_new [simp]: "heap_of (arena_new capacity) = Map.empty"
  by (auto simp: heap_of_def arena_new_def)

lemma arena_slot:
  assumes "arena_inv ar" and "i < a_capacity ar"
  shows "i < length (a_data ar)" "i < length (a_next_free ar)" "i < length (a_generation ar)"
    "odd (a_generation ar ! i) \<longleftrightarrow> heap_of ar i \<noteq> None" "i < u32_max"
  using assms by (auto simp: arena_inv_def arena_shape_def heap_of_def)

lemma heap_of_Some_less:
  assumes "arena_inv ar" "heap_of ar i = Some ord"
  shows "i < a_capacity ar"
  using assms by (auto simp: arena_inv_def arena_shape_def heap_of_def split: if_splits)

lemma arena_slot_data:
  assumes "arena_inv ar" and "i < a_capacity ar"
  shows "a_data ar ! i = heap_of ar i"
  using assms by (simp add: arena_inv_def arena_shape_def heap_of_def)

lemma assert_occupied: "g mod 2 \<noteq> 1 \<longleftrightarrow> even (g :: nat)"
  by presburger

lemma arena_get_eq:
  assumes "arena_inv ar"
  shows "arena_get ar i =
    (if i < a_capacity ar then expect UseAfterFree (heap_of ar i) else Inl IndexOutOfBounds)"
proof (cases "i < a_capacity ar")
  case True
  then show ?thesis using arena_slot [OF assms True] arena_slot_data [OF assms True]
    unfolding arena_get_def assert_occupied as_usize_def by (cases "heap_of ar i") simp_all
next
  case False
  then show ?thesis using assms
    by (simp add: arena_get_def as_usize_def vget_def arena_inv_def arena_shape_def)
qed

lemma arena_get_occupied:
  "arena_inv ar \<Longrightarrow> heap_of ar i = Some ord \<Longrightarrow> arena_get ar i = Inr ord"
  using heap_of_Some_less [of ar i ord] by (simp add: arena_get_eq)

lemma arena_get_eq_Inr:
  "arena_inv ar \<Longrightarrow> arena_get ar i = Inr ord \<longleftrightarrow> heap_of ar i = Some ord"
  using heap_of_Some_less [of ar i ord] by (cases "heap_of ar i") (auto simp: arena_get_eq)

subsection \<open>What each operation does to the store\<close>

lemma free_list_of_update:
  assumes "i < length (a_data ar)" "a_data ar ! i \<noteq> None" "v \<noteq> None"
  shows "free_list_of (ar\<lparr>a_data := (a_data ar)[i := v]\<rparr>) fl \<longleftrightarrow> free_list_of ar fl"
proof -
  have "(a_data ar)[i := v] ! j = None \<longleftrightarrow> a_data ar ! j = None" for j
    using assms by (cases "j = i") auto
  then show ?thesis by (simp add: free_list_of_def)
qed

lemma arena_get_mut_spec:
  assumes inv: "arena_inv ar" and occ: "heap_of ar i = Some ord"
  obtains ar' where "arena_get_mut i upd ar = Inr ar'" and "arena_inv ar'"
    and "heap_of ar' = (heap_of ar)(i \<mapsto> upd ord)" and "a_len ar' = a_len ar"
    and "a_capacity ar' = a_capacity ar"
proof
  let ?ar = "ar\<lparr>a_data := (a_data ar)[i := Some (upd ord)]\<rparr>"
  note i = heap_of_Some_less [OF inv occ]
  note slot = arena_slot [OF inv i]
  note dat = arena_slot_data [OF inv i]
  show "arena_get_mut i upd ar = Inr ?ar"
    using slot by (simp add: arena_get_mut_def arena_get_occupied [OF inv occ] as_usize_def)
  obtain fl where "free_list_of ar fl" and sh: "arena_shape ar" using inv by (elim arena_invE)
  then have "free_list_of ?ar fl"
    using slot dat occ by (subst free_list_of_update) simp_all
  moreover have "arena_shape ?ar"
    using sh slot dat occ by (simp add: arena_shape_def nth_list_update)
  ultimately show "arena_inv ?ar" by (intro arena_invI)
  show "heap_of ?ar = (heap_of ar)(i \<mapsto> upd ord)"
    using slot(1) by (simp add: heap_of_def fun_eq_iff nth_list_update)
qed simp_all

lemma free_list_nonempty:
  assumes "a_free_head ar \<noteq> FREE_LIST_END" and fl: "free_list_of ar fl"
  obtains rest where "fl = a_free_head ar # rest"
    and "a_free_head ar < a_capacity ar" and "a_data ar ! a_free_head ar = None"
proof (cases fl)
  case Nil
  then show ?thesis using free_listD(1) [OF fl] assms(1) by simp
next
  case (Cons x xs)
  then have "fl = a_free_head ar # xs" "a_free_head ar \<in> set fl"
    using free_listD(1) [OF fl] by simp_all
  then show ?thesis using that free_listD(3) [OF fl] by blast
qed

lemma arena_alloc_full:
  assumes inv: "arena_inv ar"
  shows "a_free_head ar = FREE_LIST_END \<longleftrightarrow> a_len ar = a_capacity ar"
proof -
  obtain fl where fl: "free_list_of ar fl" using inv by (elim arena_invE)
  show ?thesis
  proof (cases fl)
    case Nil
    with fl show ?thesis by (simp add: free_list_of_def)
  next
    case (Cons x xs)
    then have "x \<in> set fl" by simp
    then have "x < a_capacity ar" using fl unfolding free_list_of_def by blast
    then have "x < u32_max" by (rule arena_slot(5) [OF inv])
    moreover have "a_free_head ar = x" using fl Cons by (simp add: free_list_of_def)
    ultimately have "a_free_head ar \<noteq> FREE_LIST_END" by (simp add: FREE_LIST_END_def)
    with Cons fl show ?thesis by (simp add: free_list_of_def)
  qed
qed

definition alloc_post :: "arena \<Rightarrow> order \<Rightarrow> arena_index option \<times> arena \<Rightarrow> bool" where
  "alloc_post ar ord res \<longleftrightarrow>
     (case res of
        (None, ar') \<Rightarrow> ar' = ar \<and> a_len ar = a_capacity ar
      | (Some i, ar') \<Rightarrow>
          arena_inv ar' \<and> heap_of ar i = None \<and> i < a_capacity ar \<and>
          heap_of ar' = (heap_of ar)(i \<mapsto> ord) \<and>
          a_len ar' = Suc (a_len ar) \<and> a_capacity ar' = a_capacity ar)"

lemma free_list_of_alloc:
  assumes "free_list_of ar (i # rest)" "i < length (a_data ar)"
  shows "free_list_of (ar\<lparr>a_free_head := a_next_free ar ! i, a_data := (a_data ar)[i := Some ord],
     a_len := Suc (a_len ar), a_generation := gs\<rparr>) rest"
proof -
  have "j \<in> set rest \<longleftrightarrow> j < a_capacity ar \<and> (a_data ar)[i := Some ord] ! j = None" for j
    using assms by (cases "j = i") (auto simp: free_list_of_def)
  then show ?thesis using assms(1) by (simp add: free_list_of_def)
qed

lemma free_list_of_free:
  assumes "free_list_of ar fl" "i < a_capacity ar" "i < length (a_data ar)" "i < length (a_next_free ar)"
    "a_data ar ! i \<noteq> None" "0 < a_len ar"
  shows "free_list_of (ar\<lparr>a_generation := gs, a_data := (a_data ar)[i := None],
     a_next_free := (a_next_free ar)[i := a_free_head ar], a_free_head := i, a_len := a_len ar - 1\<rparr>)
     (i # fl)"
proof -
  have i: "i \<notin> set fl" using assms by (simp add: free_list_of_def)
  have "j \<in> set (i # fl) \<longleftrightarrow> j < a_capacity ar \<and> (a_data ar)[i := None] ! j = None" for j
    using assms by (cases "j = i") (auto simp: free_list_of_def)
  then show ?thesis using assms i by (simp add: free_list_of_def free_chain_frame)
qed

lemma arena_alloc_spec:
  assumes inv: "arena_inv ar"
  shows "yields (arena_alloc ord ar) (alloc_post ar ord)"
proof (cases "a_free_head ar = FREE_LIST_END")
  case True
  with inv show ?thesis by (simp add: arena_alloc_def alloc_post_def arena_alloc_full)
next
  case False
  define i where "i = a_free_head ar"
  obtain fl where fl: "free_list_of ar fl" and sh: "arena_shape ar" using inv by (elim arena_invE)
  then obtain rest where rest: "fl = i # rest" and i: "i < a_capacity ar" "a_data ar ! i = None"
    using free_list_nonempty [OF False fl] unfolding i_def by metis
  note slot = arena_slot [OF inv i(1)]
  define ar' where "ar' = ar\<lparr>a_free_head := a_next_free ar ! i, a_data := (a_data ar)[i := Some ord],
     a_len := Suc (a_len ar), a_generation := (a_generation ar)[i := Suc (a_generation ar ! i)]\<rparr>"
  have "free_list_of ar' rest"
    using fl slot(1) unfolding ar'_def rest by (rule free_list_of_alloc)
  moreover have "arena_shape ar'"
    using sh slot i unfolding ar'_def arena_shape_def by (auto simp: nth_list_update)
  ultimately have "arena_inv ar'" by (intro arena_invI)
  moreover have "heap_of ar' = (heap_of ar)(i \<mapsto> ord)"
    using slot by (simp add: ar'_def heap_of_def fun_eq_iff nth_list_update)
  ultimately have "alloc_post ar ord (Some i, ar')"
    using i slot arena_slot_data [OF inv i(1)] by (simp add: alloc_post_def ar'_def)
  then show ?thesis
    using False slot by (simp add: arena_alloc_def Let_def i_def [symmetric] ar'_def)
qed

lemma occupied_len_pos:
  assumes inv: "arena_inv ar" and occ: "heap_of ar i = Some ord"
  shows "0 < a_len ar"
proof -
  note i = heap_of_Some_less [OF inv occ]
  obtain fl where fl: "free_list_of ar fl" using inv by (elim arena_invE)
  have "i \<notin> set fl" using occ arena_slot_data [OF inv i] free_listD(3) [OF fl] by simp
  moreover have "x < a_capacity ar" if "x \<in> set fl" for x
    using that free_listD(3) [OF fl] by blast
  ultimately have "set fl \<subseteq> {..<a_capacity ar} - {i}" by blast
  then have "card (set fl) \<le> card ({..<a_capacity ar} - {i})" by (intro card_mono) auto
  then show ?thesis using i free_listD(2,4) [OF fl] by (simp add: distinct_card)
qed

lemma arena_free_spec:
  assumes inv: "arena_inv ar" and occ: "heap_of ar i = Some ord"
  shows "yields (arena_free i ar)
    (\<lambda>ar'. arena_inv ar' \<and> heap_of ar' = (heap_of ar)(i := None) \<and>
           Suc (a_len ar') = a_len ar \<and> a_capacity ar' = a_capacity ar)"
proof -
  note i = heap_of_Some_less [OF inv occ]
  note slot = arena_slot [OF inv i]
  note dat = arena_slot_data [OF inv i]
  obtain fl where fl: "free_list_of ar fl" and sh: "arena_shape ar" using inv by (elim arena_invE)
  define ar' where "ar' = ar\<lparr>a_generation := (a_generation ar)[i := Suc (a_generation ar ! i)],
     a_data := (a_data ar)[i := None], a_next_free := (a_next_free ar)[i := a_free_head ar],
     a_free_head := i, a_len := a_len ar - 1\<rparr>"
  note pos = occupied_len_pos [OF inv occ]
  have "free_list_of ar' (i # fl)"
    unfolding ar'_def by (rule free_list_of_free [OF fl i slot(1,2)]) (use slot dat occ pos in auto)
  moreover have "arena_shape ar'"
    using sh slot dat occ unfolding ar'_def arena_shape_def by (auto simp: nth_list_update)
  ultimately have "arena_inv ar'" by (intro arena_invI)
  moreover have "heap_of ar' = (heap_of ar)(i := None)"
    using slot by (simp add: ar'_def heap_of_def fun_eq_iff nth_list_update)
  ultimately show ?thesis
    using slot pos occ unfolding arena_free_def assert_occupied by (simp add: ar'_def)
qed

lemma arena_free_len: "arena_free i ar = Inr ar' \<Longrightarrow> a_len ar' < a_len ar"
  by (auto simp: arena_free_def rbind_eq_Inr sub_u_eq_Inr split: if_splits)

lemma arena_get_mut_len: "arena_get_mut i upd ar = Inr ar' \<Longrightarrow> a_len ar' = a_len ar"
  by (auto simp: arena_get_mut_def rbind_eq_Inr)

end
