(* ===== verification/Mx_Fenwick.thy ===== *)
theory Mx_Fenwick
  imports Mx_Prelude
begin

unbundle bit_operations_syntax

text \<open>
  The Fenwick tree of \<open>matchx-book\<close>: prefix sums over an array of level quantities. The
  vector \<open>data\<close> has one node per index from 1; node \<open>i\<close> holds the sum of the
  \<open>i & -i\<close> array elements below \<open>i\<close>. A loop that would not advance (it cannot happen
  from index 1 on, as the lemmas show) is the value \<open>Diverges\<close>.
\<close>

definition isize_max :: nat where
  "isize_max = 9223372036854775807"

text \<open>\<open>vec![0; n]\<close> of \<open>u64\<close>: Rust refuses more than \<open>isize::MAX\<close> bytes.\<close>

definition vec_zeroed :: "nat \<Rightarrow> nat list result" where
  "vec_zeroed n = (if 8 * n \<le> isize_max then Inr (replicate n 0) else Inl CapacityOverflow)"

definition lowbit :: "nat \<Rightarrow> nat" where
  "lowbit i = unat ((word_of_nat i :: 64 word) AND - word_of_nat i)"

record fenwick =
  fw_data :: "nat list"

definition fenwick_new :: "nat \<Rightarrow> fenwick result" where
  "fenwick_new sz =
     rbind (add_u64 sz 1) (\<lambda>n. rbind (vec_zeroed n) (\<lambda>d. Inr \<lparr>fw_data = d\<rparr>))"

function fenwick_add_loop :: "nat \<Rightarrow> nat \<Rightarrow> nat list \<Rightarrow> nat list result" where
  "fenwick_add_loop i delta d =
     (if i < length d then
        rbind (add_u64 (d ! i) delta) (\<lambda>v.
        rbind (add_u64 i (lowbit i)) (\<lambda>i'.
          if i' \<le> i then Inl Diverges else fenwick_add_loop i' delta (d[i := v])))
      else Inr d)"
  by pat_completeness auto
termination
  by (relation "measure (\<lambda>(i, delta, d). length d - i)") (auto simp: arith_results)

definition fenwick_add :: "nat \<Rightarrow> nat \<Rightarrow> fenwick \<Rightarrow> fenwick result" where
  "fenwick_add index delta t =
     rbind (add_u64 index 1) (\<lambda>i.
     rbind (fenwick_add_loop i delta (fw_data t)) (\<lambda>d. Inr (t\<lparr>fw_data := d\<rparr>)))"

function fenwick_sub_loop :: "nat \<Rightarrow> nat \<Rightarrow> nat list \<Rightarrow> nat list result" where
  "fenwick_sub_loop i delta d =
     (if i < length d then
        if d ! i < delta then Inl FenwickUnderflow
        else rbind (add_u64 i (lowbit i)) (\<lambda>i'.
          if i' \<le> i then Inl Diverges
          else fenwick_sub_loop i' delta (d[i := saturating_sub (d ! i) delta]))
      else Inr d)"
  by pat_completeness auto
termination
  by (relation "measure (\<lambda>(i, delta, d). length d - i)") (auto simp: arith_results)

definition fenwick_sub :: "nat \<Rightarrow> nat \<Rightarrow> fenwick \<Rightarrow> fenwick result" where
  "fenwick_sub index delta t =
     rbind (add_u64 index 1) (\<lambda>i.
     rbind (fenwick_sub_loop i delta (fw_data t)) (\<lambda>d. Inr (t\<lparr>fw_data := d\<rparr>)))"

function prefix_sum_loop :: "nat \<Rightarrow> nat \<Rightarrow> nat list \<Rightarrow> nat result" where
  "prefix_sum_loop i acc d =
     (if 0 < i then
        rbind (vget d i) (\<lambda>x.
        rbind (add_u64 acc x) (\<lambda>acc'.
        rbind (sub_u i (lowbit i)) (\<lambda>i'.
          if i \<le> i' then Inl Diverges else prefix_sum_loop i' acc' d)))
      else Inr acc)"
  by pat_completeness auto
termination
  by (relation "measure (\<lambda>(i, acc, d). i)") auto

definition prefix_sum :: "nat \<Rightarrow> fenwick \<Rightarrow> nat result" where
  "prefix_sum index t = rbind (add_u64 index 1) (\<lambda>i. prefix_sum_loop i 0 (fw_data t))"

definition prefix_sum_le :: "nat \<Rightarrow> fenwick \<Rightarrow> nat result" where
  "prefix_sum_le index t = prefix_sum index t"

definition suffix_sum_ge :: "nat \<Rightarrow> fenwick \<Rightarrow> nat result" where
  "suffix_sum_ge index t =
     rbind (sub_u (length (fw_data t)) 2) (\<lambda>last.
     rbind (prefix_sum last t) (\<lambda>total.
     rbind (case checked_sub index 1 of None \<Rightarrow> Inr 0 | Some i \<Rightarrow> prefix_sum i t) (\<lambda>before.
       sub_u total before)))"

declare fenwick_add_loop.simps [simp del] fenwick_sub_loop.simps [simp del]
  prefix_sum_loop.simps [simp del]

subsection \<open>The lowest set bit\<close>

lemma odd_and_neg:
  fixes x :: int
  assumes "odd x"
  shows "x AND - x = 1"
proof -
  obtain c where c: "x = 2 * c + 1" using assms by (elim oddE)
  have "- x div 2 = NOT c" using c by (simp add: not_int_def)
  then show ?thesis using c by (subst and_rec) simp
qed

lemma int_and_neg:
  fixes x :: int
  assumes "odd x"
  shows "(2 ^ s * x) AND - (2 ^ s * x) = 2 ^ s"
proof -
  have "(2 ^ s * x) AND - (2 ^ s * x) = push_bit s x AND push_bit s (- x)"
    by (simp add: push_bit_eq_mult mult.commute)
  also have "\<dots> = push_bit s (x AND - x)" by (simp only: push_bit_and)
  also have "\<dots> = 2 ^ s" using assms by (simp add: odd_and_neg push_bit_eq_mult)
  finally show ?thesis .
qed

lemma two_power_decompose:
  assumes "0 < (i :: nat)"
  obtains s a where "i = 2 ^ s * a" "odd a"
proof -
  have "\<exists>s a. i = 2 ^ s * a \<and> odd a"
    using assms
  proof (induction i rule: less_induct)
    case (less i)
    show ?case
    proof (cases "odd i")
      case True
      then show ?thesis by (intro exI [of _ 0] exI [of _ i]) simp
    next
      case False
      then obtain j where j: "i = 2 * j" by auto
      then obtain s a where "j = 2 ^ s * a" "odd a" using less.IH [of j] less.prems by auto
      with j show ?thesis by (intro exI [of _ "Suc s"] exI [of _ a]) simp
    qed
  qed
  with that show ?thesis by blast
qed

lemma lowbit_eq:
  assumes "i = 2 ^ s * a" and "odd a" and "i \<le> u64_max"
  shows "lowbit i = 2 ^ s"
proof -
  have le: "2 ^ s \<le> i" using assms(1,2) odd_pos [of a] by simp
  have "(word_of_nat i :: 64 word) AND - word_of_nat i = word_of_int (int i AND - int i)"
    by (simp flip: word_wi_log_defs(2))
  also have "int i AND - int i = 2 ^ s"
    using assms int_and_neg [of "int a" s] by simp
  also have "word_of_int (2 ^ s) = (word_of_nat (2 ^ s) :: 64 word)"
    by (metis of_int_of_nat_eq of_nat_numeral of_nat_power)
  finally have "lowbit i = unat (word_of_nat (2 ^ s) :: 64 word)" by (simp add: lowbit_def)
  moreover have "(2 :: nat) ^ s < 2 ^ LENGTH(64)" using le assms(3) by (simp add: u64_max_def)
  ultimately show ?thesis by (simp only: unat_of_nat mod_less)
qed

lemma lowbit_power:
  assumes "0 < i" and "i \<le> u64_max"
  obtains s where "lowbit i = 2 ^ s" "2 ^ s dvd i" "\<not> 2 ^ Suc s dvd i"
proof -
  obtain s a where i: "i = 2 ^ s * a" and a: "odd a" using assms(1) by (rule two_power_decompose)
  then have "lowbit i = 2 ^ s" using assms(2) by (intro lowbit_eq)
  moreover have "2 ^ s dvd i" "\<not> 2 ^ Suc s dvd i" using i a by simp_all
  ultimately show ?thesis using that by blast
qed

lemma lowbit_pos: "0 < i \<Longrightarrow> i \<le> u64_max \<Longrightarrow> 0 < lowbit i"
  by (elim lowbit_power) auto

lemma lowbit_le: "0 < i \<Longrightarrow> i \<le> u64_max \<Longrightarrow> lowbit i \<le> i"
  by (metis dvd_imp_le lowbit_power)

subsection \<open>Which nodes cover an array element\<close>

text \<open>Node \<open>i\<close> covers the element that lies just below \<open>k\<close>.\<close>

definition covers :: "nat \<Rightarrow> nat \<Rightarrow> bool" where
  "covers k i \<longleftrightarrow> i - lowbit i < k \<and> k \<le> i"

lemma dvd_gap:
  fixes a b c d :: nat
  assumes "d dvd a" "d dvd b" "a < b"
  shows "a + d \<le> b"
proof -
  have "d dvd b - a" "0 < b - a" using assms by (auto intro: dvd_diff_nat)
  then have "d \<le> b - a" by (rule dvd_imp_le)
  then show ?thesis using assms(3) by simp
qed

lemma covers_next:
  assumes "0 < k" and "k < i" and "i \<le> u64_max"
  shows "covers k i \<longleftrightarrow> covers (k + lowbit k) i"
proof -
  obtain s where s: "lowbit i = 2 ^ s" "2 ^ s dvd i" "\<not> 2 ^ Suc s dvd i"
    using lowbit_power [of i] assms by auto
  obtain t where t: "lowbit k = 2 ^ t" "2 ^ t dvd k" "\<not> 2 ^ Suc t dvd k"
    using lowbit_power [of k] assms by auto
  define m where "m = i - 2 ^ s"
  have im: "i = m + 2 ^ s" using s(2) assms by (simp add: m_def dvd_imp_le)
  have sm: "2 ^ s dvd m" using s(2) im by (metis dvd_add_left_iff dvd_refl)
  have Sm: "2 ^ Suc s dvd m"
  proof -
    obtain c where c: "m = 2 ^ s * c" using sm by (elim dvdE)
    then have i: "i = 2 ^ s * Suc c" using im by simp
    have "odd (Suc c)" using s(3) i mult_dvd_mono [of "2 ^ s" "2 ^ s" 2 "Suc c"]
      by (auto simp del: mult_Suc_right simp: mult.commute)
    then show ?thesis using c by simp
  qed
  show ?thesis
  proof
    assume "covers k i"
    then have mk: "m < k" by (simp add: covers_def s(1) m_def)
    have "t < s"
    proof (rule ccontr)
      assume "\<not> t < s"
      then have "2 ^ s dvd k" using t(2) by (meson dvd_trans le_imp_power_dvd not_less)
      then have "m + 2 ^ s \<le> k" using sm mk by (intro dvd_gap)
      then show False using assms(2) im by simp
    qed
    then have "2 ^ t dvd i" using s(2) by (meson dvd_trans le_imp_power_dvd less_imp_le)
    then have "k + 2 ^ t \<le> i" using t(2) assms(2) by (intro dvd_gap)
    then show "covers (k + lowbit k) i" using mk by (simp add: covers_def s(1) t(1) m_def)
  next
    assume c: "covers (k + lowbit k) i"
    then have mk: "m < k + 2 ^ t" and ki: "k + 2 ^ t \<le> i" by (simp_all add: covers_def s(1) t(1) m_def)
    have "m < k"
    proof (rule ccontr)
      assume km: "\<not> m < k"
      show False
      proof (cases "Suc s \<le> t")
        case True
        then have "2 ^ Suc s dvd k + 2 ^ t"
          using t(2) by (meson dvd_add dvd_trans le_imp_power_dvd)
        then have "m + 2 ^ Suc s \<le> k + 2 ^ t" using Sm mk by (intro dvd_gap)
        moreover have "0 < (2 :: nat) ^ s" by simp
        ultimately show False using ki im by simp
      next
        case False
        then have "2 ^ t dvd (2 :: nat) ^ Suc s" "2 ^ Suc t dvd (2 :: nat) ^ Suc s"
          by (simp_all only: le_imp_power_dvd)
        then have tm: "2 ^ t dvd m" "2 ^ Suc t dvd m" using Sm by (blast intro: dvd_trans)+
        then have "m \<noteq> k" using t(3) by auto
        then have "k + 2 ^ t \<le> m" using km tm(1) t(2) by (intro dvd_gap) auto
        then show False using mk by simp
      qed
    qed
    then show "covers k i" using assms(2) by (simp add: covers_def s(1) m_def)
  qed
qed

lemma covers_step:
  assumes "0 < k" and "i \<le> u64_max"
  shows "covers k i \<longleftrightarrow> i = k \<or> covers (k + lowbit k) i"
proof (cases "k < i")
  case True
  then show ?thesis using covers_next [OF assms(1) True assms(2)] by auto
next
  case False
  then show ?thesis using assms lowbit_pos [of i] by (auto simp: covers_def)
qed

subsection \<open>The array a tree stands for\<close>

text \<open>
  \<open>fenwick_rel t A\<close>: the tree is the index of the array \<open>A\<close>. The size bound is the one
  \<open>fenwick_new\<close> enforces, and keeps every loop index in range.
\<close>

definition range_sum :: "nat list \<Rightarrow> nat \<Rightarrow> nat \<Rightarrow> nat" where
  "range_sum A a b = (\<Sum>j = a..<b. A ! j)"

definition fenwick_rel :: "fenwick \<Rightarrow> nat list \<Rightarrow> bool" where
  "fenwick_rel t A \<longleftrightarrow>
     length (fw_data t) = Suc (length A) \<and> 8 * length (fw_data t) \<le> isize_max \<and>
     (\<forall>i. 0 < i \<and> i \<le> length A \<longrightarrow> fw_data t ! i = range_sum A (i - lowbit i) i)"

lemma range_sum_split: "a \<le> b \<Longrightarrow> b \<le> c \<Longrightarrow> range_sum A a c = range_sum A a b + range_sum A b c"
  by (simp add: range_sum_def sum.atLeastLessThan_concat)

lemma range_sum_all: "range_sum A 0 (length A) = sum_list A"
  by (simp add: range_sum_def sum_list_sum_nth)

lemma range_sum_update:
  assumes "b \<le> length A" "k < length A"
  shows "range_sum (A[k := A ! k + x]) a b = range_sum A a b + (if a \<le> k \<and> k < b then x else 0)"
proof -
  have "range_sum (A[k := A ! k + x]) a b = (\<Sum>j = a..<b. A ! j + (if j = k then x else 0))"
    using assms by (auto simp: range_sum_def intro!: sum.cong)
  also have "\<dots> = range_sum A a b + (\<Sum>j = a..<b. if j = k then x else 0)"
    by (simp add: sum.distrib range_sum_def)
  finally show ?thesis by simp
qed

lemma fenwick_rel_bounds:
  assumes "fenwick_rel t A" and "i < length (fw_data t)"
  shows "i \<le> u64_max" "0 < i \<Longrightarrow> i + lowbit i \<le> u64_max" "i + 1 \<le> u64_max"
proof -
  have i: "2 * i \<le> u64_max" "i + 1 \<le> u64_max"
    using assms by (simp_all add: fenwick_rel_def isize_max_def u64_max_def)
  then show "i \<le> u64_max" "i + 1 \<le> u64_max" by simp_all
  show "i + lowbit i \<le> u64_max" if "0 < i" using lowbit_le [OF that] i by simp
qed

subsection \<open>Prefix sums\<close>

lemma prefix_sum_loop_eq:
  assumes rel: "fenwick_rel t A" and "i \<le> length A"
  shows "prefix_sum_loop i acc (fw_data t) =
    (if i = 0 \<or> acc + range_sum A 0 i \<le> u64_max then Inr (acc + range_sum A 0 i) else Inl AddOverflow)"
  using assms(2)
proof (induction i arbitrary: acc rule: less_induct)
  case (less i)
  show ?case
  proof (cases "i = 0")
    case True
    then show ?thesis by (subst prefix_sum_loop.simps) (simp add: range_sum_def)
  next
    case False
    have len: "i < length (fw_data t)" using rel less.prems by (simp add: fenwick_rel_def)
    note b = fenwick_rel_bounds [OF rel len]
    have lb: "0 < lowbit i" "lowbit i \<le> i" using False b lowbit_pos lowbit_le by simp_all
    define j where "j = i - lowbit i"
    have j: "j < i" "j \<le> i" "\<not> i \<le> j" using lb False by (simp_all add: j_def)
    have node: "fw_data t ! i = range_sum A j i"
      using rel False less.prems by (simp add: fenwick_rel_def j_def)
    have split: "range_sum A 0 i = range_sum A 0 j + range_sum A j i"
      using j by (simp add: range_sum_split)
    have zero: "range_sum A 0 0 = 0" by (simp add: range_sum_def)
    have IH: "prefix_sum_loop j acc' (fw_data t) =
        (if j = 0 \<or> acc' + range_sum A 0 j \<le> u64_max then Inr (acc' + range_sum A 0 j)
         else Inl AddOverflow)" for acc'
      using j less.prems by (intro less.IH) auto
    have IH': "prefix_sum_loop j acc' (fw_data t) =
        (if acc' + range_sum A 0 j \<le> u64_max then Inr (acc' + range_sum A 0 j) else Inl AddOverflow)"
      if "acc' \<le> u64_max" for acc'
      using that zero unfolding IH by (cases "j = 0") simp_all
    have "prefix_sum_loop i acc (fw_data t) =
        rbind (add_u64 acc (range_sum A j i)) (\<lambda>acc'. prefix_sum_loop j acc' (fw_data t))"
      using False len lb j node by (subst prefix_sum_loop.simps) (simp flip: j_def)
    also have "\<dots> = (if acc + (range_sum A 0 j + range_sum A j i) \<le> u64_max
         then Inr (acc + (range_sum A 0 j + range_sum A j i)) else Inl AddOverflow)"
      using IH' [of "acc + range_sum A j i"] by (simp add: add_u64_def ac_simps)
    finally show ?thesis using False split by simp
  qed
qed

lemma prefix_sum_eq:
  assumes rel: "fenwick_rel t A" and "index < length A"
  shows "prefix_sum index t =
    (if range_sum A 0 (Suc index) \<le> u64_max then Inr (range_sum A 0 (Suc index)) else Inl AddOverflow)"
proof -
  have "Suc index < length (fw_data t)" using assms by (simp add: fenwick_rel_def)
  then have "Suc index \<le> u64_max" by (rule fenwick_rel_bounds [OF rel])
  then show ?thesis
    using prefix_sum_loop_eq [OF rel, of "Suc index" 0] assms(2)
    by (simp add: prefix_sum_def add_u64_def)
qed

subsection \<open>Point updates\<close>

lemma fenwick_add_loop_spec:
  assumes "0 < k" and "2 * length d \<le> u64_max"
  shows "yields (fenwick_add_loop k delta d)
    (\<lambda>d'. length d' = length d \<and>
      (\<forall>i < length d. 0 < i \<longrightarrow> d' ! i = d ! i + (if covers k i then delta else 0)))"
  using assms
proof (induction "length d - k" arbitrary: k d rule: less_induct)
  case less
  show ?case
  proof (cases "k < length d")
    case False
    then show ?thesis by (subst fenwick_add_loop.simps) (auto simp: covers_def)
  next
    case True
    have k: "k \<le> u64_max" "0 < lowbit k" "lowbit k \<le> k"
      using less.prems True lowbit_pos [of k] lowbit_le [of k] by simp_all
    have cov: "covers k i \<longleftrightarrow> i = k \<or> covers (k + lowbit k) i" if "i < length d" for i
      using that less.prems by (intro covers_step) auto
    have nk: "\<not> covers (k + lowbit k) k" using k by (simp add: covers_def)
    have "yields (fenwick_add_loop (k + lowbit k) delta (d[k := d ! k + delta]))
      (\<lambda>d'. length d' = length d \<and>
      (\<forall>i < length d. 0 < i \<longrightarrow> d' ! i = d ! i + (if covers k i then delta else 0)))"
    proof (rule yields_mono [OF less.hyps])
      show "length (d[k := d ! k + delta]) - (k + lowbit k) < length d - k" using True k by simp
      show "0 < k + lowbit k" using k by simp
      show "2 * length (d[k := d ! k + delta]) \<le> u64_max" using less.prems by simp
    next
      fix d' assume d': "length d' = length (d[k := d ! k + delta]) \<and>
        (\<forall>i < length (d[k := d ! k + delta]). 0 < i \<longrightarrow>
          d' ! i = d[k := d ! k + delta] ! i + (if covers (k + lowbit k) i then delta else 0))"
      have "d' ! i = d ! i + (if covers k i then delta else 0)" if "i < length d" "0 < i" for i
        using that d' cov [of i] nk True by (cases "i = k") auto
      then show "length d' = length d \<and>
          (\<forall>i < length d. 0 < i \<longrightarrow> d' ! i = d ! i + (if covers k i then delta else 0))"
        using d' by simp
    qed
    then show ?thesis using True k by (subst fenwick_add_loop.simps) simp
  qed
qed

lemma fenwick_sub_loop_spec:
  assumes "0 < k" and "2 * length d \<le> u64_max"
    and "\<And>i. 0 < i \<Longrightarrow> i < length d \<Longrightarrow> covers k i \<Longrightarrow> delta \<le> d ! i"
  shows "\<exists>d'. fenwick_sub_loop k delta d = Inr d' \<and> length d' = length d \<and>
      (\<forall>i < length d. 0 < i \<longrightarrow> d' ! i = d ! i - (if covers k i then delta else 0))"
  using assms
proof (induction "length d - k" arbitrary: k d rule: less_induct)
  case less
  show ?case
  proof (cases "k < length d")
    case False
    then show ?thesis by (subst fenwick_sub_loop.simps) (auto simp: covers_def)
  next
    case True
    have k: "k \<le> u64_max" "0 < lowbit k" "lowbit k \<le> k" "k + lowbit k \<le> u64_max"
      using less.prems(1,2) True lowbit_pos [of k] lowbit_le [of k] by simp_all
    have cov: "covers k i \<longleftrightarrow> i = k \<or> covers (k + lowbit k) i" if "i < length d" for i
      using that less.prems(1,2) by (intro covers_step) auto
    have nk: "\<not> covers (k + lowbit k) k" using k by (simp add: covers_def)
    have dk: "delta \<le> d ! k" using less.prems(1,3) True cov by simp
    let ?d = "d[k := d ! k - delta]"
    have "\<exists>d'. fenwick_sub_loop (k + lowbit k) delta ?d = Inr d' \<and> length d' = length ?d \<and>
      (\<forall>i < length ?d. 0 < i \<longrightarrow> d' ! i = ?d ! i - (if covers (k + lowbit k) i then delta else 0))"
    proof (rule less.hyps)
      show "length ?d - (k + lowbit k) < length d - k" using True k by simp
      show "0 < k + lowbit k" "2 * length ?d \<le> u64_max" using k less.prems(2) by simp_all
      show "delta \<le> ?d ! i" if "0 < i" "i < length ?d" "covers (k + lowbit k) i" for i
        using that nk cov less.prems(3) [of i] by (cases "i = k") auto
    qed
    then show ?thesis
      using True k dk cov nk by (subst fenwick_sub_loop.simps) (auto simp: add_u64_def nth_list_update)
  qed
qed

lemma covers_Suc:
  assumes "0 < i" "i \<le> u64_max"
  shows "covers (Suc index) i \<longleftrightarrow> i - lowbit i \<le> index \<and> index < i"
  by (auto simp: covers_def)

lemma fenwick_add_spec:
  assumes rel: "fenwick_rel t A" and ix: "index < length A"
  shows "yields (fenwick_add index delta t) (\<lambda>t'. fenwick_rel t' (A[index := A ! index + delta]))"
proof -
  have len: "length (fw_data t) = Suc (length A)" "8 * length (fw_data t) \<le> isize_max"
    using rel by (simp_all add: fenwick_rel_def)
  have "yields (fenwick_add_loop (Suc index) delta (fw_data t))
    (\<lambda>d'. length d' = length (fw_data t) \<and> (\<forall>i < length (fw_data t). 0 < i \<longrightarrow>
       d' ! i = fw_data t ! i + (if covers (Suc index) i then delta else 0)))"
    by (rule fenwick_add_loop_spec) (use len in \<open>simp_all add: isize_max_def u64_max_def\<close>)
  then have "yields (fenwick_add_loop (Suc index) delta (fw_data t))
    (\<lambda>d'. fenwick_rel (t\<lparr>fw_data := d'\<rparr>) (A[index := A ! index + delta]))"
  proof (rule yields_mono)
    fix d' assume "length d' = length (fw_data t) \<and> (\<forall>i < length (fw_data t). 0 < i \<longrightarrow>
       d' ! i = fw_data t ! i + (if covers (Suc index) i then delta else 0))"
    moreover have "i \<le> u64_max" if "i \<le> length A" for i
      using fenwick_rel_bounds(1) [OF rel, of i] that len by simp
    ultimately show "fenwick_rel (t\<lparr>fw_data := d'\<rparr>) (A[index := A ! index + delta])"
      using rel ix by (auto simp: fenwick_rel_def range_sum_update covers_Suc)
  qed
  then show ?thesis unfolding fenwick_add_def by (auto intro: yields_bind)
qed

lemma fenwick_sub_spec:
  assumes rel: "fenwick_rel t A" and ix: "index < length A" and le: "delta \<le> A ! index"
  shows "\<exists>t'. fenwick_sub index delta t = Inr t' \<and> fenwick_rel t' (A[index := A ! index - delta])"
proof -
  have len: "length (fw_data t) = Suc (length A)" "8 * length (fw_data t) \<le> isize_max"
    using rel by (simp_all add: fenwick_rel_def)
  have u: "i \<le> u64_max" if "i \<le> length A" for i
    using fenwick_rel_bounds(1) [OF rel, of i] that len by simp
  define B where "B = A[index := A ! index - delta]"
  have A: "A = B[index := B ! index + delta]" using ix le by (simp add: B_def)
  have node: "fw_data t ! i = range_sum B (i - lowbit i) i + (if covers (Suc index) i then delta else 0)"
    if "0 < i" "i \<le> length A" for i
  proof -
    have "fw_data t ! i = range_sum (B[index := B ! index + delta]) (i - lowbit i) i"
      using that rel by (simp add: fenwick_rel_def flip: A)
    also have "\<dots> = range_sum B (i - lowbit i) i + (if i - lowbit i \<le> index \<and> index < i then delta else 0)"
      using that ix by (intro range_sum_update) (simp_all add: B_def)
    finally show ?thesis using that u [of i] by (simp add: covers_Suc)
  qed
  obtain d' where d': "fenwick_sub_loop (Suc index) delta (fw_data t) = Inr d'"
    and l: "length d' = length (fw_data t)"
    and eq: "\<forall>i < length (fw_data t). 0 < i \<longrightarrow>
       d' ! i = fw_data t ! i - (if covers (Suc index) i then delta else 0)"
    using fenwick_sub_loop_spec [of "Suc index" "fw_data t" delta] len node
    by (auto simp: isize_max_def u64_max_def)
  have "fenwick_rel (t\<lparr>fw_data := d'\<rparr>) B"
    using len l eq node by (simp add: fenwick_rel_def B_def)
  then show ?thesis using d' u [of "Suc index"] ix by (simp add: fenwick_sub_def B_def add_u64_def)
qed

lemma fenwick_new_spec:
  "yields (fenwick_new n) (\<lambda>t. fenwick_rel t (replicate n 0))"
  by (auto simp: fenwick_new_def vec_zeroed_def fenwick_rel_def range_sum_def)

end
