(* ===== verification/Mx_Prefix_Tree.thy ===== *)
theory Mx_Prefix_Tree
  imports Mx_Fenwick
begin

text \<open>
  The interface the depth indices of the book use: a tree over an array of quantities with
  point updates and prefix sums. The laws say which array the tree stands for after each
  operation; what the clients need (rebuilding a tree from an array, sums to the end of the
  array) is proved once from them. The Fenwick tree interprets it.
\<close>

locale prefix_tree =
  fixes tnew :: "nat \<Rightarrow> 't result"
    and tadd tsub :: "nat \<Rightarrow> nat \<Rightarrow> 't \<Rightarrow> 't result"
    and tsum :: "nat \<Rightarrow> 't \<Rightarrow> nat result"
    and rel :: "'t \<Rightarrow> nat list \<Rightarrow> bool"
  assumes new_rel: "yields (tnew n) (\<lambda>t. rel t (replicate n 0))"
    and add_rel: "rel t A \<Longrightarrow> i < length A \<Longrightarrow> yields (tadd i x t) (\<lambda>t'. rel t' (A[i := A ! i + x]))"
    and sub_rel: "rel t A \<Longrightarrow> i < length A \<Longrightarrow> x \<le> A ! i \<Longrightarrow>
        \<exists>t'. tsub i x t = Inr t' \<and> rel t' (A[i := A ! i - x])"
    and sum_eq: "rel t A \<Longrightarrow> i < length A \<Longrightarrow> tsum i t =
        (if sum_list (take (Suc i) A) \<le> u64_max then Inr (sum_list (take (Suc i) A)) else Inl AddOverflow)"
begin

lemma sub_yields:
  assumes "rel t A" "i < length A" "x \<le> A ! i"
  shows "yields (tsub i x t) (\<lambda>t'. rel t' (A[i := A ! i - x]))"
  using sub_rel [OF assms] by auto

lemma rebuild_from:
  assumes "rel t (take k A @ replicate (length A - k) 0)" and "k \<le> length A"
  shows "yields (rfold (\<lambda>(i, q) t. if 0 < q then tadd i q t else Inr t) (enumerate k (drop k A)) t)
    (\<lambda>t. rel t A)"
  using assms
proof (induction "length A - k" arbitrary: k t)
  case 0
  then show ?case by simp
next
  case (Suc n)
  then have k: "k < length A" by simp
  let ?B = "take k A @ replicate (length A - k) 0"
  have len: "length A - k = Suc (length A - Suc k)" using k by simp
  have next_arr: "?B[k := A ! k] = take (Suc k) A @ replicate (length A - Suc k) 0"
    using k by (simp add: list_update_append take_Suc_conv_app_nth len)
  have old: "?B ! k = 0" using k by (simp add: nth_append)
  have step: "yields (if 0 < A ! k then tadd k (A ! k) t else Inr t)
     (\<lambda>t'. rel t' (take (Suc k) A @ replicate (length A - Suc k) 0))"
  proof (cases "A ! k = 0")
    case True
    then have "?B[k := A ! k] = ?B" using old by (metis list_update_id)
    then show ?thesis using True Suc.prems(1) next_arr by simp
  next
    case False
    then show ?thesis
      using add_rel [OF Suc.prems(1), of k "A ! k"] k old next_arr by simp
  qed
  have "drop k A = A ! k # drop (Suc k) A" using k by (simp add: Cons_nth_drop_Suc)
  then have unfold: "rfold f (enumerate k (drop k A)) t =
      rbind (f (k, A ! k) t) (rfold f (enumerate (Suc k) (drop (Suc k) A)))" for f :: "_ \<Rightarrow> _ \<Rightarrow> 't result"
    by simp
  show ?case unfolding unfold prod.case
    by (rule yields_bind [OF step]) (use Suc.hyps(1) [of "Suc k"] Suc.hyps(2) k in simp)
qed

lemma rebuild:
  "yields (rbind (tnew (length A)) (rfold (\<lambda>(i, q) t. if 0 < q then tadd i q t else Inr t) (enumerate 0 A)))
     (\<lambda>t. rel t A)"
  using rebuild_from [of _ 0 A] by (auto intro!: yields_bind [OF new_rel])

lemma sum_last:
  assumes "rel t A" "A \<noteq> []"
  shows "tsum (length A - 1) t = (if sum_list A \<le> u64_max then Inr (sum_list A) else Inl AddOverflow)"
  using sum_eq [OF assms(1), of "length A - 1"] assms(2) by simp

lemma sum_before:
  assumes "rel t A" "start \<le> length A"
  shows "(if 0 < start then tsum (start - 1) t else Inr 0) =
    (if sum_list (take start A) \<le> u64_max then Inr (sum_list (take start A)) else Inl AddOverflow)"
  using sum_eq [OF assms(1), of "start - 1"] assms(2) by auto

lemma sum_suffix:
  assumes "rel t A" "start < length A"
  shows "rbind (tsum (length A - 1) t) (\<lambda>total.
      rbind (if 0 < start then tsum (start - 1) t else Inr 0) (\<lambda>before. sub_u total before)) =
    (if sum_list A \<le> u64_max then Inr (sum_list (drop start A)) else Inl AddOverflow)"
proof -
  have "sum_list A = sum_list (take start A) + sum_list (drop start A)"
    by (metis append_take_drop_id sum_list_append)
  then have le: "sum_list (take start A) \<le> sum_list A"
    and diff: "sum_list A - sum_list (take start A) = sum_list (drop start A)" by linarith+
  have "A \<noteq> []" using assms(2) by auto
  then show ?thesis
    unfolding sum_last [OF assms(1) \<open>A \<noteq> []\<close>] sum_before [OF assms(1) less_imp_le [OF assms(2)]]
    using le diff by simp
qed

end

subsection \<open>The Fenwick tree is such a tree\<close>

lemma range_sum_take: "n \<le> length A \<Longrightarrow> range_sum A 0 n = sum_list (take n A)"
  by (simp add: range_sum_def sum_list_sum_nth)

interpretation fw: prefix_tree fenwick_new fenwick_add fenwick_sub prefix_sum fenwick_rel
proof
  show "yields (fenwick_new n) (\<lambda>t. fenwick_rel t (replicate n 0))" for n
    by (rule fenwick_new_spec)
  show "yields (fenwick_add i x t) (\<lambda>t'. fenwick_rel t' (A[i := A ! i + x]))"
    if "fenwick_rel t A" "i < length A" for t A i x
    using that by (rule fenwick_add_spec)
  show "\<exists>t'. fenwick_sub i x t = Inr t' \<and> fenwick_rel t' (A[i := A ! i - x])"
    if "fenwick_rel t A" "i < length A" "x \<le> A ! i" for t A i x
    using that by (rule fenwick_sub_spec)
  show "prefix_sum i t = (if sum_list (take (Suc i) A) \<le> u64_max
      then Inr (sum_list (take (Suc i) A)) else Inl AddOverflow)"
    if "fenwick_rel t A" "i < length A" for t A i
    using prefix_sum_eq [OF that] range_sum_take [of "Suc i" A] that(2) by simp
qed

lemma fenwick_rel_length: "fenwick_rel t A \<Longrightarrow> length (fw_data t) = Suc (length A)"
  by (simp add: fenwick_rel_def)

lemma suffix_sum_ge_eq:
  assumes "fenwick_rel t A" "index < length A"
  shows "suffix_sum_ge index t =
    (if sum_list A \<le> u64_max then Inr (sum_list (drop index A)) else Inl AddOverflow)"
proof -
  have "sub_u (length (fw_data t)) 2 = Inr (length A - 1)"
    using assms by (simp add: fenwick_rel_length)
  then have "suffix_sum_ge index t = rbind (prefix_sum (length A - 1) t) (\<lambda>total.
      rbind (if 0 < index then prefix_sum (index - 1) t else Inr 0) (\<lambda>before. sub_u total before))"
    by (cases index) (simp_all add: suffix_sum_ge_def checked_sub_def)
  then show ?thesis using fw.sum_suffix [OF assms] by simp
qed

end
