(* ===== verification/Mx_Sparse_Index.thy ===== *)
theory Mx_Sparse_Index
  imports Mx_Prefix_Tree
begin

text \<open>
  \<open>SparseVolumeIndex\<close> of \<open>matchx-book\<close>: sorted prices, their quantities, and a Fenwick tree
  over the quantities. It stands for a finite map from prices to quantities.
\<close>

record sparse_index =
  si_prices :: "nat list"
  si_qtys :: "nat list"
  si_fenwick :: fenwick

definition sparse_index_new :: "sparse_index result" where
  "sparse_index_new =
     rbind (fenwick_new 0) (\<lambda>t. Inr \<lparr>si_prices = [], si_qtys = [], si_fenwick = t\<rparr>)"

definition rebuild_fenwick :: "sparse_index \<Rightarrow> sparse_index result" where
  "rebuild_fenwick s =
     rbind (rbind (fenwick_new (length (si_prices s)))
       (rfold (\<lambda>(i, q) t. if 0 < q then fenwick_add i q t else Inr t) (enumerate 0 (si_qtys s)))) (\<lambda>t.
       Inr (s\<lparr>si_fenwick := t\<rparr>))"

definition sparse_index_add :: "nat \<Rightarrow> nat \<Rightarrow> sparse_index \<Rightarrow> sparse_index result" where
  "sparse_index_add price qty s =
     (case binary_search (si_prices s) price of
        Inr rank \<Rightarrow>
          rbind (vget (si_qtys s) rank) (\<lambda>q.
          rbind (add_u64 q qty) (\<lambda>q'.
          rbind (vset (si_qtys s) rank q') (\<lambda>qs.
          rbind (fenwick_add rank qty (si_fenwick s)) (\<lambda>t.
            Inr (s\<lparr>si_qtys := qs, si_fenwick := t\<rparr>)))))
      | Inl rank \<Rightarrow>
          rbind (vec_insert (si_prices s) rank price) (\<lambda>ps.
          rbind (vec_insert (si_qtys s) rank qty) (\<lambda>qs.
            rebuild_fenwick (s\<lparr>si_prices := ps, si_qtys := qs\<rparr>))))"

definition sparse_index_sub :: "nat \<Rightarrow> nat \<Rightarrow> sparse_index \<Rightarrow> sparse_index result" where
  "sparse_index_sub price qty s =
     (case binary_search (si_prices s) price of
        Inl _ \<Rightarrow> Inl MissingSparsePrice
      | Inr rank \<Rightarrow>
          rbind (vget (si_qtys s) rank) (\<lambda>q.
          rbind (expect SparseUnderflow (checked_sub q qty)) (\<lambda>q'.
          rbind (vset (si_qtys s) rank q') (\<lambda>qs.
          rbind (fenwick_sub rank qty (si_fenwick s)) (\<lambda>t.
          rbind (vget qs rank) (\<lambda>left.
            if left = 0 then
              rbind (vec_remove (si_prices s) rank) (\<lambda>(_, ps).
              rbind (vec_remove qs rank) (\<lambda>(_, qs').
                rebuild_fenwick (s\<lparr>si_prices := ps, si_qtys := qs', si_fenwick := t\<rparr>)))
            else Inr (s\<lparr>si_qtys := qs, si_fenwick := t\<rparr>)))))))"

definition sum_at_or_below :: "nat \<Rightarrow> sparse_index \<Rightarrow> nat result" where
  "sum_at_or_below price s =
     (let n = partition_point (\<lambda>p. p \<le> price) (si_prices s)
      in if n = 0 then Inr 0 else prefix_sum (n - 1) (si_fenwick s))"

definition sum_at_or_above :: "nat \<Rightarrow> sparse_index \<Rightarrow> nat result" where
  "sum_at_or_above price s =
     (let start = partition_point (\<lambda>p. p < price) (si_prices s);
          n = length (si_prices s)
      in if n \<le> start then Inr 0
         else
           rbind (prefix_sum (n - 1) (si_fenwick s)) (\<lambda>total.
           rbind (if 0 < start then prefix_sum (start - 1) (si_fenwick s) else Inr 0) (\<lambda>before.
             sub_u total before)))"

subsection \<open>The map an index stands for\<close>

definition entries :: "sparse_index \<Rightarrow> (nat \<times> nat) list" where
  "entries s = zip (si_prices s) (si_qtys s)"

definition sparse_map :: "sparse_index \<Rightarrow> nat \<rightharpoonup> nat" where
  "sparse_map s = map_of (entries s)"

definition sparse_inv :: "sparse_index \<Rightarrow> bool" where
  "sparse_inv s \<longleftrightarrow>
     sorted_wrt (<) (si_prices s) \<and> length (si_qtys s) = length (si_prices s) \<and>
     fenwick_rel (si_fenwick s) (si_qtys s)"

lemma sorted_strict_distinct: "sorted_wrt (<) (xs :: nat list) \<Longrightarrow> distinct xs"
  by (simp add: strict_sorted_iff)

lemma binary_search_Inr: "binary_search xs x = Inr r \<Longrightarrow> r < length xs \<and> xs ! r = x"
  by (auto simp: binary_search_def Let_def split: if_splits)

lemma takeWhile_sorted_filter:
  assumes "sorted_wrt (<) xs" and "\<And>x y. x < y \<Longrightarrow> P y \<Longrightarrow> P (x :: nat)"
  shows "takeWhile P xs = filter P xs" and "dropWhile P xs = filter (\<lambda>x. \<not> P x) xs"
proof -
  have *: "takeWhile P xs = filter P xs \<and> dropWhile P xs = filter (\<lambda>x. \<not> P x) xs"
    using assms(1)
  proof (induction xs)
    case (Cons x xs)
    show ?case
    proof (cases "P x")
      case True
      with Cons show ?thesis by simp
    next
      case False
      then have "\<forall>y \<in> set xs. \<not> P y" using Cons.prems assms(2) by auto
      then show ?thesis using False by (simp add: filter_empty_conv)
    qed
  qed simp
  then show "takeWhile P xs = filter P xs" and "dropWhile P xs = filter (\<lambda>x. \<not> P x) xs" by simp_all
qed

lemma binary_search_Inl:
  assumes "sorted_wrt (<) xs" and "binary_search xs x = Inl r"
  shows "r \<le> length xs" "x \<notin> set xs" "\<forall>y \<in> set (take r xs). y < x" "\<forall>y \<in> set (drop r xs). x < y"
proof -
  have r: "r = partition_point (\<lambda>y. y < x) xs" and no: "r < length xs \<Longrightarrow> xs ! r \<noteq> x"
    using assms(2) by (auto simp: binary_search_def Let_def split: if_splits)
  show "r \<le> length xs" using r by simp
  have tk: "take r xs = filter (\<lambda>y. y < x) xs" and dr: "drop r xs = filter (\<lambda>y. \<not> y < x) xs"
    using takeWhile_sorted_filter [OF assms(1), of "\<lambda>y. y < x"]
    by (auto simp: r partition_point_take partition_point_drop)
  have ge: "\<forall>y \<in> set (drop r xs). x \<le> y" using dr by auto
  have "x \<notin> set (drop r xs)"
  proof
    assume x: "x \<in> set (drop r xs)"
    then have lt: "r < length xs" by (cases "r < length xs") auto
    then have d: "drop r xs = xs ! r # drop (Suc r) xs" by (simp add: Cons_nth_drop_Suc)
    have "sorted_wrt (<) (drop r xs)" using assms(1) by (rule sorted_wrt_drop)
    moreover have "x \<le> xs ! r" using ge d by simp
    ultimately show False using x no [OF lt] d by auto
  qed
  then show "\<forall>y \<in> set (drop r xs). x < y" using ge by (auto simp: le_less)
  show "\<forall>y \<in> set (take r xs). y < x" using tk by auto
  then show "x \<notin> set xs" using \<open>x \<notin> set (drop r xs)\<close>
    by (metis Un_iff append_take_drop_id less_irrefl set_append)
qed

lemma sparse_map_nth:
  assumes "sparse_inv s" "i < length (si_prices s)"
  shows "sparse_map s (si_prices s ! i) = Some (si_qtys s ! i)"
  using assms by (simp add: sparse_inv_def sparse_map_def entries_def map_of_zip_nth
      sorted_strict_distinct)

lemma sparse_map_None:
  assumes "sparse_inv s"
  shows "sparse_map s p = None \<longleftrightarrow> p \<notin> set (si_prices s)"
  using assms by (simp add: sparse_inv_def sparse_map_def entries_def map_of_zip_is_None)

lemma binary_search_found:
  assumes "sparse_inv s" "p \<in> set (si_prices s)"
  obtains r where "binary_search (si_prices s) p = Inr r" "r < length (si_prices s)"
    "si_prices s ! r = p"
proof (cases "binary_search (si_prices s) p")
  case (Inl r)
  then show ?thesis using assms binary_search_Inl(2) by (auto simp: sparse_inv_def)
next
  case (Inr r)
  then show ?thesis using that binary_search_Inr by blast
qed

subsection \<open>What each operation does to the map\<close>

lemma sparse_index_new_spec:
  "yields sparse_index_new (\<lambda>s. sparse_inv s \<and> sparse_map s = Map.empty)"
  unfolding sparse_index_new_def
  by (rule yields_bind [OF fw.new_rel]) (simp add: sparse_inv_def sparse_map_def entries_def)

lemma rebuild_fenwick_spec:
  assumes "sorted_wrt (<) (si_prices s)" "length (si_qtys s) = length (si_prices s)"
  shows "yields (rebuild_fenwick s) (\<lambda>s'. sparse_inv s' \<and> entries s' = entries s)"
  unfolding rebuild_fenwick_def assms(2) [symmetric]
  by (rule yields_bind [OF fw.rebuild]) (use assms in \<open>simp add: sparse_inv_def entries_def\<close>)

lemma map_of_zip_update:
  assumes "distinct ps" "length qs = length ps" "r < length ps"
  shows "map_of (zip ps (qs[r := v])) = (map_of (zip ps qs))(ps ! r \<mapsto> v)"
proof
  fix p
  show "map_of (zip ps (qs[r := v])) p = ((map_of (zip ps qs))(ps ! r \<mapsto> v)) p"
  proof (cases "p \<in> set ps")
    case True
    then obtain i where "i < length ps" "p = ps ! i" by (auto simp: in_set_conv_nth)
    then show ?thesis using assms
      by (auto simp: map_of_zip_nth nth_list_update nth_eq_iff_index_eq)
  next
    case False
    then have "map_of (zip ps (qs[r := v])) p = None" "map_of (zip ps qs) p = None" "p \<noteq> ps ! r"
      using assms by (auto simp: map_of_zip_is_None)
    then show ?thesis by simp
  qed
qed

lemma sorted_insert_at:
  assumes "sorted_wrt (<) (xs :: nat list)" "\<forall>y \<in> set (take r xs). y < x" "\<forall>y \<in> set (drop r xs). x < y"
  shows "sorted_wrt (<) (take r xs @ x # drop r xs)"
proof -
  have "sorted_wrt (<) (take r xs @ drop r xs)" using assms(1) by simp
  then show ?thesis using assms(2,3) by (auto simp: sorted_wrt_append simp del: append_take_drop_id)
qed

lemma map_of_insert_at:
  assumes "p \<notin> fst ` set es"
  shows "map_of (take r es @ (p, q) # drop r es) = (map_of es)(p \<mapsto> q)"
proof -
  have "map_of (take r es) p = None"
    using assms in_set_takeD [of _ r es] by (force simp: map_of_eq_None_iff)
  then have "map_of (take r es @ (p, q) # drop r es) = (map_of (take r es @ drop r es))(p \<mapsto> q)"
    unfolding map_of_append by (auto simp: fun_eq_iff map_add_def split: option.splits)
  then show ?thesis by simp
qed

definition plus_opt :: "nat option \<Rightarrow> nat \<Rightarrow> nat" where
  "plus_opt o1 n = (case o1 of None \<Rightarrow> n | Some m \<Rightarrow> m + n)"

lemma sparse_index_add_spec:
  assumes inv: "sparse_inv s"
  shows "yields (sparse_index_add price qty s)
    (\<lambda>s'. sparse_inv s' \<and> sparse_map s' = (sparse_map s)(price \<mapsto> plus_opt (sparse_map s price) qty))"
proof (cases "binary_search (si_prices s) price")
  case (Inr r)
  have r: "r < length (si_prices s)" "si_prices s ! r = price" using binary_search_Inr [OF Inr] by simp_all
  have len: "length (si_qtys s) = length (si_prices s)" and rel: "fenwick_rel (si_fenwick s) (si_qtys s)"
    and d: "distinct (si_prices s)"
    using inv by (simp_all add: sparse_inv_def sorted_strict_distinct)
  let ?v = "si_qtys s ! r + qty"
  have add: "yields (fenwick_add r qty (si_fenwick s)) (\<lambda>t. fenwick_rel t ((si_qtys s)[r := ?v]))"
    using rel r len by (intro fw.add_rel) simp_all
  have post: "sparse_inv (s\<lparr>si_qtys := (si_qtys s)[r := ?v], si_fenwick := t\<rparr>) \<and>
      sparse_map (s\<lparr>si_qtys := (si_qtys s)[r := ?v], si_fenwick := t\<rparr>) =
        (sparse_map s)(price \<mapsto> plus_opt (sparse_map s price) qty)"
    if "fenwick_rel t ((si_qtys s)[r := ?v])" for t
    using that inv r len sparse_map_nth [OF inv r(1)] map_of_zip_update [OF d len r(1), of ?v]
    by (simp add: sparse_inv_def sparse_map_def entries_def plus_opt_def)
  have "sparse_index_add price qty s = rbind (add_u64 (si_qtys s ! r) qty) (\<lambda>_.
      rbind (fenwick_add r qty (si_fenwick s)) (\<lambda>t.
        Inr (s\<lparr>si_qtys := (si_qtys s)[r := ?v], si_fenwick := t\<rparr>)))"
    using Inr r len by (simp add: sparse_index_add_def add_u64_def)
  then show ?thesis by (auto intro: yields_bind [OF add] simp: post)
next
  case (Inl r)
  have sorted: "sorted_wrt (<) (si_prices s)" and len: "length (si_qtys s) = length (si_prices s)"
    using inv by (simp_all add: sparse_inv_def)
  note bs = binary_search_Inl [OF sorted Inl]
  let ?s = "s\<lparr>si_prices := take r (si_prices s) @ price # drop r (si_prices s),
     si_qtys := take r (si_qtys s) @ qty # drop r (si_qtys s)\<rparr>"
  have ent: "entries ?s = take r (entries s) @ (price, qty) # drop r (entries s)"
    using bs(1) len by (simp add: entries_def take_zip drop_zip)
  have "fst ` set (entries s) \<subseteq> set (si_prices s)"
    by (auto simp: entries_def dest: set_zip_leftD)
  then have map: "map_of (entries ?s) = (sparse_map s)(price \<mapsto> qty)"
    using bs(2) unfolding ent sparse_map_def by (intro map_of_insert_at) auto
  have none: "sparse_map s price = None" using bs(2) sparse_map_None [OF inv] by simp
  have "yields (rebuild_fenwick ?s) (\<lambda>s'. sparse_inv s' \<and> entries s' = entries ?s)"
    using bs len sorted by (intro rebuild_fenwick_spec) (simp_all add: sorted_insert_at)
  then have "yields (rebuild_fenwick ?s) (\<lambda>s'. sparse_inv s' \<and>
      sparse_map s' = (sparse_map s)(price \<mapsto> plus_opt (sparse_map s price) qty))"
  proof (rule yields_mono)
    fix s' assume s': "sparse_inv s' \<and> entries s' = entries ?s"
    then have "sparse_map s' = map_of (entries ?s)" by (simp only: sparse_map_def)
    then show "sparse_inv s' \<and> sparse_map s' = (sparse_map s)(price \<mapsto> plus_opt (sparse_map s price) qty)"
      using s' map none by (simp add: plus_opt_def)
  qed
  then show ?thesis using Inl bs(1) len by (simp add: sparse_index_add_def)
qed

lemma map_of_remove_at:
  assumes "distinct (map fst es)" "r < length es"
  shows "map_of (take r es @ drop (Suc r) es) = (map_of es)(fst (es ! r) := None)"
proof -
  have es: "es = take r es @ es ! r # drop (Suc r) es" using assms(2) by (rule id_take_nth_drop)
  obtain p q where pq: "es ! r = (p, q)" by (cases "es ! r")
  have "distinct (map fst (take r es @ (p, q) # drop (Suc r) es))"
    using assms(1) es pq by simp
  then have "p \<notin> fst ` set (take r es)" "p \<notin> fst ` set (drop (Suc r) es)" by auto
  then have none: "map_of (take r es) p = None" "map_of (drop (Suc r) es) p = None"
    by (simp_all add: map_of_eq_None_iff)
  have "map_of es = map_of (take r es @ (p, q) # drop (Suc r) es)" using es pq by simp
  then show ?thesis using none pq by (auto simp: fun_eq_iff map_add_def split: option.splits)
qed

lemma sorted_remove_at:
  assumes "sorted_wrt (<) (xs :: nat list)" "r < length xs"
  shows "sorted_wrt (<) (take r xs @ drop (Suc r) xs)"
proof -
  have "sorted_wrt (<) (take r xs @ xs ! r # drop (Suc r) xs)"
    using assms by (simp flip: id_take_nth_drop)
  then show ?thesis by (auto simp: sorted_wrt_append)
qed

lemma sparse_index_sub_spec:
  assumes inv: "sparse_inv s" and q: "sparse_map s price = Some q" and le: "qty \<le> q"
  shows "yields (sparse_index_sub price qty s) (\<lambda>s'. sparse_inv s' \<and>
    sparse_map s' = (if q = qty then (sparse_map s)(price := None)
                     else (sparse_map s)(price \<mapsto> q - qty)))"
proof -
  have "price \<in> set (si_prices s)" using q sparse_map_None [OF inv, of price] by auto
  then obtain r where bs: "binary_search (si_prices s) price = Inr r"
    and r: "r < length (si_prices s)" "si_prices s ! r = price" using binary_search_found [OF inv] by blast
  have len: "length (si_qtys s) = length (si_prices s)" and rel: "fenwick_rel (si_fenwick s) (si_qtys s)"
    and sorted: "sorted_wrt (<) (si_prices s)" and d: "distinct (si_prices s)"
    using inv by (simp_all add: sparse_inv_def sorted_strict_distinct)
  have qr: "si_qtys s ! r = q" using sparse_map_nth [OF inv r(1)] r(2) q by simp
  let ?qs = "(si_qtys s)[r := q - qty]"
  let ?post = "\<lambda>s'. sparse_inv s' \<and> sparse_map s' = (if q = qty then (sparse_map s)(price := None)
                     else (sparse_map s)(price \<mapsto> q - qty))"
  obtain t where t: "fenwick_sub r qty (si_fenwick s) = Inr t" and trel: "fenwick_rel t ?qs"
    using fw.sub_rel [OF rel, of r qty] r len le qr by auto
  have run: "sparse_index_sub price qty s =
     (if q - qty = 0 then
        rebuild_fenwick (s\<lparr>si_prices := take r (si_prices s) @ drop (Suc r) (si_prices s),
          si_qtys := take r ?qs @ drop (Suc r) ?qs, si_fenwick := t\<rparr>)
      else Inr (s\<lparr>si_qtys := ?qs, si_fenwick := t\<rparr>))"
    using bs r len qr le t by (simp add: sparse_index_sub_def checked_sub_def)
  show ?thesis
  proof (cases "q = qty")
    case False
    have "?post (s\<lparr>si_qtys := ?qs, si_fenwick := t\<rparr>)"
      using False inv trel r len map_of_zip_update [OF d len r(1), of "q - qty"]
      by (simp add: sparse_inv_def sparse_map_def entries_def)
    then show ?thesis using False le by (simp add: run)
  next
    case True
    let ?s = "s\<lparr>si_prices := take r (si_prices s) @ drop (Suc r) (si_prices s),
          si_qtys := take r ?qs @ drop (Suc r) ?qs, si_fenwick := t\<rparr>"
    have ent: "entries ?s = take r (entries s) @ drop (Suc r) (entries s)"
      using r len by (simp add: entries_def take_zip drop_zip)
    have "map fst (entries s) = si_prices s" "entries s ! r = (price, q)"
      using len r qr by (simp_all add: entries_def)
    then have map: "map_of (entries ?s) = (sparse_map s)(price := None)"
      using map_of_remove_at [of "entries s" r] d r len unfolding ent sparse_map_def
      by (simp add: entries_def)
    have "yields (rebuild_fenwick ?s) (\<lambda>s'. sparse_inv s' \<and> entries s' = entries ?s)"
      using sorted r len by (intro rebuild_fenwick_spec) (simp_all add: sorted_remove_at)
    then have "yields (rebuild_fenwick ?s) ?post"
    proof (rule yields_mono)
      fix s' assume s': "sparse_inv s' \<and> entries s' = entries ?s"
      then have "sparse_map s' = map_of (entries ?s)" by (simp only: sparse_map_def)
      then show "?post s'" using s' map True by simp
    qed
    then show ?thesis using True by (simp add: run)
  qed
qed

lemma sparse_index_sub_missing:
  assumes "sparse_inv s" "sparse_map s price = None"
  shows "sparse_index_sub price qty s = Inl MissingSparsePrice"
proof (cases "binary_search (si_prices s) price")
  case (Inl r)
  then show ?thesis by (simp add: sparse_index_sub_def)
next
  case (Inr r)
  then show ?thesis using binary_search_Inr [OF Inr] assms sparse_map_None [OF assms(1), of price]
    by (metis nth_mem)
qed

subsection \<open>Range sums\<close>

text \<open>The sum of the quantities whose price satisfies a predicate.\<close>

definition sparse_sum :: "(nat \<Rightarrow> bool) \<Rightarrow> sparse_index \<Rightarrow> nat" where
  "sparse_sum P s = sum_list (map snd (filter (P \<circ> fst) (entries s)))"

lemma sparse_sum_take:
  assumes "sparse_inv s" and "\<And>x y. x < y \<Longrightarrow> P y \<Longrightarrow> P x"
  shows "sparse_sum P s = sum_list (take (partition_point P (si_prices s)) (si_qtys s))"
    "sparse_sum (\<lambda>p. \<not> P p) s = sum_list (drop (partition_point P (si_prices s)) (si_qtys s))"
proof -
  have sorted: "sorted_wrt (<) (si_prices s)" and len: "length (si_qtys s) = length (si_prices s)"
    using assms(1) by (simp_all add: sparse_inv_def)
  let ?n = "partition_point P (si_prices s)"
  have split: "filter (P \<circ> fst) (zip ps qs) = take (length (takeWhile P ps)) (zip ps qs) \<and>
    filter ((\<lambda>p. \<not> P p) \<circ> fst) (zip ps qs) = drop (length (takeWhile P ps)) (zip ps qs)"
    if "sorted_wrt (<) ps" "length qs = length ps" for ps :: "nat list" and qs :: "nat list"
    using that
  proof (induction ps arbitrary: qs)
    case (Cons p ps)
    then obtain q qs' where qs: "qs = q # qs'" by (cases qs) auto
    show ?case
    proof (cases "P p")
      case True
      then show ?thesis using Cons qs by simp
    next
      case False
      then have "\<forall>x \<in> set (zip ps qs'). \<not> P (fst x)"
        using Cons.prems assms(2) by (auto dest!: set_zip_leftD)
      then show ?thesis using False qs by (simp add: filter_empty_conv)
    qed
  qed simp
  have "map snd (take ?n (entries s)) = take ?n (si_qtys s)"
    "map snd (drop ?n (entries s)) = drop ?n (si_qtys s)"
    using len by (simp_all add: entries_def flip: take_map drop_map)
  then show "sparse_sum P s = sum_list (take ?n (si_qtys s))"
    "sparse_sum (\<lambda>p. \<not> P p) s = sum_list (drop ?n (si_qtys s))"
    using split [OF sorted len] by (simp_all add: sparse_sum_def entries_def partition_point_def)
qed

lemma sparse_sum_dom:
  assumes "sparse_inv s"
  shows "sparse_sum P s = (\<Sum>p \<in> {p \<in> dom (sparse_map s). P p}. the (sparse_map s p))"
proof -
  have d: "distinct (map fst (entries s))"
    using assms by (simp add: sparse_inv_def entries_def sorted_strict_distinct)
  let ?es = "filter (P \<circ> fst) (entries s)"
  have "set (map fst ?es) = {p \<in> dom (sparse_map s). P p}"
    by (auto simp: sparse_map_def dom_map_of_conv_image_fst)
  moreover have "distinct (map fst ?es)" using d by (rule distinct_map_filter)
  moreover have "sparse_sum P s = sum_list (map (\<lambda>p. the (sparse_map s p)) (map fst ?es))"
    unfolding sparse_sum_def map_map
    using d by (intro arg_cong [of _ _ sum_list] map_cong) (auto simp: sparse_map_def)
  ultimately show ?thesis by (simp only: sum_list_distinct_conv_sum_set)
qed

lemma sparse_total:
  assumes "sparse_inv s"
  shows "sum_list (si_qtys s) = sparse_sum (\<lambda>_. True) s"
  using assms by (simp add: sparse_sum_def entries_def sparse_inv_def comp_def)

lemma sum_at_or_below_eq:
  assumes inv: "sparse_inv s"
  shows "sum_at_or_below price s =
    (if sparse_sum (\<lambda>p. p \<le> price) s \<le> u64_max then Inr (sparse_sum (\<lambda>p. p \<le> price) s)
     else Inl AddOverflow)"
proof -
  have len: "length (si_qtys s) = length (si_prices s)" and rel: "fenwick_rel (si_fenwick s) (si_qtys s)"
    using inv by (simp_all add: sparse_inv_def)
  let ?n = "partition_point (\<lambda>p. p \<le> price) (si_prices s)"
  have "?n \<le> length (si_qtys s)" using len by simp
  then show ?thesis
    using fw.sum_before [OF rel, of ?n] sparse_sum_take(1) [OF inv, of "\<lambda>p. p \<le> price"]
    by (cases "?n = 0") (simp_all add: sum_at_or_below_def)
qed

lemma sum_at_or_above_cases:
  assumes inv: "sparse_inv s"
  shows "sum_at_or_above price s = Inr (sparse_sum (\<lambda>p. price \<le> p) s) \<or>
    (u64_max < sum_list (si_qtys s) \<and> sum_at_or_above price s = Inl AddOverflow)"
proof -
  have len: "length (si_qtys s) = length (si_prices s)" and rel: "fenwick_rel (si_fenwick s) (si_qtys s)"
    using inv by (simp_all add: sparse_inv_def)
  let ?n = "partition_point (\<lambda>p. p < price) (si_prices s)"
  have sum: "sparse_sum (\<lambda>p. price \<le> p) s = sum_list (drop ?n (si_qtys s))"
    using sparse_sum_take(2) [OF inv, of "\<lambda>p. p < price"] by (simp add: not_less)
  show ?thesis
  proof (cases "length (si_prices s) \<le> ?n")
    case True
    then show ?thesis using len by (simp add: sum_at_or_above_def sum)
  next
    case False
    then have n: "?n < length (si_qtys s)" using len by simp
    show ?thesis
      using False fw.sum_suffix [OF rel n] len by (auto simp: sum_at_or_above_def Let_def sum)
  qed
qed

lemma sum_at_or_above_eq:
  assumes "sparse_inv s" "sum_list (si_qtys s) \<le> u64_max"
  shows "sum_at_or_above price s = Inr (sparse_sum (\<lambda>p. price \<le> p) s)"
  using sum_at_or_above_cases [OF assms(1), of price] assms(2) by auto

end
