(* ===== verification/Mx_BTree_Map.thy ===== *)
theory Mx_BTree_Map
  imports Mx_Prelude
begin

text \<open>
  \<open>BTreeMap<u64, V>\<close> of the standard library, as far as the book uses it: a finite map with
  its keys in ascending order. The book relies on an interface (lookup after insert and
  remove, the least and the greatest key); the association list sorted by key provides it.
\<close>

type_synonym 'v btree = "(nat \<times> 'v) list"

definition bt_get :: "'v btree \<Rightarrow> nat \<Rightarrow> 'v option" where
  "bt_get m k = map_of m k"

fun bt_insert :: "nat \<Rightarrow> 'v \<Rightarrow> 'v btree \<Rightarrow> 'v btree" where
  "bt_insert k v [] = [(k, v)]"
| "bt_insert k v ((k', v') # m) =
     (if k < k' then (k, v) # (k', v') # m
      else if k = k' then (k, v) # m
      else (k', v') # bt_insert k v m)"

fun bt_remove :: "nat \<Rightarrow> 'v btree \<Rightarrow> 'v btree" where
  "bt_remove k [] = []"
| "bt_remove k ((k', v') # m) = (if k = k' then m else (k', v') # bt_remove k m)"

definition bt_first_key :: "'v btree \<Rightarrow> nat option" where
  "bt_first_key m = (case m of [] \<Rightarrow> None | (k, _) # _ \<Rightarrow> Some k)"

definition bt_last_key :: "'v btree \<Rightarrow> nat option" where
  "bt_last_key m = (if m = [] then None else Some (fst (last m)))"

definition bt_range_keys :: "nat \<Rightarrow> nat \<Rightarrow> 'v btree \<Rightarrow> nat list" where
  "bt_range_keys lo hi m = map fst (filter (\<lambda>(k, _). lo \<le> k \<and> k < hi) m)"

definition bt_inv :: "'v btree \<Rightarrow> bool" where
  "bt_inv m \<longleftrightarrow> sorted_wrt (<) (map fst m)"

locale ordered_map =
  fixes empty :: "'m"
    and get :: "'m \<Rightarrow> nat \<Rightarrow> 'v option"
    and ins :: "nat \<Rightarrow> 'v \<Rightarrow> 'm \<Rightarrow> 'm"
    and del :: "nat \<Rightarrow> 'm \<Rightarrow> 'm"
    and first_key last_key :: "'m \<Rightarrow> nat option"
    and inv :: "'m \<Rightarrow> bool"
  assumes inv_empty: "inv empty"
    and inv_ins: "inv m \<Longrightarrow> inv (ins k v m)"
    and inv_del: "inv m \<Longrightarrow> inv (del k m)"
    and get_empty: "get empty = Map.empty"
    and get_ins: "inv m \<Longrightarrow> get (ins k v m) = (get m)(k \<mapsto> v)"
    and get_del: "inv m \<Longrightarrow> get (del k m) = (get m)(k := None)"
    and first_None: "inv m \<Longrightarrow> first_key m = None \<longleftrightarrow> get m = Map.empty"
    and last_None: "inv m \<Longrightarrow> last_key m = None \<longleftrightarrow> get m = Map.empty"
    and first_Some: "inv m \<Longrightarrow> first_key m = Some k \<Longrightarrow> get m k \<noteq> None \<and> (\<forall>j. get m j \<noteq> None \<longrightarrow> k \<le> j)"
    and last_Some: "inv m \<Longrightarrow> last_key m = Some k \<Longrightarrow> get m k \<noteq> None \<and> (\<forall>j. get m j \<noteq> None \<longrightarrow> j \<le> k)"
begin

lemma first_le:
  assumes "inv m" "get m j = Some v"
  obtains k where "first_key m = Some k" "k \<le> j"
  using assms first_None [of m] first_Some [of m] by (cases "first_key m") auto

lemma last_ge:
  assumes "inv m" "get m j = Some v"
  obtains k where "last_key m = Some k" "j \<le> k"
  using assms last_None [of m] last_Some [of m] by (cases "last_key m") auto

lemma get_ins_same [simp]: "inv m \<Longrightarrow> get (ins k v m) k = Some v"
  by (simp add: get_ins)

lemma del_ins_other: "inv m \<Longrightarrow> j \<noteq> k \<Longrightarrow> get (del k (ins k v m)) j = get m j"
  by (simp add: get_ins get_del inv_ins)

end

subsection \<open>The sorted association list is an ordered map\<close>

lemma bt_get_eq: "bt_get m = map_of m"
  by (rule ext) (simp add: bt_get_def)

lemma bt_insert_keys: "fst ` set (bt_insert k v m) = insert k (fst ` set m)"
  by (induction k v m rule: bt_insert.induct) auto

lemma bt_remove_keys: "fst ` set (bt_remove k m) \<subseteq> fst ` set m"
  by (induction k m rule: bt_remove.induct) auto

lemma bt_inv_insert: "bt_inv m \<Longrightarrow> bt_inv (bt_insert k v m)"
proof (induction k v m rule: bt_insert.induct)
  case (2 k v k' v' m)
  have "set (map fst (bt_insert k v m)) = insert k (set (map fst m))"
    using bt_insert_keys [of k v m] by simp
  with 2 show ?case by (auto simp: bt_inv_def)
qed (simp add: bt_inv_def)

lemma bt_inv_remove: "bt_inv m \<Longrightarrow> bt_inv (bt_remove k m)"
proof (induction k m rule: bt_remove.induct)
  case (2 k k' v' m)
  have "set (map fst (bt_remove k m)) \<subseteq> set (map fst m)"
    using bt_remove_keys [of k m] by simp
  with 2 show ?case by (force simp: bt_inv_def)
qed simp

lemma bt_get_insert: "bt_inv m \<Longrightarrow> bt_get (bt_insert k v m) = (bt_get m)(k \<mapsto> v)"
  by (induction k v m rule: bt_insert.induct) (auto simp: bt_get_def bt_inv_def fun_eq_iff)

lemma bt_get_remove: "bt_inv m \<Longrightarrow> bt_get (bt_remove k m) = (bt_get m)(k := None)"
proof (induction k m rule: bt_remove.induct)
  case (2 k k' v' m)
  have "map_of m k' = None" using 2(2) by (auto simp: bt_inv_def map_of_eq_None_iff)
  with 2 show ?case by (auto simp: bt_get_def bt_inv_def fun_eq_iff)
qed (simp add: bt_get_eq)

lemma bt_get_not_None: "bt_get m k \<noteq> None \<longleftrightarrow> k \<in> set (map fst m)"
  by (simp add: bt_get_def map_of_eq_None_iff)

interpretation bt: ordered_map "[]" bt_get bt_insert bt_remove bt_first_key bt_last_key bt_inv
proof
  fix m :: "'b btree" and k
  show "bt_first_key m = None \<longleftrightarrow> bt_get m = Map.empty"
    by (cases m) (auto simp: bt_first_key_def bt_get_eq)
  show "bt_last_key m = None \<longleftrightarrow> bt_get m = Map.empty"
    by (auto simp: bt_last_key_def bt_get_eq)
  show "bt_get m k \<noteq> None \<and> (\<forall>j. bt_get m j \<noteq> None \<longrightarrow> k \<le> j)"
    if "bt_inv m" "bt_first_key m = Some k"
    using that unfolding bt_get_not_None
    by (cases m) (auto simp: bt_first_key_def bt_inv_def)
  show "bt_get m k \<noteq> None \<and> (\<forall>j. bt_get m j \<noteq> None \<longrightarrow> j \<le> k)"
    if "bt_inv m" "bt_last_key m = Some k"
  proof -
    have "m \<noteq> []" and k: "k = fst (last m)" using that(2) by (auto simp: bt_last_key_def split: if_splits)
    then have "map fst m = map fst (butlast m) @ [k]" by (cases m rule: rev_cases) simp_all
    then show ?thesis using that(1) unfolding bt_get_not_None bt_inv_def
      by (auto simp: sorted_wrt_append)
  qed
qed (simp_all add: bt_inv_insert bt_inv_remove bt_get_insert bt_get_remove, simp_all add: bt_inv_def bt_get_eq)

end
