(* ===== verification/Mx_Bitset.thy ===== *)
theory Mx_Bitset
  imports Mx_Prelude
begin

unbundle bit_operations_syntax

text \<open>
  The occupancy bitset of a dense window: one bit per tick in words of 64 bits, and the scans
  for the highest and the lowest set bit.
\<close>

definition leading_zeros :: "64 word \<Rightarrow> nat" where
  "leading_zeros w = length (takeWhile (\<lambda>i. \<not> bit w i) (rev [0..<64]))"

definition trailing_zeros :: "64 word \<Rightarrow> nat" where
  "trailing_zeros w = length (takeWhile (\<lambda>i. \<not> bit w i) [0..<64])"

definition bitset_set :: "nat \<Rightarrow> 64 word list \<Rightarrow> 64 word list result" where
  "bitset_set dense_idx ws =
     (let word_ix = dense_idx div 64; bit_ix = dense_idx mod 64
      in rbind (vget ws word_ix) (\<lambda>w. vset ws word_ix (w OR push_bit bit_ix 1)))"

definition bitset_clear :: "nat \<Rightarrow> 64 word list \<Rightarrow> 64 word list result" where
  "bitset_clear dense_idx ws =
     (let word_ix = dense_idx div 64; bit_ix = dense_idx mod 64
      in rbind (vget ws word_ix) (\<lambda>w. vset ws word_ix (w AND NOT (push_bit bit_ix 1))))"

fun scan_highest :: "(nat \<times> 64 word) list \<Rightarrow> nat option result" where
  "scan_highest [] = Inr None"
| "scan_highest ((word_idx, w) # rest) =
     (if w \<noteq> 0
      then rbind (sub_u 63 (leading_zeros w)) (\<lambda>b. Inr (Some (word_idx * 64 + b)))
      else scan_highest rest)"

fun scan_lowest :: "(nat \<times> 64 word) list \<Rightarrow> nat option" where
  "scan_lowest [] = None"
| "scan_lowest ((word_idx, w) # rest) =
     (if w \<noteq> 0 then Some (word_idx * 64 + trailing_zeros w) else scan_lowest rest)"

definition find_highest_occupied :: "nat \<Rightarrow> 64 word list \<Rightarrow> nat option result" where
  "find_highest_occupied base ws =
     rbind (scan_highest (rev (enumerate 0 ws))) (\<lambda>r.
       case r of None \<Rightarrow> Inr None
       | Some tick_idx \<Rightarrow> rbind (add_u64 base tick_idx) (\<lambda>p. Inr (Some p)))"

definition find_lowest_occupied :: "nat \<Rightarrow> 64 word list \<Rightarrow> nat option result" where
  "find_lowest_occupied base ws =
     (case scan_lowest (enumerate 0 ws) of
        None \<Rightarrow> Inr None
      | Some tick_idx \<Rightarrow> rbind (add_u64 base tick_idx) (\<lambda>p. Inr (Some p)))"

subsection \<open>The set of ticks a bitset stands for\<close>

definition occ :: "64 word list \<Rightarrow> nat \<Rightarrow> bool" where
  "occ ws i \<longleftrightarrow> i div 64 < length ws \<and> bit (ws ! (i div 64)) (i mod 64)"

lemma div_mod_64_eq: "i div 64 = j div 64 \<Longrightarrow> i mod 64 = j mod 64 \<Longrightarrow> i = (j :: nat)"
  by (metis div_mult_mod_eq)

lemma occ_replicate [simp]: "\<not> occ (replicate n 0) i"
  by (simp add: occ_def)

lemma bitset_set_spec:
  assumes "i div 64 < length ws"
  obtains ws' where "bitset_set i ws = Inr ws'" "length ws' = length ws"
    "\<And>j. occ ws' j \<longleftrightarrow> j = i \<or> occ ws j"
proof
  let ?ws = "ws[i div 64 := ws ! (i div 64) OR push_bit (i mod 64) 1]"
  show "bitset_set i ws = Inr ?ws" using assms by (simp add: bitset_set_def Let_def)
  show "occ ?ws j \<longleftrightarrow> j = i \<or> occ ws j" for j
    using assms div_mod_64_eq [of j i]
    by (auto simp: occ_def nth_list_update bit_or_iff bit_exp_iff)
qed simp

lemma bitset_clear_spec:
  assumes "i div 64 < length ws"
  obtains ws' where "bitset_clear i ws = Inr ws'" "length ws' = length ws"
    "\<And>j. occ ws' j \<longleftrightarrow> j \<noteq> i \<and> occ ws j"
proof
  let ?ws = "ws[i div 64 := ws ! (i div 64) AND NOT (push_bit (i mod 64) 1)]"
  show "bitset_clear i ws = Inr ?ws" using assms by (simp add: bitset_clear_def Let_def)
  show "occ ?ws j \<longleftrightarrow> j \<noteq> i \<and> occ ws j" for j
    using assms div_mod_64_eq [of j i]
    by (auto simp: occ_def nth_list_update bit_and_iff bit_not_iff bit_exp_iff)
qed simp

lemma word_nonzero_bit:
  assumes "w \<noteq> (0 :: 64 word)"
  obtains b where "b < 64" "bit w b"
proof -
  have "\<exists>b < 64. bit w b"
  proof (rule ccontr)
    assume "\<not> ?thesis"
    then have "w = 0" by (intro bit_word_eqI) simp
    with assms show False ..
  qed
  with that show ?thesis by blast
qed

lemma first_index:
  assumes "x \<in> set xs" "Q x" and n: "n = length (takeWhile (\<lambda>x. \<not> Q x) xs)"
  shows "n < length xs" "Q (xs ! n)" "\<And>i. i < n \<Longrightarrow> \<not> Q (xs ! i)"
proof -
  have "takeWhile (\<lambda>x. \<not> Q x) xs \<noteq> xs" using assms(1,2) by (metis set_takeWhileD)
  then have "n \<noteq> length xs" unfolding n by (metis takeWhile_eq_take take_all_iff order_refl)
  moreover have "n \<le> length xs" unfolding n by (rule length_takeWhile_le)
  ultimately show l: "n < length xs" by simp
  show "Q (xs ! n)" using nth_length_takeWhile [of "\<lambda>x. \<not> Q x" xs] l n by auto
  show "\<not> Q (xs ! i)" if "i < n" for i
  proof -
    have "xs ! i = takeWhile (\<lambda>x. \<not> Q x) xs ! i" using that n by (simp add: takeWhile_nth)
    then have "xs ! i \<in> set (takeWhile (\<lambda>x. \<not> Q x) xs)" using that n by (metis nth_mem)
    then show ?thesis by (auto dest: set_takeWhileD)
  qed
qed

lemma trailing_zeros_spec:
  assumes "w \<noteq> 0"
  shows "trailing_zeros w < 64" "bit w (trailing_zeros w)" "\<And>b. bit w b \<Longrightarrow> trailing_zeros w \<le> b"
proof -
  obtain b0 where b0: "b0 < 64" "bit w b0" using assms by (rule word_nonzero_bit)
  note fi = first_index [of b0 "[0..<64]" "bit w" "trailing_zeros w"]
  have b0': "b0 \<in> set [0..<64]" using b0 by simp
  show l: "trailing_zeros w < 64" using fi(1) [OF b0' b0(2)] by (simp add: trailing_zeros_def)
  show "bit w (trailing_zeros w)" using fi(2) [OF b0' b0(2)] l by (simp add: trailing_zeros_def)
  show "trailing_zeros w \<le> b" if "bit w b" for b
    using fi(3) [OF b0' b0(2), of b] that l by (force simp: trailing_zeros_def not_le)
qed

lemma leading_zeros_spec:
  assumes "w \<noteq> 0"
  shows "leading_zeros w \<le> 63" "bit w (63 - leading_zeros w)"
    "\<And>b. bit w b \<Longrightarrow> b \<le> 63 - leading_zeros w"
proof -
  obtain b0 where b0: "b0 < 64" "bit w b0" using assms by (rule word_nonzero_bit)
  note fi = first_index [of b0 "rev [0..<64]" "bit w" "leading_zeros w"]
  have b0': "b0 \<in> set (rev [0..<64])" using b0 by simp
  have nth: "rev [0..<64] ! i = 63 - i" if "i < 64" for i using that by (simp add: rev_nth)
  have l: "leading_zeros w < 64" using fi(1) [OF b0' b0(2)] by (simp add: leading_zeros_def)
  then show "leading_zeros w \<le> 63" by simp
  show "bit w (63 - leading_zeros w)" using fi(2) [OF b0' b0(2)] nth [OF l] by (simp add: leading_zeros_def)
  show "b \<le> 63 - leading_zeros w" if "bit w b" for b
  proof (rule ccontr)
    assume "\<not> ?thesis"
    moreover have b: "b < 64" using that by (auto dest: bit_imp_le_length)
    ultimately have "63 - b < leading_zeros w" by simp
    then have "\<not> bit w (rev [0..<64] ! (63 - b))"
      using fi(3) [OF b0' b0(2), of "63 - b"] by (simp add: leading_zeros_def)
    then show False using that b nth [of "63 - b"] by simp
  qed
qed

subsection \<open>The scans find the extreme ticks\<close>

definition lowest_at :: "64 word list \<Rightarrow> nat \<Rightarrow> bool" where
  "lowest_at ws i \<longleftrightarrow> i < length ws \<and> ws ! i \<noteq> 0 \<and> (\<forall>j < i. ws ! j = 0)"

definition highest_at :: "64 word list \<Rightarrow> nat \<Rightarrow> bool" where
  "highest_at ws i \<longleftrightarrow> i < length ws \<and> ws ! i \<noteq> 0 \<and> (\<forall>j. i < j \<and> j < length ws \<longrightarrow> ws ! j = 0)"

lemma lowest_at_Cons: "lowest_at ws i \<Longrightarrow> lowest_at (0 # ws) (Suc i)"
  by (auto simp: lowest_at_def nth_Cons split: nat.splits)

lemma highest_at_snoc: "highest_at ws i \<Longrightarrow> highest_at (ws @ [0]) i"
  by (auto simp: highest_at_def nth_append)

lemma scan_lowest_word:
  "case scan_lowest (enumerate k ws) of
     None \<Rightarrow> (\<forall>w \<in> set ws. w = 0)
   | Some t \<Rightarrow> \<exists>i. lowest_at ws i \<and> t = (k + i) * 64 + trailing_zeros (ws ! i)"
proof (induction ws arbitrary: k)
  case (Cons w ws)
  show ?case
  proof (cases "w = 0")
    case False
    then have "lowest_at (w # ws) 0" by (simp add: lowest_at_def)
    then show ?thesis using False by force
  next
    case True
    show ?thesis
    proof (cases "scan_lowest (enumerate (Suc k) ws)")
      case None
      then show ?thesis using True Cons.IH [of "Suc k"] by simp
    next
      case (Some t)
      then obtain i where i: "lowest_at ws i" "t = (Suc k + i) * 64 + trailing_zeros (ws ! i)"
        using Cons.IH [of "Suc k"] by auto
      have "lowest_at (w # ws) (Suc i) \<and> t = (k + Suc i) * 64 + trailing_zeros ((w # ws) ! Suc i)"
        using True i lowest_at_Cons by simp
      then show ?thesis using True Some by auto
    qed
  qed
qed simp

lemma scan_highest_word:
  "\<exists>r. scan_highest (rev (enumerate 0 ws)) = Inr r \<and> (case r of
     None \<Rightarrow> \<forall>w \<in> set ws. w = 0
   | Some t \<Rightarrow> \<exists>i. highest_at ws i \<and> t = i * 64 + (63 - leading_zeros (ws ! i)))"
proof (induction ws rule: rev_induct)
  case (snoc w ws)
  show ?case
  proof (cases "w = 0")
    case False
    then have "highest_at (ws @ [w]) (length ws)" by (auto simp: highest_at_def)
    then show ?thesis using False leading_zeros_spec(1) [OF False]
      by (force simp: enumerate_append_eq)
  next
    case True
    obtain r where r: "scan_highest (rev (enumerate 0 ws)) = Inr r" and c: "case r of
        None \<Rightarrow> \<forall>w \<in> set ws. w = 0
      | Some t \<Rightarrow> \<exists>i. highest_at ws i \<and> t = i * 64 + (63 - leading_zeros (ws ! i))"
      using snoc.IH by auto
    have run: "scan_highest (rev (enumerate 0 (ws @ [w]))) = Inr r"
      using True r by (simp add: enumerate_append_eq)
    show ?thesis
    proof (cases r)
      case None
      then show ?thesis using run c True by simp
    next
      case (Some t)
      then obtain i where i: "highest_at ws i" "t = i * 64 + (63 - leading_zeros (ws ! i))" using c by auto
      then have "highest_at (ws @ [w]) i" "(ws @ [w]) ! i = ws ! i"
        using True highest_at_snoc by (simp_all add: highest_at_def nth_append)
      then show ?thesis using run Some i by force
    qed
  qed
qed simp

lemma occ_word:
  assumes "occ ws j"
  shows "j div 64 < length ws" "ws ! (j div 64) \<noteq> 0" "bit (ws ! (j div 64)) (j mod 64)"
  using assms by (auto simp: occ_def)

lemma find_lowest_occupied_spec:
  "yields (find_lowest_occupied base ws) (\<lambda>r. case r of
     None \<Rightarrow> \<forall>j. \<not> occ ws j
   | Some p \<Rightarrow> \<exists>t. p = base + t \<and> occ ws t \<and> (\<forall>j. occ ws j \<longrightarrow> t \<le> j))"
proof (cases "scan_lowest (enumerate 0 ws)")
  case None
  then have "\<forall>w \<in> set ws. w = 0" using scan_lowest_word [where k = 0 and ws = ws] by simp
  then have "\<not> occ ws j" for j using occ_word [of ws j] by (meson nth_mem)
  then show ?thesis using None by (simp add: find_lowest_occupied_def)
next
  case (Some t)
  then obtain i where i: "i < length ws" "t = i * 64 + trailing_zeros (ws ! i)" "ws ! i \<noteq> 0"
    and before: "\<forall>j < i. ws ! j = 0"
    using scan_lowest_word [where k = 0 and ws = ws] by (auto simp: lowest_at_def)
  note tz = trailing_zeros_spec [OF i(3)]
  have dm: "t div 64 = i" "t mod 64 = trailing_zeros (ws ! i)" using i(2) tz(1) by simp_all
  then have "occ ws t" using i(1) tz(2) by (simp add: occ_def)
  moreover have "t \<le> j" if "occ ws j" for j
  proof (cases "j div 64 = i")
    case True
    then have "trailing_zeros (ws ! i) \<le> j mod 64" using occ_word(3) [OF that] tz(3) by simp
    moreover have "j = i * 64 + j mod 64" using True by (metis div_mult_mod_eq)
    ultimately show ?thesis using i(2) by simp
  next
    case False
    then have "i < j div 64" using before occ_word(2) [OF that] by (metis linorder_neqE_nat)
    then show ?thesis using i(2) tz(1) by (simp add: div_less_iff_less_mult less_eq_div_iff_mult_less_eq)
  qed
  ultimately show ?thesis using Some by (simp add: find_lowest_occupied_def)
qed

lemma find_highest_occupied_spec:
  "yields (find_highest_occupied base ws) (\<lambda>r. case r of
     None \<Rightarrow> \<forall>j. \<not> occ ws j
   | Some p \<Rightarrow> \<exists>t. p = base + t \<and> occ ws t \<and> (\<forall>j. occ ws j \<longrightarrow> j \<le> t))"
proof -
  obtain r where r: "scan_highest (rev (enumerate 0 ws)) = Inr r" and
    c: "case r of None \<Rightarrow> \<forall>w \<in> set ws. w = 0
      | Some t \<Rightarrow> \<exists>i. highest_at ws i \<and> t = i * 64 + (63 - leading_zeros (ws ! i))"
    using scan_highest_word [of ws] by auto
  show ?thesis
  proof (cases r)
    case None
    then have "\<not> occ ws j" for j using c occ_word [of ws j] by (auto dest: nth_mem)
    then show ?thesis using None r by (simp add: find_highest_occupied_def)
  next
    case (Some t)
    then obtain i where i: "i < length ws" "t = i * 64 + (63 - leading_zeros (ws ! i))" "ws ! i \<noteq> 0"
      and after: "\<forall>j. i < j \<and> j < length ws \<longrightarrow> ws ! j = 0" using c by (auto simp: highest_at_def)
    note lz = leading_zeros_spec [OF i(3)]
    have dm: "t div 64 = i" "t mod 64 = 63 - leading_zeros (ws ! i)" using i(2) by simp_all
    then have "occ ws t" using i(1) lz(2) by (simp add: occ_def)
    moreover have "j \<le> t" if "occ ws j" for j
    proof (cases "j div 64 = i")
      case True
      then have "j mod 64 \<le> 63 - leading_zeros (ws ! i)" using occ_word(3) [OF that] lz(3) by simp
      moreover have "j = i * 64 + j mod 64" using True by (metis div_mult_mod_eq)
      ultimately show ?thesis using i(2) by simp
    next
      case False
      then have "j div 64 < i"
        using after occ_word(1,2) [OF that] by (metis linorder_neqE_nat)
      then have "j < i * 64" by (simp add: div_less_iff_less_mult)
      then show ?thesis using i(2) by simp
    qed
    ultimately show ?thesis using Some r by (simp add: find_highest_occupied_def)
  qed
qed

end
