(* ===== verification/Mx_Book.thy ===== *)
theory Mx_Book
  imports Mx_Arena Mx_Sparse_Index Mx_BTree_Map Mx_Bitset
begin

text \<open>
  The order book of \<open>matchx-book\<close>: its state and its operations, translated one by one. A
  level lives in the dense window (a vector indexed by tick) or in the sparse map; the orders
  of a level are a doubly linked list threaded through the arena. A mutable reference to a
  level is modelled by reading the level, and \<open>level_store\<close> for the writes through it.
\<close>

record order_book =
  instrument_id :: nat
  bids_dense :: "price_level list"
  asks_dense :: "price_level list"
  dense_base_price :: nat
  dense_max_ticks :: nat
  bids_sparse :: "price_level btree"
  asks_sparse :: "price_level btree"
  bid_depth_index :: fenwick
  ask_depth_index :: fenwick
  best_bid_tick :: "nat option"
  best_ask_tick :: "nat option"
  bids_occupied :: "64 word list"
  asks_occupied :: "64 word list"
  order_index :: "order_id \<rightharpoonup> arena_index"
  bids_sparse_index :: sparse_index
  asks_sparse_index :: sparse_index

definition div_ceil :: "nat \<Rightarrow> nat \<Rightarrow> nat" where
  "div_ceil a b = (if a mod b = 0 then a div b else a div b + 1)"

definition book_new :: "instrument_config \<Rightarrow> order_book result" where
  "book_new config =
     (let dense_n = max_ticks config; bitset_words = div_ceil dense_n 64 in
      rbind (fenwick_new dense_n) (\<lambda>bidx.
      rbind (fenwick_new dense_n) (\<lambda>aidx.
      rbind sparse_index_new (\<lambda>bsi.
      rbind sparse_index_new (\<lambda>asi.
        Inr \<lparr>instrument_id = ic_id config,
             bids_dense = replicate dense_n EMPTY,
             asks_dense = replicate dense_n EMPTY,
             dense_base_price = base_price config,
             dense_max_ticks = max_ticks config,
             bids_sparse = [],
             asks_sparse = [],
             bid_depth_index = bidx,
             ask_depth_index = aidx,
             best_bid_tick = None,
             best_ask_tick = None,
             bids_occupied = replicate bitset_words 0,
             asks_occupied = replicate bitset_words 0,
             order_index = Map.empty,
             bids_sparse_index = bsi,
             asks_sparse_index = asi\<rparr>)))))"

definition dense_index :: "order_book \<Rightarrow> nat \<Rightarrow> nat option" where
  "dense_index b price =
     (if price < dense_base_price b then None
      else let idx = price - dense_base_price b
           in if idx < dense_max_ticks b then Some idx else None)"

text \<open>The source matches on the side to choose a field; these name the two choices.\<close>

fun dense_levels :: "side \<Rightarrow> order_book \<Rightarrow> price_level list" where
  "dense_levels Bid b = bids_dense b"
| "dense_levels Ask b = asks_dense b"

fun sparse_levels :: "side \<Rightarrow> order_book \<Rightarrow> price_level btree" where
  "sparse_levels Bid b = bids_sparse b"
| "sparse_levels Ask b = asks_sparse b"

fun put_dense :: "side \<Rightarrow> price_level list \<Rightarrow> order_book \<Rightarrow> order_book" where
  "put_dense Bid ls b = b\<lparr>bids_dense := ls\<rparr>"
| "put_dense Ask ls b = b\<lparr>asks_dense := ls\<rparr>"

fun put_sparse :: "side \<Rightarrow> price_level btree \<Rightarrow> order_book \<Rightarrow> order_book" where
  "put_sparse Bid m b = b\<lparr>bids_sparse := m\<rparr>"
| "put_sparse Ask m b = b\<lparr>asks_sparse := m\<rparr>"

text \<open>\<open>level_mut\<close>: the level at a price, an empty one entered into the sparse map if need be.\<close>

definition level_mut :: "side \<Rightarrow> nat \<Rightarrow> order_book \<Rightarrow> (price_level \<times> order_book) result" where
  "level_mut side price b =
     (case dense_index b price of
        Some i \<Rightarrow> rbind (vget (dense_levels side b) i) (\<lambda>l. Inr (l, b))
      | None \<Rightarrow>
          (case bt_get (sparse_levels side b) price of
             Some l \<Rightarrow> Inr (l, b)
           | None \<Rightarrow> Inr (EMPTY, put_sparse side (bt_insert price EMPTY (sparse_levels side b)) b)))"

definition level_store :: "side \<Rightarrow> nat \<Rightarrow> price_level \<Rightarrow> order_book \<Rightarrow> order_book result" where
  "level_store side price l b =
     (case dense_index b price of
        Some i \<Rightarrow> rbind (vset (dense_levels side b) i l) (\<lambda>ls. Inr (put_dense side ls b))
      | None \<Rightarrow> Inr (put_sparse side (bt_insert price l (sparse_levels side b)) b))"

fun set_occupied :: "side \<Rightarrow> nat \<Rightarrow> order_book \<Rightarrow> order_book result" where
  "set_occupied Bid dense_idx b =
     rbind (bitset_set dense_idx (bids_occupied b)) (\<lambda>ws. Inr (b\<lparr>bids_occupied := ws\<rparr>))"
| "set_occupied Ask dense_idx b =
     rbind (bitset_set dense_idx (asks_occupied b)) (\<lambda>ws. Inr (b\<lparr>asks_occupied := ws\<rparr>))"

fun clear_occupied :: "side \<Rightarrow> nat \<Rightarrow> order_book \<Rightarrow> order_book result" where
  "clear_occupied Bid dense_idx b =
     rbind (bitset_clear dense_idx (bids_occupied b)) (\<lambda>ws. Inr (b\<lparr>bids_occupied := ws\<rparr>))"
| "clear_occupied Ask dense_idx b =
     rbind (bitset_clear dense_idx (asks_occupied b)) (\<lambda>ws. Inr (b\<lparr>asks_occupied := ws\<rparr>))"

definition get_level_qty :: "side \<Rightarrow> nat \<Rightarrow> order_book \<Rightarrow> nat result" where
  "get_level_qty side price b =
     (case dense_index b price of
        Some i \<Rightarrow> rbind (vget (dense_levels side b) i) (\<lambda>l. Inr (total_quantity l))
      | None \<Rightarrow>
          (case bt_get (sparse_levels side b) price of
             None \<Rightarrow> Inr 0 | Some l \<Rightarrow> Inr (total_quantity l)))"

definition lookup :: "order_id \<Rightarrow> order_book \<Rightarrow> arena_index option" where
  "lookup i b = order_index b i"

definition best_bid :: "order_book \<Rightarrow> nat option" where
  "best_bid b = best_bid_tick b"

definition best_ask :: "order_book \<Rightarrow> nat option" where
  "best_ask b = best_ask_tick b"

definition get_bid_level :: "nat \<Rightarrow> order_book \<Rightarrow> price_level result" where
  "get_bid_level price b =
     (case dense_index b price of
        Some i \<Rightarrow> vget (bids_dense b) i
      | None \<Rightarrow> expect MissingLevel (bt_get (bids_sparse b) price))"

definition get_ask_level :: "nat \<Rightarrow> order_book \<Rightarrow> price_level result" where
  "get_ask_level price b =
     (case dense_index b price of
        Some i \<Rightarrow> vget (asks_dense b) i
      | None \<Rightarrow> expect MissingLevel (bt_get (asks_sparse b) price))"

definition get_bid_level_mut :: "nat \<Rightarrow> order_book \<Rightarrow> (price_level \<times> order_book) result" where
  "get_bid_level_mut price b =
     (case dense_index b price of
        Some i \<Rightarrow> rbind (vget (bids_dense b) i) (\<lambda>l. Inr (l, b))
      | None \<Rightarrow>
          (case bt_get (bids_sparse b) price of
             Some l \<Rightarrow> Inr (l, b)
           | None \<Rightarrow> Inr (EMPTY, b\<lparr>bids_sparse := bt_insert price EMPTY (bids_sparse b)\<rparr>)))"

definition get_ask_level_mut :: "nat \<Rightarrow> order_book \<Rightarrow> (price_level \<times> order_book) result" where
  "get_ask_level_mut price b =
     (case dense_index b price of
        Some i \<Rightarrow> rbind (vget (asks_dense b) i) (\<lambda>l. Inr (l, b))
      | None \<Rightarrow>
          (case bt_get (asks_sparse b) price of
             Some l \<Rightarrow> Inr (l, b)
           | None \<Rightarrow> Inr (EMPTY, b\<lparr>asks_sparse := bt_insert price EMPTY (asks_sparse b)\<rparr>)))"

subsection \<open>Depth indices\<close>

definition depth_add :: "side \<Rightarrow> nat \<Rightarrow> nat \<Rightarrow> order_book \<Rightarrow> order_book result" where
  "depth_add side price qty b =
     (case dense_index b price of
        Some i \<Rightarrow>
          (case side of
             Bid \<Rightarrow> rbind (fenwick_add i qty (bid_depth_index b)) (\<lambda>t. Inr (b\<lparr>bid_depth_index := t\<rparr>))
           | Ask \<Rightarrow> rbind (fenwick_add i qty (ask_depth_index b)) (\<lambda>t. Inr (b\<lparr>ask_depth_index := t\<rparr>)))
      | None \<Rightarrow>
          (case side of
             Bid \<Rightarrow> rbind (sparse_index_add price qty (bids_sparse_index b))
                      (\<lambda>s. Inr (b\<lparr>bids_sparse_index := s\<rparr>))
           | Ask \<Rightarrow> rbind (sparse_index_add price qty (asks_sparse_index b))
                      (\<lambda>s. Inr (b\<lparr>asks_sparse_index := s\<rparr>))))"

definition depth_remove :: "side \<Rightarrow> nat \<Rightarrow> nat \<Rightarrow> order_book \<Rightarrow> order_book result" where
  "depth_remove side price qty b =
     (case dense_index b price of
        Some i \<Rightarrow>
          (case side of
             Bid \<Rightarrow> rbind (fenwick_sub i qty (bid_depth_index b)) (\<lambda>t. Inr (b\<lparr>bid_depth_index := t\<rparr>))
           | Ask \<Rightarrow> rbind (fenwick_sub i qty (ask_depth_index b)) (\<lambda>t. Inr (b\<lparr>ask_depth_index := t\<rparr>)))
      | None \<Rightarrow>
          (case side of
             Bid \<Rightarrow> rbind (sparse_index_sub price qty (bids_sparse_index b))
                      (\<lambda>s. Inr (b\<lparr>bids_sparse_index := s\<rparr>))
           | Ask \<Rightarrow> rbind (sparse_index_sub price qty (asks_sparse_index b))
                      (\<lambda>s. Inr (b\<lparr>asks_sparse_index := s\<rparr>))))"

subsection \<open>Insertion\<close>

definition new_order_record ::
  "order_id \<Rightarrow> side \<Rightarrow> nat \<Rightarrow> nat \<Rightarrow> order_type \<Rightarrow> nat option \<Rightarrow> nat option \<Rightarrow> order" where
  "new_order_record oid side price qty otype visible_qty stp_group =
     \<lparr>o_id = oid, o_price = price, o_quantity = qty, o_filled = 0, o_timestamp = 0,
      o_visible_quantity = (case visible_qty of None \<Rightarrow> qty | Some v \<Rightarrow> v),
      o_stp_group = (case stp_group of None \<Rightarrow> STP_NONE | Some g \<Rightarrow> g),
      o_prev = ARENA_NULL, o_next = ARENA_NULL, o_side = side, o_order_type = otype,
      o_time_in_force = GTC, o_pad = 0\<rparr>"

definition improve_best :: "side \<Rightarrow> nat \<Rightarrow> order_book \<Rightarrow> order_book" where
  "improve_best side price b =
     (case side of
        Bid \<Rightarrow> if (case best_bid_tick b of None \<Rightarrow> True | Some bb \<Rightarrow> bb < price)
               then b\<lparr>best_bid_tick := Some price\<rparr> else b
      | Ask \<Rightarrow> if (case best_ask_tick b of None \<Rightarrow> True | Some a \<Rightarrow> price < a)
               then b\<lparr>best_ask_tick := Some price\<rparr> else b)"

text \<open>The linking of a fresh order at the tail of its level.\<close>

definition link_at_tail :: "arena_index \<Rightarrow> price_level \<Rightarrow> arena \<Rightarrow> (arena_index option \<times> arena) result" where
  "link_at_tail idx level ar =
     rbind (arena_get_mut idx (\<lambda>ord. ord\<lparr>o_prev := (case tail level of None \<Rightarrow> ARENA_NULL | Some t \<Rightarrow> t),
                                        o_next := ARENA_NULL\<rparr>) ar) (\<lambda>ar1.
       case tail level of
         Some t \<Rightarrow> rbind (arena_get_mut t (\<lambda>ord. ord\<lparr>o_next := idx\<rparr>) ar1) (\<lambda>ar2. Inr (head level, ar2))
       | None \<Rightarrow> Inr (Some idx, ar1))"

definition insert_order ::
  "order_id \<Rightarrow> side \<Rightarrow> nat \<Rightarrow> nat \<Rightarrow> order_type \<Rightarrow> nat option \<Rightarrow> nat option \<Rightarrow>
   order_book \<Rightarrow> arena \<Rightarrow> (arena_index option \<times> order_book \<times> arena) result" where
  "insert_order oid side price qty otype visible_qty stp_group b ar =
     (if order_index b oid \<noteq> None then Inr (None, b, ar)
      else
        rbind (arena_alloc (new_order_record oid side price qty otype visible_qty stp_group) ar)
          (\<lambda>(slot, ar1).
        case slot of
          None \<Rightarrow> Inr (None, b, ar1)
        | Some idx \<Rightarrow>
            rbind (level_mut side price (b\<lparr>order_index := (order_index b)(oid \<mapsto> idx)\<rparr>)) (\<lambda>(level, b1).
            rbind (link_at_tail idx level ar1) (\<lambda>(hd_idx, ar2).
            rbind (add_u64 (total_quantity level) qty) (\<lambda>total.
            rbind (add_u32 (order_count level) 1) (\<lambda>n.
            rbind (level_store side price
                     \<lparr>total_quantity = total, order_count = n, head = hd_idx, tail = Some idx\<rparr> b1) (\<lambda>b2.
            rbind (depth_add side price qty b2) (\<lambda>b3.
            rbind (case dense_index b3 price of
                     Some di \<Rightarrow> set_occupied side di b3 | None \<Rightarrow> Inr b3) (\<lambda>b4.
              Inr (Some idx, improve_best side price b4, ar2)))))))))) "

subsection \<open>Reduction and removal\<close>

definition reduce_order_qty ::
  "arena_index \<Rightarrow> nat \<Rightarrow> order_book \<Rightarrow> arena \<Rightarrow> (order_book \<times> arena) result" where
  "reduce_order_qty idx delta b ar =
     rbind (arena_get ar idx) (\<lambda>ord0.
     rbind (add_u64 (o_filled ord0) delta) (\<lambda>f.
     rbind (arena_get_mut idx (\<lambda>ord. ord\<lparr>o_filled := f\<rparr>) ar) (\<lambda>ar1.
     rbind (arena_get ar1 idx) (\<lambda>ord.
     rbind (level_mut (o_side ord) (o_price ord) b) (\<lambda>(level, b1).
     rbind (expect LevelUnderflow (checked_sub (total_quantity level) delta)) (\<lambda>tq.
     rbind (level_store (o_side ord) (o_price ord) (level\<lparr>total_quantity := tq\<rparr>) b1) (\<lambda>b2.
     rbind (depth_remove (o_side ord) (o_price ord) delta b2) (\<lambda>b3.
       Inr (b3, ar1)))))))))"

definition book_level_is_empty :: "side \<Rightarrow> nat \<Rightarrow> order_book \<Rightarrow> bool result" where
  "book_level_is_empty side price b =
     (case dense_index b price of
        Some i \<Rightarrow> rbind (vget (dense_levels side b) i) (\<lambda>l. Inr (level_empty l))
      | None \<Rightarrow>
          (case bt_get (sparse_levels side b) price of
             None \<Rightarrow> Inr True | Some l \<Rightarrow> Inr (level_empty l)))"

definition prune_if_sparse_empty :: "side \<Rightarrow> nat \<Rightarrow> order_book \<Rightarrow> order_book" where
  "prune_if_sparse_empty side price b =
     (if dense_index b price \<noteq> None then b
      else case bt_get (sparse_levels side b) price of
             None \<Rightarrow> b
           | Some l \<Rightarrow> if level_empty l then put_sparse side (bt_remove price (sparse_levels side b)) b
                      else b)"

definition find_highest_occupied_bid :: "order_book \<Rightarrow> nat option result" where
  "find_highest_occupied_bid b = find_highest_occupied (dense_base_price b) (bids_occupied b)"

definition find_lowest_occupied_ask :: "order_book \<Rightarrow> nat option result" where
  "find_lowest_occupied_ask b = find_lowest_occupied (dense_base_price b) (asks_occupied b)"

definition next_best_bid :: "order_book \<Rightarrow> nat option result" where
  "next_best_bid b =
     rbind (find_highest_occupied_bid b) (\<lambda>best.
       case best of None \<Rightarrow> Inr (bt_last_key (bids_sparse b)) | Some p \<Rightarrow> Inr (Some p))"

definition next_best_ask :: "order_book \<Rightarrow> nat option result" where
  "next_best_ask b =
     rbind (find_lowest_occupied_ask b) (\<lambda>best.
       case best of None \<Rightarrow> Inr (bt_first_key (asks_sparse b)) | Some p \<Rightarrow> Inr (Some p))"

definition refresh_best_after_level_empty :: "side \<Rightarrow> nat \<Rightarrow> order_book \<Rightarrow> order_book result" where
  "refresh_best_after_level_empty side removed_price b =
     rbind (case dense_index b removed_price of
              Some di \<Rightarrow> clear_occupied side di b | None \<Rightarrow> Inr b) (\<lambda>b1.
       case side of
         Bid \<Rightarrow> if best_bid_tick b1 = Some removed_price
                then rbind (next_best_bid b1) (\<lambda>best. Inr (b1\<lparr>best_bid_tick := best\<rparr>))
                else Inr b1
       | Ask \<Rightarrow> if best_ask_tick b1 = Some removed_price
                then rbind (next_best_ask b1) (\<lambda>best. Inr (b1\<lparr>best_ask_tick := best\<rparr>))
                else Inr b1)"

text \<open>The unlinking of an order from its level's list.\<close>

definition unlink :: "order \<Rightarrow> price_level \<Rightarrow> arena \<Rightarrow> (price_level \<times> arena) result" where
  "unlink ord level ar =
     rbind (if o_prev ord \<noteq> ARENA_NULL
            then rbind (arena_get_mut (o_prev ord) (\<lambda>x. x\<lparr>o_next := o_next ord\<rparr>) ar) (\<lambda>ar1. Inr (level, ar1))
            else Inr (level\<lparr>head := (if o_next ord \<noteq> ARENA_NULL then Some (o_next ord) else None)\<rparr>, ar))
       (\<lambda>(level1, ar1).
     if o_next ord \<noteq> ARENA_NULL
     then rbind (arena_get_mut (o_next ord) (\<lambda>x. x\<lparr>o_prev := o_prev ord\<rparr>) ar1) (\<lambda>ar2. Inr (level1, ar2))
     else Inr (level1\<lparr>tail := (if o_prev ord \<noteq> ARENA_NULL then Some (o_prev ord) else None)\<rparr>, ar1))"

definition remove_order ::
  "arena_index \<Rightarrow> order_book \<Rightarrow> arena \<Rightarrow> ((side \<times> nat) \<times> order_book \<times> arena) result" where
  "remove_order idx b ar =
     rbind (arena_get ar idx) (\<lambda>ord.
     let side = o_side ord; price = o_price ord; qty = remaining ord in
     rbind (level_mut side price b) (\<lambda>(level, b1).
     rbind (unlink ord level ar) (\<lambda>(level1, ar1).
     rbind (sub_u (total_quantity level1) qty) (\<lambda>tq.
     rbind (sub_u (order_count level1) 1) (\<lambda>n.
     rbind (level_store side price (level1\<lparr>total_quantity := tq, order_count := n\<rparr>) b1) (\<lambda>b2.
     rbind (depth_remove side price qty b2) (\<lambda>b3.
     let b4 = b3\<lparr>order_index := (order_index b3)(o_id ord := None)\<rparr> in
     rbind (arena_free idx ar1) (\<lambda>ar2.
     rbind (book_level_is_empty side price b4) (\<lambda>e.
     rbind (if e then refresh_best_after_level_empty side price (prune_if_sparse_empty side price b4)
            else Inr b4) (\<lambda>b5.
       Inr ((side, price), b5, ar2)))))))))))"

subsection \<open>Available depth\<close>

definition ask_available_at_or_below :: "nat \<Rightarrow> order_book \<Rightarrow> nat result" where
  "ask_available_at_or_below price b =
     (let window_end = saturating_add_u64 (dense_base_price b) (dense_max_ticks b) in
      case dense_index b price of
        Some i \<Rightarrow>
          rbind (prefix_sum_le i (ask_depth_index b)) (\<lambda>dense.
          rbind (sum_at_or_below (saturating_sub (dense_base_price b) 1) (asks_sparse_index b)) (\<lambda>sparse.
            add_u64 dense sparse))
      | None \<Rightarrow>
          if window_end \<le> price then
            rbind (if 0 < dense_max_ticks b
                   then prefix_sum (dense_max_ticks b - 1) (ask_depth_index b) else Inr 0) (\<lambda>dense_total.
            rbind (sum_at_or_below price (asks_sparse_index b)) (\<lambda>sparse. add_u64 dense_total sparse))
          else sum_at_or_below price (asks_sparse_index b))"

definition bid_available_at_or_above :: "nat \<Rightarrow> order_book \<Rightarrow> nat result" where
  "bid_available_at_or_above price b =
     (let window_end = saturating_add_u64 (dense_base_price b) (dense_max_ticks b) in
      case dense_index b price of
        Some i \<Rightarrow>
          rbind (suffix_sum_ge i (bid_depth_index b)) (\<lambda>dense.
          rbind (sum_at_or_above window_end (bids_sparse_index b)) (\<lambda>sparse.
            add_u64 dense sparse))
      | None \<Rightarrow>
          if price < dense_base_price b then
            rbind (if 0 < dense_max_ticks b
                   then prefix_sum (dense_max_ticks b - 1) (bid_depth_index b) else Inr 0) (\<lambda>dense_total.
            rbind (sum_at_or_above price (bids_sparse_index b)) (\<lambda>sparse. add_u64 dense_total sparse))
          else sum_at_or_above price (bids_sparse_index b))"

end
