(* ===== verification/Mx_Recenter.thy ===== *)
theory Mx_Recenter
  imports Mx_Book
begin

text \<open>
  Recentering the dense window of the book: every level of the window moves to the sparse map,
  the base changes, and the sparse levels inside the new window move back; then the bitsets,
  the depth indices and the best prices are rebuilt.
\<close>

text \<open>Step 1 of \<open>force_recenter\<close>, one side of one iteration of its loop.\<close>

definition evict_level :: "side \<Rightarrow> nat \<Rightarrow> nat \<Rightarrow> order_book \<Rightarrow> order_book result" where
  "evict_level side i price b =
     rbind (vget (dense_levels side b) i) (\<lambda>moved.
     rbind (vset (dense_levels side b) i EMPTY) (\<lambda>ls.
       if \<not> level_empty moved
       then Inr (put_sparse side (bt_insert price moved (sparse_levels side b)) (put_dense side ls b))
       else Inr (put_dense side ls b)))"

definition evict_tick :: "nat \<Rightarrow> nat \<Rightarrow> order_book \<Rightarrow> order_book result" where
  "evict_tick old_base i b =
     rbind (add_u64 old_base i) (\<lambda>price.
     rbind (evict_level Bid i price b) (evict_level Ask i price))"

text \<open>Step 2, one key.\<close>

definition absorb_level :: "side \<Rightarrow> nat \<Rightarrow> nat \<Rightarrow> order_book \<Rightarrow> order_book result" where
  "absorb_level side new_base price b =
     (case bt_get (sparse_levels side b) price of
        None \<Rightarrow> Inr b
      | Some level \<Rightarrow>
          rbind (sub_u price new_base) (\<lambda>di.
          rbind (vset (dense_levels side b) di level) (\<lambda>ls.
            Inr (put_dense side ls (put_sparse side (bt_remove price (sparse_levels side b)) b)))))"

text \<open>Step 3: bitsets and Fenwick trees of the window.\<close>

definition index_tick :: "nat \<Rightarrow> order_book \<Rightarrow> order_book result" where
  "index_tick i b =
     rbind (vget (bids_dense b) i) (\<lambda>lb.
     rbind (if \<not> level_empty lb
            then rbind (set_occupied Bid i b) (\<lambda>b1.
                 rbind (fenwick_add i (total_quantity lb) (bid_depth_index b1)) (\<lambda>t.
                   Inr (b1\<lparr>bid_depth_index := t\<rparr>)))
            else Inr b) (\<lambda>b2.
     rbind (vget (asks_dense b2) i) (\<lambda>la.
       if \<not> level_empty la
       then rbind (set_occupied Ask i b2) (\<lambda>b3.
            rbind (fenwick_add i (total_quantity la) (ask_depth_index b3)) (\<lambda>t.
              Inr (b3\<lparr>ask_depth_index := t\<rparr>)))
       else Inr b2)))"

definition sparse_index_of :: "price_level btree \<Rightarrow> sparse_index result" where
  "sparse_index_of m =
     rbind sparse_index_new
       (rfold (\<lambda>(price, qty) s. sparse_index_add price qty s)
          (map (\<lambda>(p, l). (p, total_quantity l)) (filter (\<lambda>(_, l). \<not> level_empty l) m)))"

definition rebuild_sparse_indices :: "order_book \<Rightarrow> order_book result" where
  "rebuild_sparse_indices b =
     rbind (sparse_index_of (bids_sparse b)) (\<lambda>bids_index.
     rbind (sparse_index_of (asks_sparse b)) (\<lambda>asks_index.
       Inr (b\<lparr>bids_sparse_index := bids_index, asks_sparse_index := asks_index\<rparr>)))"

definition rebuild_indices :: "order_book \<Rightarrow> order_book result" where
  "rebuild_indices b =
     (let dense_n = dense_max_ticks b; bitset_words = div_ceil dense_n 64 in
      rbind (fenwick_new dense_n) (\<lambda>bt.
      rbind (fenwick_new dense_n) (\<lambda>at.
      rbind (rfold index_tick [0..<dense_n]
        (b\<lparr>bids_occupied := replicate bitset_words 0, asks_occupied := replicate bitset_words 0,
           bid_depth_index := bt, ask_depth_index := at\<rparr>)) rebuild_sparse_indices)))"

text \<open>Step 4.\<close>

definition refresh_bbo_after_recenter :: "order_book \<Rightarrow> order_book result" where
  "refresh_bbo_after_recenter b =
     rbind (case best_bid_tick b of
              None \<Rightarrow> Inr b
            | Some bid \<Rightarrow>
                rbind (book_level_is_empty Bid bid b) (\<lambda>e.
                  if e then rbind (next_best_bid b) (\<lambda>best. Inr (b\<lparr>best_bid_tick := best\<rparr>)) else Inr b))
       (\<lambda>b1.
     case best_ask_tick b1 of
       None \<Rightarrow> Inr b1
     | Some ask \<Rightarrow>
         rbind (book_level_is_empty Ask ask b1) (\<lambda>e.
           if e then rbind (next_best_ask b1) (\<lambda>best. Inr (b1\<lparr>best_ask_tick := best\<rparr>)) else Inr b1))"

definition force_recenter :: "nat \<Rightarrow> order_book \<Rightarrow> order_book result" where
  "force_recenter new_base b =
     (if new_base = dense_base_price b then Inr b
      else
        let old_base = dense_base_price b; dense_n = dense_max_ticks b in
        rbind (add_u64 new_base dense_n) (\<lambda>new_end.
        rbind (rfold (evict_tick old_base) [0..<dense_n] b) (\<lambda>b1.
        let b2 = b1\<lparr>dense_base_price := new_base\<rparr> in
        rbind (rfold (absorb_level Bid new_base) (bt_range_keys new_base new_end (bids_sparse b2)) b2) (\<lambda>b3.
        rbind (rfold (absorb_level Ask new_base) (bt_range_keys new_base new_end (asks_sparse b3)) b3) (\<lambda>b4.
        rbind (rebuild_indices b4) refresh_bbo_after_recenter)))))"

text \<open>The guards of the first match are evaluated in order; a guard's sum is checked.\<close>

definition needs_recenter :: "order_book \<Rightarrow> bool result" where
  "needs_recenter b =
     (let window_size = dense_max_ticks b; threshold = window_size * 7 div 10 in
      rbind (case best_bid_tick b of
               None \<Rightarrow> Inr False
             | Some bid \<Rightarrow> rbind (add_u64 (dense_base_price b) threshold) (\<lambda>t. Inr (t \<le> bid))) (\<lambda>up.
        if up then Inr True
        else case best_ask_tick b of
               None \<Rightarrow> Inr False
             | Some ask \<Rightarrow>
                 rbind (add_u64 (dense_base_price b) (window_size - threshold)) (\<lambda>t. Inr (ask < t))))"

definition maybe_recenter :: "order_book \<Rightarrow> order_book result" where
  "maybe_recenter b =
     rbind (needs_recenter b) (\<lambda>needs.
       if needs then
         let center = (case best_bid_tick b of
                         Some bid \<Rightarrow> bid
                       | None \<Rightarrow> (case best_ask_tick b of Some ask \<Rightarrow> ask | None \<Rightarrow> 0))
         in force_recenter (saturating_sub center (dense_max_ticks b div 2)) b
       else Inr b)"

definition is_in_sparse :: "side \<Rightarrow> nat \<Rightarrow> order_book \<Rightarrow> bool" where
  "is_in_sparse side price b \<longleftrightarrow> bt_get (sparse_levels side b) price \<noteq> None"

end
