(* ===== verification/Mx_Policy.thy ===== *)
theory Mx_Policy
  imports Mx_Arena
begin

text \<open>
  \<open>policy.rs\<close>: the \<open>MatchPolicy\<close> trait and its price-time implementation. The trait is a
  locale: what a policy must say about prices; \<open>PriceTimeFifo\<close> interprets it. The walk over
  one level reports its fills through a sink, here the list of fills.
\<close>

record fill =
  f_maker_idx :: arena_index
  f_maker_id :: order_id
  f_taker_id :: order_id
  f_price :: nat
  f_qty :: nat

text \<open>
  The loop follows \<open>next\<close> links. On a list with a cycle it would stop only when \<open>remaining\<close>
  is used up; the fuel bounds the number of orders visited, and running out is \<open>Diverges\<close>.
\<close>

fun match_order_loop ::
  "nat \<Rightarrow> order_id \<Rightarrow> nat \<Rightarrow> nat \<Rightarrow> arena_index option \<Rightarrow> arena \<Rightarrow> (nat \<times> fill list) result" where
  "match_order_loop fuel taker rem price None ar = Inr (rem, [])"
| "match_order_loop 0 taker rem price (Some maker_idx) ar =
     (if rem = 0 then Inr (rem, []) else Inl Diverges)"
| "match_order_loop (Suc fuel) taker rem price (Some maker_idx) ar =
     (if rem = 0 then Inr (rem, [])
      else
        rbind (arena_get ar maker_idx) (\<lambda>maker.
        let fill_qty = min rem (remaining maker);
            cursor = (if o_next maker \<noteq> ARENA_NULL then Some (o_next maker) else None) in
        rbind (sub_u rem fill_qty) (\<lambda>rem'.
        rbind (match_order_loop fuel taker rem' price cursor ar) (\<lambda>(r, fills).
          Inr (r, \<lparr>f_maker_idx = maker_idx, f_maker_id = o_id maker, f_taker_id = taker,
                  f_price = price, f_qty = fill_qty\<rparr> # fills)))))"

definition is_price_acceptable :: "side \<Rightarrow> nat \<Rightarrow> nat \<Rightarrow> bool" where
  "is_price_acceptable incoming_side incoming_price resting_price =
     (case incoming_side of
        Bid \<Rightarrow> resting_price \<le> incoming_price
      | Ask \<Rightarrow> incoming_price \<le> resting_price)"

text \<open>\<open>better s p q\<close>: a resting order on side \<open>s\<close> at \<open>p\<close> has priority over one at \<open>q\<close>.\<close>

definition better :: "side \<Rightarrow> nat \<Rightarrow> nat \<Rightarrow> bool" where
  "better s p q = (case s of Bid \<Rightarrow> q \<le> p | Ask \<Rightarrow> p \<le> q)"

locale match_policy =
  fixes acceptable :: "side \<Rightarrow> nat \<Rightarrow> nat \<Rightarrow> bool"
  assumes acceptable_better:
      "acceptable s px q \<Longrightarrow> better (opposite s) p q \<Longrightarrow> acceptable s px p"
    and acceptable_symmetric: "acceptable s p q \<longleftrightarrow> acceptable (opposite s) q p"
    and acceptable_total: "acceptable s p q \<or> acceptable s q p"
begin

lemma acceptable_refl: "acceptable s p p"
  using acceptable_total by blast

text \<open>If the best opposing price is not acceptable, no opposing price is.\<close>

lemma none_acceptable:
  assumes "\<not> acceptable s px best" "better (opposite s) best p"
  shows "\<not> acceptable s px p"
  using assms acceptable_better by blast

end

interpretation fifo: match_policy is_price_acceptable
proof
  show "is_price_acceptable s px p" if "is_price_acceptable s px q" "better (opposite s) p q" for s px p q
    using that by (cases s) (auto simp: is_price_acceptable_def better_def)
  show "is_price_acceptable s p q \<longleftrightarrow> is_price_acceptable (opposite s) q p" for s p q
    by (cases s) (auto simp: is_price_acceptable_def)
  show "is_price_acceptable s p q \<or> is_price_acceptable s q p" for s p q
    by (cases s) (auto simp: is_price_acceptable_def)
qed

end
