(* ===== verification/Mx_Bytes.thy ===== *)
theory Mx_Bytes
  imports Mx_Prelude
begin

text \<open>
  Little-endian bytes of fixed-width unsigned integers (\<open>to_le_bytes\<close>, \<open>from_le_bytes\<close>),
  used by the engine's snapshot and by the journal.
\<close>

type_synonym byte = "8 word"

definition le_bytes :: "nat \<Rightarrow> nat \<Rightarrow> byte list" where
  "le_bytes n x = map (\<lambda>i. word_of_nat (x div 256 ^ i)) [0..<n]"

fun from_le_bytes :: "byte list \<Rightarrow> nat" where
  "from_le_bytes [] = 0"
| "from_le_bytes (b # bs) = unat b + 256 * from_le_bytes bs"

lemma length_le_bytes [simp]: "length (le_bytes n x) = n"
  by (simp add: le_bytes_def)

lemma le_bytes_0 [simp]: "le_bytes 0 x = []"
  by (simp add: le_bytes_def)

lemma le_bytes_Suc: "le_bytes (Suc n) x = word_of_nat x # le_bytes n (x div 256)"
proof -
  have "map (\<lambda>i. word_of_nat (x div 256 ^ i) :: byte) (map Suc [0..<n]) =
      map (\<lambda>i. word_of_nat (x div 256 div 256 ^ i)) [0..<n]"
    by (simp add: div_mult2_eq)
  then show ?thesis by (simp add: le_bytes_def upt_conv_Cons map_Suc_upt del: upt_Suc)
qed

lemma from_le_bytes_le_bytes: "from_le_bytes (le_bytes n x) = x mod 256 ^ n"
proof (induction n arbitrary: x)
  case (Suc n)
  have "unat (word_of_nat x :: byte) = x mod 256" by (simp add: unat_of_nat)
  then have "from_le_bytes (le_bytes (Suc n) x) = x mod 256 + 256 * (x div 256 mod 256 ^ n)"
    using Suc by (simp add: le_bytes_Suc)
  then show ?case by (simp add: mod_mult2_eq)
qed simp

lemma from_le_bytes_less: "from_le_bytes bs < 256 ^ length bs"
proof (induction bs)
  case (Cons b bs)
  have "unat b < 256" by (rule order.strict_trans2 [OF unsigned_less]) simp
  then show ?case using Cons by simp
qed simp

lemma le_bytes_from_le_bytes: "le_bytes (length bs) (from_le_bytes bs) = bs"
proof (induction bs)
  case (Cons b bs)
  have b: "unat b < 256" by (rule order.strict_trans2 [OF unsigned_less]) simp
  then have "(unat b + 256 * from_le_bytes bs) div 256 = from_le_bytes bs" by simp
  moreover have "(word_of_nat (unat b + 256 * from_le_bytes bs) :: byte) = b"
  proof -
    have "(word_of_nat 256 :: byte) = 0" by (simp add: word_of_nat_eq_0_iff)
    then have "(word_of_nat (256 * from_le_bytes bs) :: byte) = 0"
      by (simp only: of_nat_mult mult_zero_left)
    then show ?thesis by (simp only: of_nat_add add_0_right of_nat_unat ucast_id)
  qed
  ultimately show ?case using Cons by (simp add: le_bytes_Suc)
qed simp

lemma le_u64_roundtrip: "x \<le> u64_max \<Longrightarrow> from_le_bytes (le_bytes 8 x) = x"
  by (simp add: from_le_bytes_le_bytes u64_max_def)

lemma le_u32_roundtrip: "x \<le> u32_max \<Longrightarrow> from_le_bytes (le_bytes 4 x) = x"
  by (simp add: from_le_bytes_le_bytes u32_max_def)

end
