(* ===== verification/Mx_Engine.thy ===== *)
theory Mx_Engine
  imports Mx_Recenter Mx_Policy Mx_Bytes
begin

text \<open>
  The matching engine of \<open>matchx-engine\<close>: its state, the matching loop, the handling of each
  command and the draining of triggered stops. The event buffer is the list of the events the
  current call has emitted; it holds at most \<open>MAX_EVENTS_PER_CALL\<close>.
\<close>

definition MAX_EVENTS_PER_CALL :: nat where
  "MAX_EVENTS_PER_CALL = 64"

record stop_entry =
  s_id :: order_id
  s_side :: side
  s_limit_price :: nat
  s_qty :: nat
  s_time_in_force :: time_in_force
  s_visible_qty :: "nat option"
  s_stp_group :: "nat option"

record engine =
  book :: order_book
  eng_arena :: arena
  config :: instrument_config
  sequence :: nat
  timestamp_ns :: nat
  events :: "match_event list"
  stop_bids :: "(nat \<times> stop_entry) list"
  stop_asks :: "(nat \<times> stop_entry) list"
  last_trade_price :: "nat option"

definition engine_new :: "instrument_config \<Rightarrow> nat \<Rightarrow> engine result" where
  "engine_new cfg arena_capacity =
     rbind (book_new cfg) (\<lambda>b.
       Inr \<lparr>book = b, eng_arena = arena_new arena_capacity, config = cfg, sequence = 0,
            timestamp_ns = 0, events = [], stop_bids = [], stop_asks = [],
            last_trade_price = None\<rparr>)"

definition emit :: "(event_meta \<Rightarrow> match_event) \<Rightarrow> engine \<Rightarrow> engine result" where
  "emit event_fn e =
     rbind (add_u64 (sequence e) 1) (\<lambda>sq.
     rbind (add_u64 (timestamp_ns e) 1) (\<lambda>ts.
     if length (events e) < MAX_EVENTS_PER_CALL
     then Inr (e\<lparr>sequence := sq, timestamp_ns := ts,
                events := events e @ [event_fn \<lparr>m_sequence = sq, m_timestamp_ns = ts\<rparr>]\<rparr>)
     else Inl EventBufferOverflow))"

definition emit_rejected :: "order_id \<Rightarrow> reject_reason \<Rightarrow> engine \<Rightarrow> engine result" where
  "emit_rejected oid reason = emit (\<lambda>meta. OrderRejected meta oid reason)"

text \<open>The calls on the book that also take the arena, on the engine's two fields.\<close>

definition eng_remove :: "arena_index \<Rightarrow> engine \<Rightarrow> engine result" where
  "eng_remove idx e =
     rbind (remove_order idx (book e) (eng_arena e)) (\<lambda>(_, b, ar).
       Inr (e\<lparr>book := b, eng_arena := ar\<rparr>))"

definition eng_reduce :: "arena_index \<Rightarrow> nat \<Rightarrow> engine \<Rightarrow> engine result" where
  "eng_reduce idx delta e =
     rbind (reduce_order_qty idx delta (book e) (eng_arena e)) (\<lambda>(b, ar).
       Inr (e\<lparr>book := b, eng_arena := ar\<rparr>))"

definition eng_insert ::
  "order_id \<Rightarrow> side \<Rightarrow> nat \<Rightarrow> nat \<Rightarrow> order_type \<Rightarrow> nat option \<Rightarrow> nat option \<Rightarrow> engine \<Rightarrow> engine result" where
  "eng_insert oid side price qty otype visible_qty stp_group e =
     rbind (insert_order oid side price qty otype visible_qty stp_group (book e) (eng_arena e))
       (\<lambda>(_, b, ar). Inr (e\<lparr>book := b, eng_arena := ar\<rparr>))"

subsection \<open>Matching\<close>

fun best_opposing :: "side \<Rightarrow> order_book \<Rightarrow> nat option" where
  "best_opposing Bid b = best_ask b"
| "best_opposing Ask b = best_bid b"

fun opposing_level :: "side \<Rightarrow> nat \<Rightarrow> order_book \<Rightarrow> price_level result" where
  "opposing_level Bid price b = get_ask_level price b"
| "opposing_level Ask price b = get_bid_level price b"

definition stp_first_maker_matches :: "side \<Rightarrow> nat \<Rightarrow> nat \<Rightarrow> engine \<Rightarrow> bool result" where
  "stp_first_maker_matches taker_side taker_price taker_stp e =
     (case best_opposing taker_side (book e) of
        None \<Rightarrow> Inr False
      | Some resting_price \<Rightarrow>
          if \<not> is_price_acceptable taker_side taker_price resting_price then Inr False
          else
            rbind (opposing_level taker_side resting_price (book e)) (\<lambda>level.
            case head level of
              None \<Rightarrow> Inr False
            | Some head_idx \<Rightarrow>
                rbind (arena_get (eng_arena e) head_idx) (\<lambda>maker.
                  Inr (o_stp_group maker \<noteq> STP_NONE \<and> o_stp_group maker = taker_stp))))"

text \<open>The outcome of one turn of the matching loop.\<close>

datatype step_outcome =
    Continue nat engine
  | Finish bool nat engine

text \<open>The two events a cancelled maker causes.\<close>

definition cancel_maker ::
  "arena_index \<Rightarrow> order_id \<Rightarrow> side \<Rightarrow> nat \<Rightarrow> nat \<Rightarrow> engine \<Rightarrow> engine result" where
  "cancel_maker maker_idx maker_id maker_side maker_remaining resting_price e =
     rbind (eng_remove maker_idx e) (\<lambda>e1.
     rbind (emit (\<lambda>meta. OrderCancelled meta maker_id maker_remaining) e1) (\<lambda>e2.
     rbind (get_level_qty maker_side resting_price (book e2)) (\<lambda>level_qty.
       emit (\<lambda>meta. BookUpdate meta maker_side resting_price level_qty) e2)))"

definition stp_step ::
  "stp_mode \<Rightarrow> arena_index \<Rightarrow> order \<Rightarrow> nat \<Rightarrow> nat \<Rightarrow> engine \<Rightarrow> step_outcome result" where
  "stp_step mode maker_idx maker resting_price rem e =
     (let maker_remaining = remaining maker; maker_id = o_id maker; maker_side = o_side maker in
      case mode of
        CancelNewest \<Rightarrow> Inr (Finish False rem e)
      | CancelOldest \<Rightarrow>
          rbind (cancel_maker maker_idx maker_id maker_side maker_remaining resting_price e)
            (\<lambda>e1. Inr (Continue rem e1))
      | CancelBoth \<Rightarrow>
          rbind (cancel_maker maker_idx maker_id maker_side maker_remaining resting_price e)
            (\<lambda>e1. Inr (Finish True rem e1))
      | DecrementAndCancel \<Rightarrow>
          (let overlap = min rem maker_remaining in
           rbind (if maker_remaining = overlap then eng_remove maker_idx e
                  else eng_reduce maker_idx overlap e) (\<lambda>e1.
           rbind (get_level_qty maker_side resting_price (book e1)) (\<lambda>level_qty.
           rbind (emit (\<lambda>meta. BookUpdate meta maker_side resting_price level_qty) e1) (\<lambda>e2.
           rbind (sub_u rem overlap) (\<lambda>rem'. Inr (Finish True rem' e2))))))) "

text \<open>The fill of a maker: its order, its level, the two events, and its removal when spent.\<close>

definition level_mut_opposing :: "side \<Rightarrow> nat \<Rightarrow> order_book \<Rightarrow> (price_level \<times> order_book) result" where
  "level_mut_opposing taker_side price b =
     (case taker_side of Bid \<Rightarrow> get_ask_level_mut price b | Ask \<Rightarrow> get_bid_level_mut price b)"

definition fill_step ::
  "order_id \<Rightarrow> side \<Rightarrow> arena_index \<Rightarrow> order \<Rightarrow> nat \<Rightarrow> nat \<Rightarrow> engine \<Rightarrow> step_outcome result" where
  "fill_step taker_id taker_side maker_idx maker resting_price rem e =
     (let fill_qty = min rem (matchable_qty maker); maker_side = o_side maker in
      rbind (add_u64 (o_filled maker) fill_qty) (\<lambda>f.
      rbind (arena_get_mut maker_idx (\<lambda>ord. ord\<lparr>o_filled := f\<rparr>) (eng_arena e)) (\<lambda>ar1.
      rbind (level_mut_opposing taker_side resting_price (book e)) (\<lambda>(level, b1).
      rbind (sub_u (total_quantity level) fill_qty) (\<lambda>tq.
      rbind (level_store (opposite taker_side) resting_price (level\<lparr>total_quantity := tq\<rparr>) b1) (\<lambda>b2.
      rbind (sub_u rem fill_qty) (\<lambda>rem'.
      rbind (arena_get ar1 maker_idx) (\<lambda>maker'.
      let new_maker_remaining = remaining maker'; e1 = e\<lparr>book := b2, eng_arena := ar1\<rparr> in
      rbind (emit (\<lambda>meta. FillEvent meta (o_id maker) taker_id resting_price fill_qty
                            new_maker_remaining rem') e1) (\<lambda>e2.
      let e3 = e2\<lparr>last_trade_price := Some resting_price\<rparr> in
      rbind (get_level_qty maker_side resting_price (book e3)) (\<lambda>level_qty.
      rbind (emit (\<lambda>meta. BookUpdate meta maker_side resting_price level_qty) e3) (\<lambda>e4.
      rbind (if new_maker_remaining = 0 then eng_remove maker_idx e4 else Inr e4) (\<lambda>e5.
        Inr (Continue rem' e5)))))))))))))"

definition match_step ::
  "order_id \<Rightarrow> side \<Rightarrow> nat \<Rightarrow> nat option \<Rightarrow> nat \<Rightarrow> engine \<Rightarrow> step_outcome result" where
  "match_step taker_id taker_side taker_price taker_stp rem e =
     (case best_opposing taker_side (book e) of
        None \<Rightarrow> Inr (Finish False rem e)
      | Some resting_price \<Rightarrow>
          if \<not> is_price_acceptable taker_side taker_price resting_price then Inr (Finish False rem e)
          else
            rbind (opposing_level taker_side resting_price (book e)) (\<lambda>level.
            case head level of
              None \<Rightarrow> Inr (Finish False rem e)
            | Some maker_idx \<Rightarrow>
                rbind (arena_get (eng_arena e) maker_idx) (\<lambda>maker.
                if remaining maker = 0 then
                  rbind (eng_remove maker_idx e) (\<lambda>e1. Inr (Continue rem e1))
                else if taker_stp \<noteq> None \<and> o_stp_group maker \<noteq> STP_NONE \<and>
                        taker_stp = Some (o_stp_group maker) then
                  stp_step (cfg_stp_mode (config e)) maker_idx maker resting_price rem e
                else fill_step taker_id taker_side maker_idx maker resting_price rem e)))"

subsection \<open>The matching loop ends\<close>

text \<open>
  Every turn that continues either removes an order from the arena or uses up some of the
  taker's quantity, so the loop is a total function.
\<close>

lemma unlink_len: "unlink ord level ar = Inr (l, ar') \<Longrightarrow> a_len ar' = a_len ar"
  by (auto simp: unlink_def rbind_eq_Inr split: if_splits dest!: arena_get_mut_len)

lemma remove_order_len: "remove_order idx b ar = Inr (r, b', ar') \<Longrightarrow> a_len ar' < a_len ar"
  by (auto simp: remove_order_def rbind_eq_Inr Let_def dest!: unlink_len arena_free_len)

lemma emit_frame:
  assumes "emit f e = Inr e'"
  shows "book e' = book e" "eng_arena e' = eng_arena e" "config e' = config e"
    "stop_bids e' = stop_bids e" "stop_asks e' = stop_asks e"
    "last_trade_price e' = last_trade_price e"
  using assms by (auto simp: emit_def rbind_eq_Inr split: if_splits)

lemma eng_remove_frame:
  assumes "eng_remove idx e = Inr e'"
  shows "a_len (eng_arena e') < a_len (eng_arena e)" "stop_bids e' = stop_bids e"
    "stop_asks e' = stop_asks e" "config e' = config e" "last_trade_price e' = last_trade_price e"
    "events e' = events e" "sequence e' = sequence e" "timestamp_ns e' = timestamp_ns e"
  using assms by (auto simp: eng_remove_def rbind_eq_Inr dest: remove_order_len)

lemma eng_reduce_frame:
  assumes "eng_reduce idx d e = Inr e'"
  shows "stop_bids e' = stop_bids e" "stop_asks e' = stop_asks e" "config e' = config e"
    "last_trade_price e' = last_trade_price e"
    "events e' = events e" "sequence e' = sequence e" "timestamp_ns e' = timestamp_ns e"
  using assms by (auto simp: eng_reduce_def rbind_eq_Inr)

lemma cancel_maker_frame:
  assumes "cancel_maker i oid sd mr px e = Inr e'"
  shows "a_len (eng_arena e') < a_len (eng_arena e)" "stop_bids e' = stop_bids e"
    "stop_asks e' = stop_asks e"
  using assms by (auto simp: cancel_maker_def rbind_eq_Inr emit_frame dest: eng_remove_frame)

lemma fill_step_run:
  assumes "fill_step tid sd i maker px rem e = Inr out"
  obtains f ar1 level b1 b2 maker' e2 q e4 e5 fill_qty where
    "fill_qty = min rem (matchable_qty maker)"
    "arena_get_mut i (\<lambda>ord. ord\<lparr>o_filled := f\<rparr>) (eng_arena e) = Inr ar1"
    "level_mut_opposing sd px (book e) = Inr (level, b1)"
    "level_store (opposite sd) px (level\<lparr>total_quantity := total_quantity level - fill_qty\<rparr>) b1 = Inr b2"
    "arena_get ar1 i = Inr maker'"
    "emit (\<lambda>meta. FillEvent meta (o_id maker) tid px fill_qty (remaining maker') (rem - fill_qty))
       (e\<lparr>book := b2, eng_arena := ar1\<rparr>) = Inr e2"
    "emit (\<lambda>meta. BookUpdate meta (o_side maker) px q) (e2\<lparr>last_trade_price := Some px\<rparr>) = Inr e4"
    "(if remaining maker' = 0 then eng_remove i e4 else Inr e4) = Inr e5"
    "out = Continue (rem - fill_qty) e5"
  using assms unfolding fill_step_def Let_def
  by (elim rbind_InrE) (auto simp: arith_results elim!: rbind_InrE)

lemma fill_step_decreases:
  assumes run: "fill_step tid sd i maker px rem e = Inr (Continue r e')"
    and "0 < rem" "remaining maker \<noteq> 0"
  shows "r + a_len (eng_arena e') < rem + a_len (eng_arena e)"
  using run
proof (rule fill_step_run)
  fix f ar1 level b1 b2 maker' e2 q e4 e5 fill_qty
  assume f: "fill_qty = min rem (matchable_qty maker)"
    and ar1: "arena_get_mut i (\<lambda>ord. ord\<lparr>o_filled := f\<rparr>) (eng_arena e) = Inr ar1"
    and e2: "emit (\<lambda>meta. FillEvent meta (o_id maker) tid px fill_qty (remaining maker') (rem - fill_qty))
       (e\<lparr>book := b2, eng_arena := ar1\<rparr>) = Inr e2"
    and e4: "emit (\<lambda>meta. BookUpdate meta (o_side maker) px q) (e2\<lparr>last_trade_price := Some px\<rparr>) = Inr e4"
    and e5: "(if remaining maker' = 0 then eng_remove i e4 else Inr e4) = Inr e5"
    and out: "Continue r e' = Continue (rem - fill_qty) e5"
  have "0 < fill_qty" "fill_qty \<le> rem" using f assms(2,3) matchable_pos [of maker] by simp_all
  moreover have "a_len (eng_arena e4) = a_len (eng_arena e)"
    using emit_frame(2) [OF e4] emit_frame(2) [OF e2] arena_get_mut_len [OF ar1] by simp
  moreover have "a_len (eng_arena e5) \<le> a_len (eng_arena e4)"
    using e5 by (auto split: if_splits dest: eng_remove_frame(1))
  ultimately show ?thesis using out assms(2) by simp
qed

text \<open>The turns of the loop, by what they do.\<close>

lemma match_step_cases [consumes 1, case_names stop stale stp fill]:
  assumes "match_step tid sd px stp rem e = Inr out"
  obtains "out = Finish False rem e"
  | rp level i maker e1 where "best_opposing sd (book e) = Some rp" "is_price_acceptable sd px rp"
      "opposing_level sd rp (book e) = Inr level" "head level = Some i"
      "arena_get (eng_arena e) i = Inr maker" "remaining maker = 0"
      "eng_remove i e = Inr e1" "out = Continue rem e1"
  | rp level i maker where "best_opposing sd (book e) = Some rp" "is_price_acceptable sd px rp"
      "opposing_level sd rp (book e) = Inr level" "head level = Some i"
      "arena_get (eng_arena e) i = Inr maker" "remaining maker \<noteq> 0"
      "stp = Some (o_stp_group maker)" "o_stp_group maker \<noteq> STP_NONE"
      "stp_step (cfg_stp_mode (config e)) i maker rp rem e = Inr out"
  | rp level i maker where "best_opposing sd (book e) = Some rp" "is_price_acceptable sd px rp"
      "opposing_level sd rp (book e) = Inr level" "head level = Some i"
      "arena_get (eng_arena e) i = Inr maker" "remaining maker \<noteq> 0"
      "o_stp_group maker = STP_NONE \<or> stp \<noteq> Some (o_stp_group maker)"
      "fill_step tid sd i maker rp rem e = Inr out"
proof (cases "best_opposing sd (book e)")
  case None
  then show ?thesis using assms that(1) by (simp add: match_step_def)
next
  case (Some rp)
  show ?thesis
  proof (cases "is_price_acceptable sd px rp")
    case False
    then show ?thesis using assms Some that(1) by (simp add: match_step_def)
  next
    case True
    then obtain level where level: "opposing_level sd rp (book e) = Inr level"
      using assms Some by (auto simp: match_step_def elim: rbind_InrE)
    show ?thesis
    proof (cases "head level")
      case None
      then show ?thesis using assms Some True level that(1) by (simp add: match_step_def)
    next
      case hd: (Some i)
      then obtain maker where maker: "arena_get (eng_arena e) i = Inr maker"
        using assms Some True level by (auto simp: match_step_def elim: rbind_InrE)
      note run = assms [unfolded match_step_def Some option.case, simplified True level hd maker
          if_False rbind_simps option.case simp_thms]
      note pre = Some True level hd maker
      consider "remaining maker = 0"
        | "remaining maker \<noteq> 0" "stp = Some (o_stp_group maker)" "o_stp_group maker \<noteq> STP_NONE"
        | "remaining maker \<noteq> 0" "o_stp_group maker = STP_NONE \<or> stp \<noteq> Some (o_stp_group maker)"
        by blast
      then show ?thesis
      proof cases
        case 1
        then obtain e1 where "eng_remove i e = Inr e1" "out = Continue rem e1"
          using run by (auto elim: rbind_InrE)
        then show ?thesis using that(2) pre 1 by blast
      next
        case 2
        then have "stp_step (cfg_stp_mode (config e)) i maker rp rem e = Inr out" using run by simp
        then show ?thesis using that(3) pre 2 by blast
      next
        case 3
        then have "fill_step tid sd i maker rp rem e = Inr out" using run by auto
        then show ?thesis using that(4) pre 3 by blast
      qed
    qed
  qed
qed

lemma stp_step_decreases:
  assumes "stp_step mode i maker px rem e = Inr (Continue r e')"
  shows "r + a_len (eng_arena e') < rem + a_len (eng_arena e)"
  using assms by (cases mode)
    (auto simp: stp_step_def Let_def rbind_eq_Inr dest: cancel_maker_frame(1))

lemma match_step_decreases:
  assumes "match_step tid sd px stp rem e = Inr (Continue r e')" "0 < rem"
  shows "r + a_len (eng_arena e') < rem + a_len (eng_arena e)"
  using assms(1)
proof (cases rule: match_step_cases)
  case stale
  then show ?thesis using eng_remove_frame(1) by simp
next
  case stp
  then show ?thesis using stp_step_decreases by blast
next
  case fill
  then show ?thesis using fill_step_decreases assms(2) by blast
qed simp

function match_against_book ::
  "order_id \<Rightarrow> side \<Rightarrow> nat \<Rightarrow> nat option \<Rightarrow> nat \<Rightarrow> engine \<Rightarrow> (bool \<times> nat \<times> engine) result" where
  "match_against_book taker_id taker_side taker_price taker_stp rem e =
     (if 0 < rem then
        rbind (match_step taker_id taker_side taker_price taker_stp rem e) (\<lambda>out.
          case out of
            Finish cancel rem' e' \<Rightarrow> Inr (cancel, rem', e')
          | Continue rem' e' \<Rightarrow> match_against_book taker_id taker_side taker_price taker_stp rem' e')
      else Inr (False, rem, e))"
  by pat_completeness auto
termination
  by (relation "measure (\<lambda>(tid, sd, px, stp, rem, e). rem + a_len (eng_arena e))")
    (auto dest: match_step_decreases)

declare match_against_book.simps [simp del]

text \<open>The stop queues and the configuration are not touched by matching.\<close>

definition same_stops :: "engine \<Rightarrow> engine \<Rightarrow> bool" where
  "same_stops e e' \<longleftrightarrow> stop_bids e' = stop_bids e \<and> stop_asks e' = stop_asks e \<and> config e' = config e"

lemma same_stops_refl [simp]: "same_stops e e"
  by (simp add: same_stops_def)

lemma same_stops_trans: "same_stops e f \<Longrightarrow> same_stops f g \<Longrightarrow> same_stops e g"
  by (simp add: same_stops_def)

lemma emit_stops: "emit f e = Inr e' \<Longrightarrow> same_stops e e'"
  by (simp add: same_stops_def emit_frame)

lemma emit_rejected_stops: "emit_rejected i r e = Inr e' \<Longrightarrow> same_stops e e'"
  by (simp add: emit_rejected_def emit_stops)

lemma eng_remove_stops: "eng_remove i e = Inr e' \<Longrightarrow> same_stops e e'"
  by (simp add: same_stops_def eng_remove_frame)

lemma eng_reduce_stops: "eng_reduce i d e = Inr e' \<Longrightarrow> same_stops e e'"
  by (simp add: same_stops_def eng_reduce_frame)

lemma eng_insert_stops: "eng_insert i sd px q ot vis stp e = Inr e' \<Longrightarrow> same_stops e e'"
  by (auto simp: same_stops_def eng_insert_def rbind_eq_Inr)

lemma cancel_maker_stops: "cancel_maker i oid sd mr px e = Inr e' \<Longrightarrow> same_stops e e'"
  unfolding cancel_maker_def
  by (elim rbind_InrE) (blast intro: same_stops_trans eng_remove_stops emit_stops)

lemmas stops_rules = emit_stops emit_rejected_stops eng_remove_stops eng_reduce_stops
  eng_insert_stops cancel_maker_stops

fun outcome_engine :: "step_outcome \<Rightarrow> engine" where
  "outcome_engine (Continue r e) = e"
| "outcome_engine (Finish c r e) = e"

lemma fill_step_stops:
  assumes "fill_step tid sd i maker px rem e = Inr out"
  shows "same_stops e (outcome_engine out)"
  using assms
proof (rule fill_step_run)
  fix f ar1 level b1 b2 maker' e2 q e4 e5 fill_qty
  assume e2: "emit (\<lambda>meta. FillEvent meta (o_id maker) tid px fill_qty (remaining maker') (rem - fill_qty))
       (e\<lparr>book := b2, eng_arena := ar1\<rparr>) = Inr e2"
    and e4: "emit (\<lambda>meta. BookUpdate meta (o_side maker) px q) (e2\<lparr>last_trade_price := Some px\<rparr>) = Inr e4"
    and e5: "(if remaining maker' = 0 then eng_remove i e4 else Inr e4) = Inr e5"
    and out: "out = Continue (rem - fill_qty) e5"
  have "same_stops e e2" using emit_stops [OF e2] by (simp add: same_stops_def)
  moreover have "same_stops e2 e4" using emit_stops [OF e4] by (simp add: same_stops_def)
  moreover have "same_stops e4 e5" using e5 by (auto split: if_splits dest: eng_remove_stops)
  ultimately show ?thesis using out by (auto intro: same_stops_trans)
qed

lemma stp_step_stops:
  assumes "stp_step mode i maker px rem e = Inr out"
  shows "same_stops e (outcome_engine out)"
  using assms
  by (cases mode) (auto simp: stp_step_def Let_def rbind_eq_Inr split: if_splits
      dest!: stops_rules intro: same_stops_trans)

lemma match_step_stops:
  assumes "match_step tid sd px stp rem e = Inr out"
  shows "same_stops e (outcome_engine out)"
  using assms
  by (cases rule: match_step_cases) (auto dest: fill_step_stops stp_step_stops eng_remove_stops)

lemma match_against_book_stops:
  assumes "match_against_book tid sd px stp rem e = Inr (c, r, e')"
  shows "same_stops e e'"
  using assms
proof (induction tid sd px stp rem e rule: match_against_book.induct)
  case (1 tid sd px stp rem e)
  show ?case
  proof (cases "0 < rem")
    case False
    then show ?thesis using "1.prems" by (simp add: match_against_book.simps)
  next
    case True
    then obtain out where out: "match_step tid sd px stp rem e = Inr out"
      and rest: "(case out of Finish cancel rem' e' \<Rightarrow> Inr (cancel, rem', e')
          | Continue rem' e' \<Rightarrow> match_against_book tid sd px stp rem' e') = Inr (c, r, e')"
      using "1.prems" by (subst (asm) match_against_book.simps) (auto elim: rbind_InrE)
    note step = match_step_stops [OF out]
    show ?thesis
    proof (cases out)
      case (Finish cancel rem' e1)
      then show ?thesis using rest step by simp
    next
      case (Continue rem' e1)
      then have "same_stops e1 e'" using "1.IH" [OF True out Continue] rest by simp
      then show ?thesis using step Continue by (auto intro: same_stops_trans)
    qed
  qed
qed

subsection \<open>Commands\<close>

definition check_available_liquidity :: "side \<Rightarrow> nat \<Rightarrow> engine \<Rightarrow> nat result" where
  "check_available_liquidity taker_side taker_price e =
     (case taker_side of
        Bid \<Rightarrow> ask_available_at_or_below taker_price (book e)
      | Ask \<Rightarrow> bid_available_at_or_above taker_price (book e))"

definition would_cross :: "side \<Rightarrow> nat \<Rightarrow> order_book \<Rightarrow> bool" where
  "would_cross side price b =
     (case side of
        Bid \<Rightarrow> (case best_ask b of None \<Rightarrow> False | Some ask \<Rightarrow> ask \<le> price)
      | Ask \<Rightarrow> (case best_bid b of None \<Rightarrow> False | Some bid \<Rightarrow> price \<le> bid))"

text \<open>Queueing a stop: before the entries that trigger at the same price or later.\<close>

definition queue_stop :: "nat \<Rightarrow> stop_entry \<Rightarrow> engine \<Rightarrow> engine result" where
  "queue_stop stop_px entry e =
     (case s_side entry of
        Bid \<Rightarrow>
          (let pos = partition_point (\<lambda>(px, _). px < stop_px) (stop_bids e) in
           rbind (vec_insert (stop_bids e) pos (stop_px, entry)) (\<lambda>q. Inr (e\<lparr>stop_bids := q\<rparr>)))
      | Ask \<Rightarrow>
          (let pos = partition_point (\<lambda>(px, _). stop_px < px) (stop_asks e) in
           rbind (vec_insert (stop_asks e) pos (stop_px, entry)) (\<lambda>q. Inr (e\<lparr>stop_asks := q\<rparr>))))"

definition process_post_only ::
  "order_id \<Rightarrow> side \<Rightarrow> nat \<Rightarrow> nat \<Rightarrow> nat option \<Rightarrow> nat option \<Rightarrow> engine \<Rightarrow> engine result" where
  "process_post_only oid side price qty visible_qty stp_group e =
     (if would_cross side price (book e) then emit_rejected oid WouldCrossSpread e
      else
        rbind (emit (\<lambda>meta. OrderAccepted meta oid side price qty PostOnly) e) (\<lambda>e1.
        rbind (eng_insert oid side price qty PostOnly visible_qty stp_group e1) (\<lambda>e2.
          emit (\<lambda>meta. BookUpdate meta side price qty) e2)))"

definition process_stop_limit ::
  "order_id \<Rightarrow> side \<Rightarrow> nat \<Rightarrow> nat \<Rightarrow> time_in_force \<Rightarrow> nat option \<Rightarrow> nat option \<Rightarrow> nat option \<Rightarrow>
   engine \<Rightarrow> engine result" where
  "process_stop_limit oid side price qty tif visible_qty stop_price stp_group e =
     (if qty = 0 then emit (\<lambda>meta. OrderRejected meta oid InvalidQuantity) e
      else case stop_price of
        None \<Rightarrow> emit (\<lambda>meta. OrderRejected meta oid InvalidPrice) e
      | Some stop_px \<Rightarrow>
          rbind (emit (\<lambda>meta. OrderAccepted meta oid side price qty StopLimit) e)
            (queue_stop stop_px
               \<lparr>s_id = oid, s_side = side, s_limit_price = price, s_qty = qty,
                s_time_in_force = tif, s_visible_qty = visible_qty, s_stp_group = stp_group\<rparr>))"

definition handle_remainder ::
  "order_id \<Rightarrow> side \<Rightarrow> nat \<Rightarrow> nat \<Rightarrow> order_type \<Rightarrow> time_in_force \<Rightarrow> nat option \<Rightarrow> nat option \<Rightarrow>
   engine \<Rightarrow> engine result" where
  "handle_remainder oid side price qty otype tif visible_qty stp_group e =
     (if (otype = Limit \<or> otype = Iceberg) \<and> tif = GTC \<and> 0 < qty then
        rbind (eng_insert oid side price qty otype visible_qty stp_group e)
          (emit (\<lambda>meta. BookUpdate meta side price qty))
      else if (otype = Market \<or> tif = IOC \<or> tif = FOK) \<and> 0 < qty then
        emit (\<lambda>meta. OrderCancelled meta oid qty) e
      else Inr e)"

definition effective_price :: "order_type \<Rightarrow> side \<Rightarrow> nat \<Rightarrow> nat" where
  "effective_price otype side price =
     (if otype = Market then (case side of Bid \<Rightarrow> u64_max | Ask \<Rightarrow> 0) else price)"

definition fok_short :: "time_in_force \<Rightarrow> side \<Rightarrow> nat \<Rightarrow> nat \<Rightarrow> engine \<Rightarrow> bool result" where
  "fok_short tif side eff_price qty e =
     (if tif = FOK
      then rbind (check_available_liquidity side eff_price e) (\<lambda>available. Inr (available < qty))
      else Inr False)"

definition stp_newest_hit :: "nat option \<Rightarrow> side \<Rightarrow> nat \<Rightarrow> engine \<Rightarrow> bool result" where
  "stp_newest_hit stp_group side eff_price e =
     (case stp_group of
        Some taker_stp \<Rightarrow>
          if cfg_stp_mode (config e) = CancelNewest
          then stp_first_maker_matches side eff_price taker_stp e else Inr False
      | None \<Rightarrow> Inr False)"

definition process_new_order ::
  "order_id \<Rightarrow> side \<Rightarrow> nat \<Rightarrow> nat \<Rightarrow> order_type \<Rightarrow> time_in_force \<Rightarrow> nat option \<Rightarrow> nat option \<Rightarrow>
   nat option \<Rightarrow> engine \<Rightarrow> engine result" where
  "process_new_order oid side price qty otype tif visible_qty stop_price stp_group e =
     (if otype = PostOnly then process_post_only oid side price qty visible_qty stp_group e
      else if otype = StopLimit then
        process_stop_limit oid side price qty tif visible_qty stop_price stp_group e
      else if qty = 0 then emit (\<lambda>meta. OrderRejected meta oid InvalidQuantity) e
      else if lookup oid (book e) \<noteq> None then emit_rejected oid DuplicateOrderId e
      else
        let eff_price = effective_price otype side price in
        rbind (fok_short tif side eff_price qty e) (\<lambda>short.
        if short then emit_rejected oid InsufficientLiquidity e
        else rbind (stp_newest_hit stp_group side eff_price e) (\<lambda>hit.
        if hit then emit (\<lambda>meta. OrderRejected meta oid SelfTradePreventionTriggered) e
        else
          rbind (emit (\<lambda>meta. OrderAccepted meta oid side price qty otype) e) (\<lambda>e1.
          rbind (match_against_book oid side eff_price stp_group qty e1) (\<lambda>(cancel_incoming, qty', e2).
          if cancel_incoming then emit (\<lambda>meta. OrderCancelled meta oid qty') e2
          else handle_remainder oid side price qty' otype tif visible_qty stp_group e2)))))"

lemma handle_remainder_stops:
  "handle_remainder i sd px q ot tif vis stp e = Inr e' \<Longrightarrow> same_stops e e'"
  by (auto simp: handle_remainder_def rbind_eq_Inr split: if_splits
      dest!: eng_insert_stops emit_stops intro: same_stops_trans)

lemma process_new_order_stops:
  assumes "process_new_order i sd px q Limit tif vis stop stp e = Inr e'"
  shows "same_stops e e'"
  using assms
  by (auto simp: process_new_order_def rbind_eq_Inr Let_def split: if_splits
      dest!: emit_stops emit_rejected_stops match_against_book_stops handle_remainder_stops
      intro: same_stops_trans)

subsection \<open>Stops\<close>

definition trigger_stop :: "stop_entry \<Rightarrow> engine \<Rightarrow> engine result" where
  "trigger_stop entry e =
     rbind (emit (\<lambda>meta. StopTriggered meta (s_id entry) (s_id entry)) e)
       (process_new_order (s_id entry) (s_side entry) (s_limit_price entry) (s_qty entry) Limit
          (s_time_in_force entry) (s_visible_qty entry) None (s_stp_group entry))"

lemma trigger_stop_stops: "trigger_stop entry e = Inr e' \<Longrightarrow> same_stops e e'"
  unfolding trigger_stop_def
  by (elim rbind_InrE) (blast intro: same_stops_trans emit_stops process_new_order_stops)

function drain_buy_stops :: "nat \<Rightarrow> engine \<Rightarrow> engine result" where
  "drain_buy_stops last_price e =
     (case stop_bids e of
        [] \<Rightarrow> Inr e
      | (stop_px, entry) # rest \<Rightarrow>
          if last_price < stop_px then Inr e
          else rbind (trigger_stop entry (e\<lparr>stop_bids := rest\<rparr>)) (drain_buy_stops last_price))"
  by pat_completeness auto
termination
  by (relation "measure (\<lambda>(p, e). length (stop_bids e))")
    (auto dest!: trigger_stop_stops simp: same_stops_def)

function drain_sell_stops :: "nat \<Rightarrow> engine \<Rightarrow> engine result" where
  "drain_sell_stops last_price e =
     (case stop_asks e of
        [] \<Rightarrow> Inr e
      | (stop_px, entry) # rest \<Rightarrow>
          if stop_px < last_price then Inr e
          else rbind (trigger_stop entry (e\<lparr>stop_asks := rest\<rparr>)) (drain_sell_stops last_price))"
  by pat_completeness auto
termination
  by (relation "measure (\<lambda>(p, e). length (stop_asks e))")
    (auto dest!: trigger_stop_stops simp: same_stops_def)

declare drain_buy_stops.simps [simp del] drain_sell_stops.simps [simp del]

definition pending_stops :: "engine \<Rightarrow> nat" where
  "pending_stops e = length (stop_bids e) + length (stop_asks e)"

lemma trigger_stop_pending: "trigger_stop entry e = Inr e' \<Longrightarrow> pending_stops e' = pending_stops e"
  by (auto dest: trigger_stop_stops simp: same_stops_def pending_stops_def)

lemma drain_buy_stops_pending:
  "drain_buy_stops p e = Inr e' \<Longrightarrow> e' = e \<or> pending_stops e' < pending_stops e"
proof (induction p e rule: drain_buy_stops.induct)
  case (1 p e)
  show ?case
  proof (cases "stop_bids e")
    case Nil
    then show ?thesis using "1.prems" by (simp add: drain_buy_stops.simps)
  next
    case (Cons a rest)
    obtain px entry where a: "a = (px, entry)" by (cases a)
    show ?thesis
    proof (cases "p < px")
      case True
      then show ?thesis using "1.prems" Cons a by (simp add: drain_buy_stops.simps)
    next
      case False
      then obtain e1 where e1: "trigger_stop entry (e\<lparr>stop_bids := rest\<rparr>) = Inr e1"
        and run: "drain_buy_stops p e1 = Inr e'"
        using "1.prems" Cons a by (subst (asm) drain_buy_stops.simps) (auto elim: rbind_InrE)
      have "pending_stops e1 < pending_stops e"
        using trigger_stop_pending [OF e1] Cons by (simp add: pending_stops_def)
      moreover have "e' = e1 \<or> pending_stops e' < pending_stops e1"
        using "1.IH" [OF Cons a [symmetric] False e1 run] by simp
      ultimately show ?thesis by auto
    qed
  qed
qed

lemma drain_sell_stops_pending:
  "drain_sell_stops p e = Inr e' \<Longrightarrow> e' = e \<or> pending_stops e' < pending_stops e"
proof (induction p e rule: drain_sell_stops.induct)
  case (1 p e)
  show ?case
  proof (cases "stop_asks e")
    case Nil
    then show ?thesis using "1.prems" by (simp add: drain_sell_stops.simps)
  next
    case (Cons a rest)
    obtain px entry where a: "a = (px, entry)" by (cases a)
    show ?thesis
    proof (cases "px < p")
      case True
      then show ?thesis using "1.prems" Cons a by (simp add: drain_sell_stops.simps)
    next
      case False
      then obtain e1 where e1: "trigger_stop entry (e\<lparr>stop_asks := rest\<rparr>) = Inr e1"
        and run: "drain_sell_stops p e1 = Inr e'"
        using "1.prems" Cons a by (subst (asm) drain_sell_stops.simps) (auto elim: rbind_InrE)
      have "pending_stops e1 < pending_stops e"
        using trigger_stop_pending [OF e1] Cons by (simp add: pending_stops_def)
      moreover have "e' = e1 \<or> pending_stops e' < pending_stops e1"
        using "1.IH" [OF Cons a [symmetric] False e1 run] by simp
      ultimately show ?thesis by auto
    qed
  qed
qed

function drain_stop_triggers :: "engine \<Rightarrow> engine result" where
  "drain_stop_triggers e =
     (case last_trade_price e of
        None \<Rightarrow> Inr e
      | Some last_price \<Rightarrow>
          rbind (drain_buy_stops last_price e) (\<lambda>e1.
          rbind (drain_sell_stops last_price e1) (\<lambda>e2.
            if last_trade_price e2 = Some last_price then Inr e2 else drain_stop_triggers e2)))"
  by pat_completeness auto
termination
  by (relation "measure pending_stops")
    (auto dest!: drain_buy_stops_pending drain_sell_stops_pending)

declare drain_stop_triggers.simps [simp del]

subsection \<open>Cancel, modify, and the entry point\<close>

definition process_cancel :: "order_id \<Rightarrow> engine \<Rightarrow> engine result" where
  "process_cancel oid e =
     (case lookup oid (book e) of
        Some idx \<Rightarrow>
          rbind (arena_get (eng_arena e) idx) (\<lambda>ord.
          rbind (eng_remove idx e) (\<lambda>e1.
          rbind (emit (\<lambda>meta. OrderCancelled meta oid (remaining ord)) e1) (\<lambda>e2.
          rbind (get_level_qty (o_side ord) (o_price ord) (book e2)) (\<lambda>level_qty.
            emit (\<lambda>meta. BookUpdate meta (o_side ord) (o_price ord) level_qty) e2))))
      | None \<Rightarrow> emit (\<lambda>meta. OrderRejected meta oid OrderNotFound) e)"

definition process_modify :: "order_id \<Rightarrow> nat \<Rightarrow> nat \<Rightarrow> engine \<Rightarrow> engine result" where
  "process_modify oid new_price new_qty e =
     (case lookup oid (book e) of
        Some idx \<Rightarrow>
          rbind (arena_get (eng_arena e) idx) (\<lambda>ord.
          rbind (eng_remove idx e) (\<lambda>e1.
          rbind (emit (\<lambda>meta. OrderModified meta oid new_price new_qty) e1) (\<lambda>e2.
          rbind (get_level_qty (o_side ord) (o_price ord) (book e2)) (\<lambda>old_level_qty.
          rbind (emit (\<lambda>meta. BookUpdate meta (o_side ord) (o_price ord) old_level_qty) e2)
            (process_new_order oid (o_side ord) new_price new_qty Limit GTC None None None)))))
      | None \<Rightarrow> emit (\<lambda>meta. OrderRejected meta oid OrderNotFound) e)"

fun process_command :: "command \<Rightarrow> engine \<Rightarrow> engine result" where
  "process_command (NewOrder oid instr side price qty otype tif visible_qty stop_price stp_group) e =
     process_new_order oid side price qty otype tif visible_qty stop_price stp_group e"
| "process_command (CancelOrder oid) e = process_cancel oid e"
| "process_command (ModifyOrder oid new_price new_qty) e = process_modify oid new_price new_qty e"

text \<open>\<open>process\<close>: the new engine, whose \<open>events\<close> are the slice the call returns.\<close>

definition process :: "command \<Rightarrow> engine \<Rightarrow> engine result" where
  "process cmd e = rbind (process_command cmd (e\<lparr>events := []\<rparr>)) drain_stop_triggers"

definition engine_best_bid :: "engine \<Rightarrow> nat option" where
  "engine_best_bid e = best_bid (book e)"

definition engine_best_ask :: "engine \<Rightarrow> nat option" where
  "engine_best_ask e = best_ask (book e)"

definition snapshot :: "engine \<Rightarrow> byte list" where
  "snapshot e =
     le_bytes 8 (sequence e) @ le_bytes 8 (timestamp_ns e) @
     le_bytes 8 (case last_trade_price e of None \<Rightarrow> 0 | Some p \<Rightarrow> p)"

definition current_sequence :: "engine \<Rightarrow> nat" where
  "current_sequence e = sequence e"

text \<open>A run over a list of commands, with the events of every call.\<close>

fun process_all :: "command list \<Rightarrow> engine \<Rightarrow> (match_event list list \<times> engine) result" where
  "process_all [] e = Inr ([], e)"
| "process_all (c # cs) e =
     rbind (process c e) (\<lambda>e1.
     rbind (process_all cs e1) (\<lambda>(evs, e2). Inr (events e1 # evs, e2)))"

end
