(* ===== verification/Mx_Links.thy ===== *)
theory Mx_Links
  imports Mx_Book
begin

text \<open>
  The orders of a level are a doubly linked list threaded through the store of orders. This
  theory states what the lists need of a store (\<open>order_store\<close>: a slot can be updated in
  place), proves the two changes of links once over that interface, and instantiates it with the
  arena. \<open>link_at_tail\<close> and \<open>unlink\<close> of the book are the two changes.
\<close>

subsection \<open>List segments\<close>

fun dll :: "(arena_index \<rightharpoonup> order) \<Rightarrow> arena_index \<Rightarrow> arena_index list \<Rightarrow> arena_index \<Rightarrow> bool" where
  "dll h p [] n \<longleftrightarrow> True"
| "dll h p (i # q) n \<longleftrightarrow>
     (\<exists>ord. h i = Some ord \<and> o_prev ord = p \<and> o_next ord = (if q = [] then n else hd q)) \<and> dll h i q n"

lemma dll_append:
  "dll h p (xs @ ys) n \<longleftrightarrow>
     dll h p xs (if ys = [] then n else hd ys) \<and> dll h (if xs = [] then p else last xs) ys n"
  by (induction xs arbitrary: p) auto

lemma dll_cong: "(\<And>i. i \<in> set q \<Longrightarrow> h' i = h i) \<Longrightarrow> dll h' p q n \<longleftrightarrow> dll h p q n"
  by (induction q arbitrary: p) auto

lemma dll_upd [simp]: "i \<notin> set q \<Longrightarrow> dll (h(i \<mapsto> x)) p q n \<longleftrightarrow> dll h p q n"
  by (rule dll_cong) auto

lemma dll_dom: "dll h p q n \<Longrightarrow> i \<in> set q \<Longrightarrow> h i \<noteq> None"
  by (induction q arbitrary: p) auto

text \<open>Changing the outer link of the last or of the first node.\<close>

lemma dll_set_next:
  assumes "dll h p (xs @ [t]) n" "distinct (xs @ [t])" "h t = Some ord"
  shows "dll (h(t \<mapsto> ord\<lparr>o_next := m\<rparr>)) p (xs @ [t]) m"
  using assms by (simp add: dll_append)

lemma dll_set_prev:
  assumes "dll h p (t # xs) n" "t \<notin> set xs" "h t = Some ord"
  shows "dll (h(t \<mapsto> ord\<lparr>o_prev := m\<rparr>)) m (t # xs) n"
  using assms by simp

text \<open>Two heaps that differ in links only, within a set of slots.\<close>

definition relinked :: "arena_index set \<Rightarrow> (arena_index \<rightharpoonup> order) \<Rightarrow> (arena_index \<rightharpoonup> order) \<Rightarrow> bool" where
  "relinked S h h' \<longleftrightarrow> (\<forall>i. i \<notin> S \<longrightarrow> h' i = h i) \<and>
     (\<forall>i. rel_option (\<lambda>a b. \<exists>p n. b = a\<lparr>o_prev := p, o_next := n\<rparr>) (h i) (h' i))"

lemma links_self: "\<exists>p n. a = a\<lparr>o_prev := p, o_next := n\<rparr>" for a :: order
  by (rule exI [of _ "o_prev a"], rule exI [of _ "o_next a"]) simp

lemma relinked_refl [simp]: "relinked S h h"
  unfolding relinked_def by (auto intro!: option.rel_refl links_self)

lemma relinkedD:
  assumes "relinked S h h'"
  shows "i \<notin> S \<Longrightarrow> h' i = h i" "h' i = None \<longleftrightarrow> h i = None"
    "h i = Some a \<Longrightarrow> \<exists>p n. h' i = Some (a\<lparr>o_prev := p, o_next := n\<rparr>)"
    "h' i = Some b \<Longrightarrow> \<exists>a p n. h i = Some a \<and> b = a\<lparr>o_prev := p, o_next := n\<rparr>"
proof -
  have rel: "rel_option (\<lambda>a b. \<exists>p n. b = a\<lparr>o_prev := p, o_next := n\<rparr>) (h i) (h' i)"
    using assms unfolding relinked_def by blast
  show "i \<notin> S \<Longrightarrow> h' i = h i" using assms unfolding relinked_def by blast
  show "h' i = None \<longleftrightarrow> h i = None" using rel by (cases "h i"; cases "h' i") simp_all
  show "h i = Some a \<Longrightarrow> \<exists>p n. h' i = Some (a\<lparr>o_prev := p, o_next := n\<rparr>)"
    using rel by (cases "h' i") simp_all
  show "h' i = Some b \<Longrightarrow> \<exists>a p n. h i = Some a \<and> b = a\<lparr>o_prev := p, o_next := n\<rparr>"
    using rel by (cases "h i") simp_all
qed

lemma relinked_step:
  assumes "relinked S h h'" "h' i = Some b" "i \<in> S"
    "c = b\<lparr>o_prev := p, o_next := n\<rparr>"
  shows "relinked S h (h'(i \<mapsto> c))"
proof -
  obtain a p' n' where "h i = Some a" "b = a\<lparr>o_prev := p', o_next := n'\<rparr>"
    using relinkedD(4) [OF assms(1,2)] by blast
  then show ?thesis using assms unfolding relinked_def by auto
qed

lemma relinked_mono: "relinked S h h' \<Longrightarrow> S \<subseteq> T \<Longrightarrow> relinked T h h'"
  unfolding relinked_def by blast

subsection \<open>The interface to a store of orders\<close>

locale order_store =
  fixes inv :: "'s \<Rightarrow> bool"
    and heap :: "'s \<Rightarrow> arena_index \<rightharpoonup> order"
    and mut :: "arena_index \<Rightarrow> (order \<Rightarrow> order) \<Rightarrow> 's \<Rightarrow> 's result"
    and null :: arena_index
  assumes mut_ok: "inv s \<Longrightarrow> heap s i = Some ord \<Longrightarrow>
      \<exists>s'. mut i upd s = Inr s' \<and> inv s' \<and> heap s' = (heap s)(i \<mapsto> upd ord)"
    and null_free: "inv s \<Longrightarrow> heap s null = None"
begin

text \<open>A fresh node goes behind the last one.\<close>

lemma append_node:
  assumes "inv s" "dll (heap s) null q null" "distinct q" "i \<notin> set q" "heap s i = Some new"
  shows "\<exists>s'. rbind (mut i (\<lambda>ord. ord\<lparr>o_prev := (if q = [] then null else last q), o_next := null\<rparr>) s)
      (\<lambda>s1. if q = [] then Inr s1 else mut (last q) (\<lambda>ord. ord\<lparr>o_next := i\<rparr>) s1) = Inr s' \<and>
    inv s' \<and> dll (heap s') null (q @ [i]) null \<and> relinked (insert i (set q)) (heap s) (heap s')"
proof -
  let ?p = "if q = [] then null else last q"
  let ?new = "new\<lparr>o_prev := ?p, o_next := null\<rparr>"
  obtain s1 where s1: "mut i (\<lambda>ord. ord\<lparr>o_prev := ?p, o_next := null\<rparr>) s = Inr s1" "inv s1"
    "heap s1 = (heap s)(i \<mapsto> ?new)"
    using mut_ok [OF assms(1,5)] by blast
  have r1: "relinked (insert i (set q)) (heap s) (heap s1)"
    unfolding s1(3) by (rule relinked_step [where h' = "heap s", OF relinked_refl assms(5)]) auto
  have q1: "dll (heap s1) null q null"
    using assms(2,4) dll_cong [of q "heap s1" "heap s"] s1(3) by auto
  show ?thesis
  proof (cases "q = []")
    case True
    then show ?thesis using s1 r1 by auto
  next
    case False
    then obtain xs t where q: "q = xs @ [t]" by (metis rev_exhaust)
    obtain ord where t: "heap s1 t = Some ord" using dll_dom [OF q1] q by fastforce
    obtain s2 where s2: "mut t (\<lambda>ord. ord\<lparr>o_next := i\<rparr>) s1 = Inr s2" "inv s2"
      "heap s2 = (heap s1)(t \<mapsto> ord\<lparr>o_next := i\<rparr>)"
      using mut_ok [OF s1(2) t] by blast
    have "dll (heap s2) null (xs @ [t]) i"
      unfolding s2(3) using dll_set_next [OF q1 [unfolded q] _ t] assms(3) q by simp
    moreover have "heap s2 i = Some ?new" using s1(3) s2(3) assms(4) q by auto
    ultimately have "dll (heap s2) null (q @ [i]) null" using q by (simp add: dll_append)
    moreover have "relinked (insert i (set q)) (heap s) (heap s2)"
      unfolding s2(3) by (rule relinked_step [where h' = "heap s1", OF r1 t, where p = "o_prev ord" and n = i]) (simp_all add: q)
    ultimately show ?thesis using s1 s2 q by auto
  qed
qed

text \<open>A node in the middle is bridged by its neighbours.\<close>

lemma remove_node:
  assumes "inv s" "dll (heap s) null (xs @ i # ys) null" "distinct (xs @ i # ys)" "heap s i = Some ord"
  shows "\<exists>s'. rbind (if o_prev ord \<noteq> null then mut (o_prev ord) (\<lambda>x. x\<lparr>o_next := o_next ord\<rparr>) s else Inr s)
      (\<lambda>s1. if o_next ord \<noteq> null then mut (o_next ord) (\<lambda>x. x\<lparr>o_prev := o_prev ord\<rparr>) s1 else Inr s1) = Inr s' \<and>
    inv s' \<and> dll (heap s') null (xs @ ys) null \<and> relinked (set xs \<union> set ys) (heap s) (heap s') \<and>
    o_prev ord = (if xs = [] then null else last xs) \<and> o_next ord = (if ys = [] then null else hd ys)"
proof -
  have seg: "dll (heap s) null xs i" "o_prev ord = (if xs = [] then null else last xs)"
    "o_next ord = (if ys = [] then null else hd ys)" "dll (heap s) i ys null"
    using assms(2,4) by (simp_all add: dll_append)
  have notnull: "j \<noteq> null" if "j \<in> set (xs @ ys)" for j
    using that dll_dom [OF assms(2), of j] null_free [OF assms(1)] by auto
  have "\<exists>s1. (if o_prev ord \<noteq> null then mut (o_prev ord) (\<lambda>x. x\<lparr>o_next := o_next ord\<rparr>) s else Inr s) = Inr s1 \<and>
    inv s1 \<and> dll (heap s1) null xs (o_next ord) \<and> dll (heap s1) i ys null \<and>
    relinked (set xs \<union> set ys) (heap s) (heap s1)"
  proof (cases xs rule: rev_cases)
    case Nil
    then show ?thesis using assms(1) seg by simp
  next
    case (snoc zs t)
    then have p: "o_prev ord = t" "t \<noteq> null" using seg notnull by simp_all
    obtain ot where ot: "heap s t = Some ot" using dll_dom [OF seg(1)] snoc by fastforce
    obtain s1 where s1: "mut t (\<lambda>x. x\<lparr>o_next := o_next ord\<rparr>) s = Inr s1" "inv s1"
      "heap s1 = (heap s)(t \<mapsto> ot\<lparr>o_next := o_next ord\<rparr>)"
      using mut_ok [OF assms(1) ot] by blast
    have "dll (heap s1) null xs (o_next ord)"
      unfolding s1(3) snoc by (rule dll_set_next [OF seg(1) [unfolded snoc] _ ot]) (use assms(3) snoc in simp)
    moreover have "dll (heap s1) i ys null"
      using seg(4) dll_cong [of ys "heap s1" "heap s"] assms(3) s1(3) snoc by auto
    moreover have "relinked (set xs \<union> set ys) (heap s) (heap s1)"
      unfolding s1(3) by (rule relinked_step [where h' = "heap s", OF relinked_refl ot, where p = "o_prev ot" and n = "o_next ord"])
        (simp_all add: snoc)
    ultimately show ?thesis using s1 p by auto
  qed
  then obtain s1 where s1: "(if o_prev ord \<noteq> null then mut (o_prev ord) (\<lambda>x. x\<lparr>o_next := o_next ord\<rparr>) s
       else Inr s) = Inr s1"
    "inv s1" "dll (heap s1) null xs (o_next ord)" "dll (heap s1) i ys null"
    "relinked (set xs \<union> set ys) (heap s) (heap s1)" by blast
  show ?thesis
  proof (cases ys)
    case Nil
    then show ?thesis using s1 seg by auto
  next
    case (Cons t zs)
    then have n: "o_next ord = t" "t \<noteq> null" using seg notnull by simp_all
    obtain ot where ot: "heap s1 t = Some ot" using dll_dom [OF s1(4)] Cons by fastforce
    obtain s2 where s2: "mut t (\<lambda>x. x\<lparr>o_prev := o_prev ord\<rparr>) s1 = Inr s2" "inv s2"
      "heap s2 = (heap s1)(t \<mapsto> ot\<lparr>o_prev := o_prev ord\<rparr>)"
      using mut_ok [OF s1(2) ot] by blast
    have "dll (heap s2) (o_prev ord) ys null"
      unfolding s2(3) Cons by (rule dll_set_prev [OF s1(4) [unfolded Cons] _ ot]) (use assms(3) Cons in simp)
    moreover have "dll (heap s2) null xs t"
      using s1(3) n dll_cong [of xs "heap s2" "heap s1"] assms(3) s2(3) Cons by auto
    moreover have "relinked (set xs \<union> set ys) (heap s) (heap s2)"
      unfolding s2(3) by (rule relinked_step [where h' = "heap s1", OF s1(5) ot, where p = "o_prev ord" and n = "o_next ot"])
        (simp_all add: Cons)
    ultimately show ?thesis using s1(1) s2 n seg(2,3) Cons by (auto simp: dll_append)
  qed
qed

end

subsection \<open>The arena is such a store\<close>

interpretation slots: order_store arena_inv heap_of arena_get_mut ARENA_NULL
proof
  show "\<exists>s'. arena_get_mut i upd s = Inr s' \<and> arena_inv s' \<and> heap_of s' = (heap_of s)(i \<mapsto> upd ord)"
    if "arena_inv s" "heap_of s i = Some ord" for s i upd ord
    using arena_get_mut_spec [OF that, of upd] by metis
  show "heap_of s ARENA_NULL = None" if "arena_inv s" for s
  proof (rule ccontr)
    assume "heap_of s ARENA_NULL \<noteq> None"
    then obtain ord where "heap_of s ARENA_NULL = Some ord" by auto
    then have "ARENA_NULL < a_capacity s" by (rule heap_of_Some_less [OF that])
    from arena_slot(5) [OF that this] show False by (simp add: ARENA_NULL_def)
  qed
qed

text \<open>A level whose head and tail are the ends of a list.\<close>

definition ends_ok :: "price_level \<Rightarrow> arena_index list \<Rightarrow> bool" where
  "ends_ok l q \<longleftrightarrow> head l = (if q = [] then None else Some (hd q)) \<and>
     tail l = (if q = [] then None else Some (last q))"

lemma link_at_tail_spec:
  assumes "arena_inv ar" "dll (heap_of ar) ARENA_NULL q ARENA_NULL" "distinct q" "i \<notin> set q"
    "heap_of ar i = Some new" "ends_ok l q"
  shows "\<exists>ar'. link_at_tail i l ar = Inr (Some (hd (q @ [i])), ar') \<and> arena_inv ar' \<and>
    dll (heap_of ar') ARENA_NULL (q @ [i]) ARENA_NULL \<and> relinked (insert i (set q)) (heap_of ar) (heap_of ar')"
proof -
  have tl_case: "(case tail l of None \<Rightarrow> ARENA_NULL | Some t \<Rightarrow> t) = (if q = [] then ARENA_NULL else last q)"
    using assms(6) by (simp add: ends_ok_def)
  show ?thesis
    using slots.append_node [OF assms(1-5)] assms(6) unfolding link_at_tail_def tl_case
    by (cases "q = []") (auto simp: ends_ok_def elim!: rbind_InrE)
qed

lemma unlink_spec:
  assumes "arena_inv ar" "dll (heap_of ar) ARENA_NULL (xs @ i # ys) ARENA_NULL" "distinct (xs @ i # ys)"
    "heap_of ar i = Some ord" "ends_ok l (xs @ i # ys)"
  shows "\<exists>l' ar'. unlink ord l ar = Inr (l', ar') \<and> arena_inv ar' \<and>
    dll (heap_of ar') ARENA_NULL (xs @ ys) ARENA_NULL \<and> relinked (set xs \<union> set ys) (heap_of ar) (heap_of ar') \<and>
    ends_ok l' (xs @ ys) \<and> total_quantity l' = total_quantity l \<and> order_count l' = order_count l"
proof -
  note rn = slots.remove_node [OF assms(1-4)]
  have notnull: "j \<noteq> ARENA_NULL" if "j \<in> set xs \<union> set ys" for j
    using that dll_dom [OF assms(2), of j] slots.null_free [OF assms(1)] by auto
  have prev: "o_prev ord = (if xs = [] then ARENA_NULL else last xs)"
    and nxt: "o_next ord = (if ys = [] then ARENA_NULL else hd ys)" using rn by blast+
  have pn: "o_prev ord \<noteq> ARENA_NULL \<longleftrightarrow> xs \<noteq> []" "o_next ord \<noteq> ARENA_NULL \<longleftrightarrow> ys \<noteq> []"
    using prev nxt notnull by (cases "xs = []"; cases "ys = []"; simp)+
  show ?thesis
    using rn assms(5) unfolding unlink_def pn
    by (cases "xs = []"; cases "ys = []") (auto simp: ends_ok_def prev nxt elim!: rbind_InrE)
qed

end
