(* ===== verification/Mx_Side_View.thy ===== *)
theory Mx_Side_View
  imports Mx_Links
begin

text \<open>
  One side of the book. The code keeps each structure twice, for bids and asks, and selects by
  the side; here the structures of one side are a record of their own, with what each operation
  of the book does to it. The window (\<open>base\<close>, \<open>n\<close> ticks) is common to both sides.
\<close>

record side_view =
  v_dense :: "price_level list"
  v_sparse :: "price_level btree"
  v_tree :: fenwick
  v_best :: "nat option"
  v_occ :: "64 word list"
  v_sidx :: sparse_index

fun view :: "side \<Rightarrow> order_book \<Rightarrow> side_view" where
  "view Bid b = \<lparr>v_dense = bids_dense b, v_sparse = bids_sparse b, v_tree = bid_depth_index b,
     v_best = best_bid_tick b, v_occ = bids_occupied b, v_sidx = bids_sparse_index b\<rparr>"
| "view Ask b = \<lparr>v_dense = asks_dense b, v_sparse = asks_sparse b, v_tree = ask_depth_index b,
     v_best = best_ask_tick b, v_occ = asks_occupied b, v_sidx = asks_sparse_index b\<rparr>"

fun put_view :: "side \<Rightarrow> side_view \<Rightarrow> order_book \<Rightarrow> order_book" where
  "put_view Bid v b = b\<lparr>bids_dense := v_dense v, bids_sparse := v_sparse v, bid_depth_index := v_tree v,
     best_bid_tick := v_best v, bids_occupied := v_occ v, bids_sparse_index := v_sidx v\<rparr>"
| "put_view Ask v b = b\<lparr>asks_dense := v_dense v, asks_sparse := v_sparse v, ask_depth_index := v_tree v,
     best_ask_tick := v_best v, asks_occupied := v_occ v, asks_sparse_index := v_sidx v\<rparr>"

lemma view_put [simp]:
  "view s (put_view s' v b) = (if s = s' then v else view s b)"
  by (cases s; cases s') simp_all

lemma put_view_view [simp]: "put_view s (view s b) b = b"
  by (cases s) simp_all

lemma put_view_put [simp]: "put_view s v (put_view s w b) = put_view s v b"
  by (cases s) simp_all

lemma put_view_common [simp]:
  "dense_base_price (put_view s v b) = dense_base_price b"
  "dense_max_ticks (put_view s v b) = dense_max_ticks b"
  "order_index (put_view s v b) = order_index b"
  "instrument_id (put_view s v b) = instrument_id b"
  by (cases s; simp)+

lemma view_order_index [simp]: "view s (b\<lparr>order_index := m\<rparr>) = view s b"
  by (cases s) simp_all

lemma put_view_order_index: "put_view s v (b\<lparr>order_index := m\<rparr>) = (put_view s v b)\<lparr>order_index := m\<rparr>"
  by (cases s) simp_all

subsection \<open>The window\<close>

definition tick_of :: "nat \<Rightarrow> nat \<Rightarrow> nat \<Rightarrow> nat option" where
  "tick_of base n price = (if base \<le> price \<and> price - base < n then Some (price - base) else None)"

lemma tick_of_Some: "tick_of base n p = Some i \<longleftrightarrow> i < n \<and> p = base + i"
  by (auto simp: tick_of_def)

lemma tick_of_None: "tick_of base n p = None \<longleftrightarrow> (\<forall>i < n. p \<noteq> base + i)"
  by (auto simp: tick_of_def)

lemma tick_of_add [simp]: "i < n \<Longrightarrow> tick_of base n (base + i) = Some i"
  by (simp add: tick_of_Some)

lemma dense_index_tick: "dense_index b p = tick_of (dense_base_price b) (dense_max_ticks b) p"
  by (auto simp: dense_index_def tick_of_def Let_def)

subsection \<open>The level at a price\<close>

definition vlevel :: "nat \<Rightarrow> nat \<Rightarrow> side_view \<Rightarrow> nat \<Rightarrow> price_level" where
  "vlevel base n v p =
     (case tick_of base n p of Some i \<Rightarrow> v_dense v ! i
      | None \<Rightarrow> (case bt_get (v_sparse v) p of None \<Rightarrow> EMPTY | Some l \<Rightarrow> l))"

lemma vlevel_frame [simp]:
  "vlevel base n (v\<lparr>v_tree := t\<rparr>) = vlevel base n v" "vlevel base n (v\<lparr>v_best := o1\<rparr>) = vlevel base n v"
  "vlevel base n (v\<lparr>v_occ := ws\<rparr>) = vlevel base n v" "vlevel base n (v\<lparr>v_sidx := x\<rparr>) = vlevel base n v"
  by (simp_all add: vlevel_def fun_eq_iff cong: option.case_cong)

definition vput :: "nat \<Rightarrow> nat \<Rightarrow> nat \<Rightarrow> price_level \<Rightarrow> side_view \<Rightarrow> side_view" where
  "vput base n p l v =
     (case tick_of base n p of Some i \<Rightarrow> v\<lparr>v_dense := (v_dense v)[i := l]\<rparr>
      | None \<Rightarrow> v\<lparr>v_sparse := bt_insert p l (v_sparse v)\<rparr>)"

definition vshape :: "nat \<Rightarrow> nat \<Rightarrow> side_view \<Rightarrow> bool" where
  "vshape base n v \<longleftrightarrow> length (v_dense v) = n \<and> bt_inv (v_sparse v) \<and> n \<le> 64 * length (v_occ v) \<and>
     (\<forall>p. bt_get (v_sparse v) p \<noteq> None \<longrightarrow> tick_of base n p = None)"

lemma vput_frame [simp]:
  "v_tree (vput base n p l v) = v_tree v" "v_best (vput base n p l v) = v_best v"
  "v_occ (vput base n p l v) = v_occ v" "v_sidx (vput base n p l v) = v_sidx v"
  by (simp_all add: vput_def split: option.splits)

lemma vput_shape: "vshape base n v \<Longrightarrow> vshape base n (vput base n p l v)"
  by (auto simp: vshape_def vput_def bt.get_ins bt.inv_ins split: option.splits if_splits)

lemma vlevel_vput: "vshape base n v \<Longrightarrow> vlevel base n (vput base n p l v) p' = (if p' = p then l else vlevel base n v p')"
  by (auto simp: vshape_def vput_def vlevel_def bt.get_ins tick_of_Some nth_list_update split: option.splits)

lemma sparse_vput:
  "vshape base n v \<Longrightarrow> bt_get (v_sparse (vput base n p l v)) p' =
     (if p' = p \<and> tick_of base n p = None then Some l else bt_get (v_sparse v) p')"
  by (auto simp: vshape_def vput_def bt.get_ins split: option.splits)

lemma bt_insert_twice: "bt_insert k v (bt_insert k w m) = bt_insert k v m"
  by (induction k w m rule: bt_insert.induct) auto

text \<open>Reading a level through a mutable reference and writing it back.\<close>

lemma put_dense_view: "put_dense s ls b = put_view s ((view s b)\<lparr>v_dense := ls\<rparr>) b"
  by (cases s) simp_all

lemma put_sparse_view: "put_sparse s m b = put_view s ((view s b)\<lparr>v_sparse := m\<rparr>) b"
  by (cases s) simp_all

lemma levels_view: "dense_levels s b = v_dense (view s b)" "sparse_levels s b = v_sparse (view s b)"
  by (cases s; simp)+

lemma level_mut_spec:
  assumes "vshape (dense_base_price b) (dense_max_ticks b) (view s b)"
  shows "\<exists>b1. level_mut s p b = Inr (vlevel (dense_base_price b) (dense_max_ticks b) (view s b) p, b1) \<and>
    (\<forall>l. level_store s p l b1 =
       Inr (put_view s (vput (dense_base_price b) (dense_max_ticks b) p l (view s b)) b))"
proof (cases "tick_of (dense_base_price b) (dense_max_ticks b) p")
  case (Some i)
  then have "i < length (v_dense (view s b))" using assms by (simp add: vshape_def tick_of_Some)
  then show ?thesis using Some
    by (simp add: level_mut_def level_store_def dense_index_tick levels_view vlevel_def vput_def put_dense_view)
next
  case None
  show ?thesis
  proof (cases "bt_get (v_sparse (view s b)) p")
    case (Some l)
    then show ?thesis using None
      by (simp add: level_mut_def level_store_def dense_index_tick levels_view vlevel_def vput_def put_sparse_view)
  next
    case none: None
    then show ?thesis using None
      by (simp add: level_mut_def level_store_def dense_index_tick levels_view vlevel_def vput_def
          put_sparse_view bt_insert_twice)
  qed
qed

lemma get_level_qty_spec:
  assumes "vshape (dense_base_price b) (dense_max_ticks b) (view s b)"
  shows "get_level_qty s p b = Inr (total_quantity (vlevel (dense_base_price b) (dense_max_ticks b) (view s b) p))"
  using assms by (auto simp: get_level_qty_def dense_index_tick levels_view vlevel_def vshape_def tick_of_Some
      split: option.splits)

lemma book_level_is_empty_spec:
  assumes "vshape (dense_base_price b) (dense_max_ticks b) (view s b)"
  shows "book_level_is_empty s p b = Inr (level_empty (vlevel (dense_base_price b) (dense_max_ticks b) (view s b) p))"
  using assms by (auto simp: book_level_is_empty_def dense_index_tick levels_view vlevel_def vshape_def tick_of_Some
      split: option.splits)

subsection \<open>The depth at a price\<close>

text \<open>
  The two depth indices of a side together stand for a map from prices to quantities: every tick
  of the window has one, and some prices outside it.
\<close>

definition depth_rel :: "nat \<Rightarrow> nat \<Rightarrow> side_view \<Rightarrow> (nat \<rightharpoonup> nat) \<Rightarrow> bool" where
  "depth_rel base n v D \<longleftrightarrow>
     (\<exists>A. length A = n \<and> fenwick_rel (v_tree v) A \<and> (\<forall>i < n. D (base + i) = Some (A ! i))) \<and>
     sparse_inv (v_sidx v) \<and>
     (\<forall>p. tick_of base n p = None \<longrightarrow> D p = sparse_map (v_sidx v) p) \<and>
     (\<forall>p. tick_of base n p \<noteq> None \<longrightarrow> sparse_map (v_sidx v) p = None)"

definition same_but_depth :: "side_view \<Rightarrow> side_view \<Rightarrow> bool" where
  "same_but_depth v v' \<longleftrightarrow> (\<exists>t x. v' = v\<lparr>v_tree := t, v_sidx := x\<rparr>)"

lemma same_but_depthD:
  assumes "same_but_depth v v'"
  shows "v_dense v' = v_dense v" "v_sparse v' = v_sparse v" "v_best v' = v_best v" "v_occ v' = v_occ v"
    "vlevel base n v' = vlevel base n v" "vshape base n v' = vshape base n v"
  using assms by (auto simp: same_but_depth_def vlevel_def vshape_def fun_eq_iff split: option.splits)

lemma depth_add_spec:
  assumes "depth_rel (dense_base_price b) (dense_max_ticks b) (view s b) D"
  shows "yields (depth_add s p q b) (\<lambda>b'. \<exists>v'. b' = put_view s v' b \<and> same_but_depth (view s b) v' \<and>
    depth_rel (dense_base_price b) (dense_max_ticks b) v' (D(p \<mapsto> plus_opt (D p) q)))"
proof -
  let ?base = "dense_base_price b" and ?n = "dense_max_ticks b" and ?v = "view s b"
  obtain A where A: "length A = ?n" "fenwick_rel (v_tree ?v) A" "\<forall>i < ?n. D (?base + i) = Some (A ! i)"
    and sp: "sparse_inv (v_sidx ?v)" "\<forall>p. tick_of ?base ?n p = None \<longrightarrow> D p = sparse_map (v_sidx ?v) p"
    "\<forall>p. tick_of ?base ?n p \<noteq> None \<longrightarrow> sparse_map (v_sidx ?v) p = None"
    using assms unfolding depth_rel_def by blast
  show ?thesis
  proof (cases "tick_of ?base ?n p")
    case (Some i)
    then have i: "i < ?n" "p = ?base + i" by (simp_all add: tick_of_Some)
    have add: "depth_add s p q b = rbind (fenwick_add i q (v_tree ?v)) (\<lambda>t. Inr (put_view s (?v\<lparr>v_tree := t\<rparr>) b))"
      using Some by (cases s) (simp_all add: depth_add_def dense_index_tick)
    have y: "yields (fenwick_add i q (v_tree ?v)) (\<lambda>t. fenwick_rel t (A[i := A ! i + q]))"
      by (rule fw.add_rel [OF A(2)]) (simp add: A(1) i)
    show ?thesis unfolding add
    proof (rule yields_bind [OF y], goal_cases)
      case (1 t)
      have "(D(p \<mapsto> plus_opt (D p) q)) (?base + j) = Some (A[i := A ! i + q] ! j)" if "j < ?n" for j
        using that i A by (cases "j = i") (auto simp: plus_opt_def)
      moreover have "p' \<noteq> p" if "tick_of ?base ?n p' = None" for p' using that Some by auto
      ultimately have "depth_rel ?base ?n (?v\<lparr>v_tree := t\<rparr>) (D(p \<mapsto> plus_opt (D p) q))"
        unfolding depth_rel_def using 1 A(1) sp by (auto intro!: exI [of _ "A[i := A ! i + q]"])
      then show ?case by (auto simp: same_but_depth_def intro!: exI [of _ "?v\<lparr>v_tree := t\<rparr>"]
            exI [of _ t] exI [of _ "v_sidx ?v"])
    qed
  next
    case None
    have add: "depth_add s p q b = rbind (sparse_index_add p q (v_sidx ?v)) (\<lambda>x. Inr (put_view s (?v\<lparr>v_sidx := x\<rparr>) b))"
      using None by (cases s) (simp_all add: depth_add_def dense_index_tick)
    show ?thesis unfolding add
    proof (rule yields_bind [OF sparse_index_add_spec [OF sp(1)]], goal_cases)
      case (1 x)
      have "(D(p \<mapsto> plus_opt (D p) q)) (?base + j) = Some (A ! j)" if "j < ?n" for j
        using that None A by auto
      moreover have "(D(p \<mapsto> plus_opt (D p) q)) p' = sparse_map x p'" if "tick_of ?base ?n p' = None" for p'
        using 1 sp(2) None that by simp
      moreover have "sparse_map x p' = None" if "tick_of ?base ?n p' \<noteq> None" for p'
        using 1 sp(3) None that by auto
      ultimately have "depth_rel ?base ?n (?v\<lparr>v_sidx := x\<rparr>) (D(p \<mapsto> plus_opt (D p) q))"
        unfolding depth_rel_def using 1 A(1,2) by (auto intro!: exI [of _ A])
      then show ?case by (auto simp: same_but_depth_def intro!: exI [of _ "?v\<lparr>v_sidx := x\<rparr>"]
            exI [of _ "v_tree ?v"] exI [of _ x])
    qed
  qed
qed

text \<open>Outside the window a depth that comes to nothing is dropped.\<close>

lemma depth_remove_exact:
  assumes "depth_rel (dense_base_price b) (dense_max_ticks b) (view s b) D" "D p = Some d" "q \<le> d"
  shows "yields (depth_remove s p q b) (\<lambda>b'. \<exists>v'. b' = put_view s v' b \<and> same_but_depth (view s b) v' \<and>
    depth_rel (dense_base_price b) (dense_max_ticks b) v'
      (if tick_of (dense_base_price b) (dense_max_ticks b) p = None \<and> d = q then D(p := None) else D(p \<mapsto> d - q)))"
proof -
  let ?base = "dense_base_price b" and ?n = "dense_max_ticks b" and ?v = "view s b"
  obtain A where A: "length A = ?n" "fenwick_rel (v_tree ?v) A" "\<forall>i < ?n. D (?base + i) = Some (A ! i)"
    and sp: "sparse_inv (v_sidx ?v)" "\<forall>p. tick_of ?base ?n p = None \<longrightarrow> D p = sparse_map (v_sidx ?v) p"
    "\<forall>p. tick_of ?base ?n p \<noteq> None \<longrightarrow> sparse_map (v_sidx ?v) p = None"
    using assms(1) unfolding depth_rel_def by blast
  show ?thesis
  proof (cases "tick_of ?base ?n p")
    case (Some i)
    then have i: "i < ?n" "p = ?base + i" by (simp_all add: tick_of_Some)
    have rem: "depth_remove s p q b = rbind (fenwick_sub i q (v_tree ?v)) (\<lambda>t. Inr (put_view s (?v\<lparr>v_tree := t\<rparr>) b))"
      using Some by (cases s) (simp_all add: depth_remove_def dense_index_tick)
    have d: "A ! i = d" using A(3) i assms(2) by simp
    have y: "yields (fenwick_sub i q (v_tree ?v)) (\<lambda>t. fenwick_rel t (A[i := A ! i - q]))"
      by (rule fw.sub_yields [OF A(2)]) (simp_all add: A(1) i d assms(3))
    show ?thesis unfolding rem
    proof (rule yields_bind [OF y], goal_cases)
      case (1 t)
      have "(D(p \<mapsto> d - q)) (?base + j) = Some (A[i := A ! i - q] ! j)" if "j < ?n" for j
        using that i A d by (cases "j = i") auto
      moreover have "p' \<noteq> p" if "tick_of ?base ?n p' = None" for p' using that Some by auto
      ultimately have "depth_rel ?base ?n (?v\<lparr>v_tree := t\<rparr>) (D(p \<mapsto> d - q))"
        unfolding depth_rel_def using 1 A(1) sp by (auto intro!: exI [of _ "A[i := A ! i - q]"])
      moreover have "same_but_depth ?v (?v\<lparr>v_tree := t\<rparr>)"
        unfolding same_but_depth_def by (rule exI [of _ t], rule exI [of _ "v_sidx ?v"]) simp
      ultimately show ?case using Some by (auto intro!: exI [of _ "?v\<lparr>v_tree := t\<rparr>"])
    qed
  next
    case None
    have rem: "depth_remove s p q b = rbind (sparse_index_sub p q (v_sidx ?v)) (\<lambda>x. Inr (put_view s (?v\<lparr>v_sidx := x\<rparr>) b))"
      using None by (cases s) (simp_all add: depth_remove_def dense_index_tick)
    have d: "sparse_map (v_sidx ?v) p = Some d" using sp(2) None assms(2) by simp
    show ?thesis unfolding rem
    proof (rule yields_bind [OF sparse_index_sub_spec [OF sp(1) d assms(3)]], goal_cases)
      case (1 x)
      let ?D = "if d = q then D(p := None) else D(p \<mapsto> d - q)"
      have "?D (?base + j) = Some (A ! j)" if "j < ?n" for j
        using that None A by auto
      moreover have "?D p' = sparse_map x p'" if "tick_of ?base ?n p' = None" for p'
        using 1 sp(2) None that by simp
      moreover have "sparse_map x p' = None" if "tick_of ?base ?n p' \<noteq> None" for p'
        using 1 sp(3) None that by auto
      ultimately have "depth_rel ?base ?n (?v\<lparr>v_sidx := x\<rparr>) ?D"
        unfolding depth_rel_def using 1 A(1,2) by (auto intro!: exI [of _ A])
      moreover have "same_but_depth ?v (?v\<lparr>v_sidx := x\<rparr>)"
        unfolding same_but_depth_def by (rule exI [of _ "v_tree ?v"], rule exI [of _ x]) simp
      ultimately show ?case using None by (auto intro!: exI [of _ "?v\<lparr>v_sidx := x\<rparr>"])
    qed
  qed
qed

lemma depth_remove_spec:
  assumes "depth_rel (dense_base_price b) (dense_max_ticks b) (view s b) D" "D p = Some d" "q \<le> d"
  shows "yields (depth_remove s p q b) (\<lambda>b'. \<exists>v' D'. b' = put_view s v' b \<and> same_but_depth (view s b) v' \<and>
    depth_rel (dense_base_price b) (dense_max_ticks b) v' D' \<and>
    (\<forall>p'. p' \<noteq> p \<longrightarrow> D' p' = D p') \<and> (q < d \<longrightarrow> D' p = Some (d - q)))"
  by (rule yields_mono [OF depth_remove_exact [OF assms]])
    (fastforce split: if_splits)

end
