(* ===== verification/Mx_Book_Inv.thy ===== *)
theory Mx_Book_Inv
  imports Mx_Side_View Mx_Policy
begin

text \<open>
  The invariant of the order book together with the arena, and that inserting, reducing and
  removing orders keep it. The abstract book is a queue of arena slots for every side and price,
  \<open>Q s p\<close>; \<open>book_rel b ar Q\<close> relates it to the concrete structures: the level at
  the price (count, total, head, tail), the links of the orders, the occupancy bitset, the best
  price, the two depth indices and the index from order ids to slots.
\<close>

subsection \<open>Orders without their links\<close>

definition core :: "order \<Rightarrow> order" where
  "core ord = ord\<lparr>o_prev := 0, o_next := 0\<rparr>"

definition core_heap :: "(arena_index \<rightharpoonup> order) \<Rightarrow> arena_index \<rightharpoonup> order" where
  "core_heap h i = map_option core (h i)"

lemma core_links [simp]: "core (ord\<lparr>o_prev := p\<rparr>) = core ord" "core (ord\<lparr>o_next := n\<rparr>) = core ord"
  by (simp_all add: core_def)

lemma core_sel [simp]:
  "o_id (core ord) = o_id ord" "o_price (core ord) = o_price ord" "o_side (core ord) = o_side ord"
  "o_quantity (core ord) = o_quantity ord" "o_filled (core ord) = o_filled ord"
  "o_stp_group (core ord) = o_stp_group ord" "remaining (core ord) = remaining ord"
  "matchable_qty (core ord) = matchable_qty ord"
  by (simp_all add: core_def remaining_def matchable_qty_def)

lemma core_eqD:
  assumes "core a = core b"
  shows "o_id a = o_id b" "o_price a = o_price b" "o_side a = o_side b" "remaining a = remaining b"
    "o_quantity a = o_quantity b" "o_filled a = o_filled b" "o_stp_group a = o_stp_group b"
    "matchable_qty a = matchable_qty b"
  using assms by (metis core_sel)+

lemma relinked_core: "relinked S h h' \<Longrightarrow> core_heap h' = core_heap h"
proof (rule ext)
  fix i assume r: "relinked S h h'"
  show "core_heap h' i = core_heap h i"
  proof (cases "h i")
    case None
    then show ?thesis using relinkedD(2) [OF r] by (simp add: core_heap_def)
  next
    case (Some a)
    then show ?thesis using relinkedD(3) [OF r Some] by (auto simp: core_heap_def)
  qed
qed

lemma core_heap_upd: "core_heap (h(i \<mapsto> ord)) = (core_heap h)(i \<mapsto> core ord)"
  by (auto simp: core_heap_def fun_eq_iff)

lemma core_heap_del: "core_heap (h(i := None)) = (core_heap h)(i := None)"
  by (auto simp: core_heap_def fun_eq_iff)

lemma core_heap_Some: "core_heap h i = Some c \<longleftrightarrow> (\<exists>ord. h i = Some ord \<and> c = core ord)"
  by (auto simp: core_heap_def)

lemma core_heap_None: "core_heap h i = None \<longleftrightarrow> h i = None"
  by (simp add: core_heap_def)

definition rem_at :: "(arena_index \<rightharpoonup> order) \<Rightarrow> arena_index \<Rightarrow> nat" where
  "rem_at h i = (case h i of None \<Rightarrow> 0 | Some ord \<Rightarrow> remaining ord)"

definition sum_rem :: "(arena_index \<rightharpoonup> order) \<Rightarrow> arena_index list \<Rightarrow> nat" where
  "sum_rem h q = sum_list (map (rem_at h) q)"

lemma sum_rem_simps [simp]:
  "sum_rem h [] = 0" "sum_rem h (i # q) = rem_at h i + sum_rem h q"
  "sum_rem h (xs @ ys) = sum_rem h xs + sum_rem h ys"
  by (simp_all add: sum_rem_def)

lemma rem_at_core: "core_heap h' i = core_heap h i \<Longrightarrow> rem_at h' i = rem_at h i"
  by (cases "h i"; cases "h' i") (auto simp: core_heap_def rem_at_def dest: core_eqD)

lemma sum_rem_core: "(\<And>i. i \<in> set q \<Longrightarrow> core_heap h' i = core_heap h i) \<Longrightarrow> sum_rem h' q = sum_rem h q"
  unfolding sum_rem_def by (rule arg_cong [where f = sum_list]) (auto intro: rem_at_core)

lemma rem_at_le_sum: "i \<in> set q \<Longrightarrow> rem_at h i \<le> sum_rem h q"
  by (induction q) auto

subsection \<open>The invariant of one side\<close>

definition queue_ok ::
  "(arena_index \<rightharpoonup> order) \<Rightarrow> side \<Rightarrow> nat \<Rightarrow> price_level \<Rightarrow> arena_index list \<Rightarrow> bool" where
  "queue_ok h s p l q \<longleftrightarrow>
     distinct q \<and> dll h ARENA_NULL q ARENA_NULL \<and> ends_ok l q \<and>
     order_count l = length q \<and> total_quantity l = sum_rem h q \<and>
     (\<forall>i \<in> set q. \<exists>ord. h i = Some ord \<and> o_side ord = s \<and> o_price ord = p)"

definition depth_ok :: "(nat \<rightharpoonup> nat) \<Rightarrow> (arena_index \<rightharpoonup> order) \<Rightarrow> nat \<Rightarrow> arena_index list \<Rightarrow> bool" where
  "depth_ok D h p q \<longleftrightarrow> q = [] \<or> (\<exists>d. D p = Some d \<and> 0 < d \<and> sum_rem h q \<le> d)"

definition occ_ok :: "nat \<Rightarrow> nat \<Rightarrow> side_view \<Rightarrow> (nat \<Rightarrow> arena_index list) \<Rightarrow> bool" where
  "occ_ok base n v q \<longleftrightarrow> (\<forall>i. occ (v_occ v) i \<longleftrightarrow> i < n \<and> q (base + i) \<noteq> [])"

definition best_ok :: "nat \<Rightarrow> nat \<Rightarrow> side \<Rightarrow> side_view \<Rightarrow> (nat \<Rightarrow> arena_index list) \<Rightarrow> bool" where
  "best_ok base n s v q \<longleftrightarrow>
     (case v_best v of
        None \<Rightarrow> \<forall>p. q p = []
      | Some bp \<Rightarrow> q bp \<noteq> [] \<and> (\<forall>i < n. q (base + i) \<noteq> [] \<longrightarrow> better s bp (base + i)))"

definition sparse_ok :: "side_view \<Rightarrow> (nat \<Rightarrow> arena_index list) \<Rightarrow> bool" where
  "sparse_ok v q \<longleftrightarrow> (\<forall>p. bt_get (v_sparse v) p \<noteq> None \<longrightarrow> q p \<noteq> [])"

definition side_rel ::
  "nat \<Rightarrow> nat \<Rightarrow> side \<Rightarrow> side_view \<Rightarrow> (arena_index \<rightharpoonup> order) \<Rightarrow> (nat \<Rightarrow> arena_index list) \<Rightarrow> bool" where
  "side_rel base n s v h q \<longleftrightarrow>
     vshape base n v \<and> sparse_ok v q \<and> (\<forall>p. queue_ok h s p (vlevel base n v p) (q p)) \<and>
     occ_ok base n v q \<and> best_ok base n s v q \<and>
     (\<exists>D. depth_rel base n v D \<and> (\<forall>p. depth_ok D h p (q p)))"

lemma queue_ok_cong:
  assumes "\<And>i. i \<in> set q \<Longrightarrow> h' i = h i"
  shows "queue_ok h' s p l q \<longleftrightarrow> queue_ok h s p l q"
proof -
  have "sum_rem h' q = sum_rem h q" by (rule sum_rem_core) (simp add: core_heap_def assms)
  then show ?thesis using dll_cong [OF assms] assms by (simp add: queue_ok_def)
qed

lemma side_relD:
  assumes "side_rel base n s v h q"
  shows "vshape base n v" "sparse_ok v q" "queue_ok h s p (vlevel base n v p) (q p)"
    "occ_ok base n v q" "best_ok base n s v q"
    "\<exists>D. depth_rel base n v D \<and> (\<forall>p. depth_ok D h p (q p))"
  using assms by (simp_all add: side_rel_def)

lemma side_rel_frame:
  assumes "side_rel base n s v h q" "\<And>p i. i \<in> set (q p) \<Longrightarrow> h' i = h i"
  shows "side_rel base n s v h' q"
proof -
  have "queue_ok h' s p l (q p) \<longleftrightarrow> queue_ok h s p l (q p)" for p l
    using assms(2) by (rule queue_ok_cong)
  moreover have "sum_rem h' (q p) = sum_rem h (q p)" for p
    by (rule sum_rem_core) (simp add: core_heap_def assms(2))
  ultimately show ?thesis using assms(1) by (simp add: side_rel_def depth_ok_def)
qed

text \<open>A change at one price.\<close>

lemma side_rel_change:
  assumes old: "side_rel base n s v h q"
    and shape: "vshape base n v'"
    and level: "\<And>p'. p' \<noteq> p \<Longrightarrow> vlevel base n v' p' = vlevel base n v p'"
    and sparse: "\<And>p'. bt_get (v_sparse v') p' \<noteq> None \<Longrightarrow> (if p' = p then q' \<noteq> [] else bt_get (v_sparse v) p' \<noteq> None)"
    and occupied: "occ_ok base n v' (q(p := q'))"
    and best: "best_ok base n s v' (q(p := q'))"
    and depth: "depth_rel base n v D" "\<And>p. depth_ok D h p (q p)" "depth_rel base n v' D'"
      "\<And>p'. p' \<noteq> p \<Longrightarrow> D' p' = D p'" "depth_ok D' h' p q'"
    and queue: "queue_ok h' s p (vlevel base n v' p) q'"
    and frame: "\<And>p' i. p' \<noteq> p \<Longrightarrow> i \<in> set (q p') \<Longrightarrow> h' i = h i"
  shows "side_rel base n s v' h' (q(p := q'))"
proof -
  have "queue_ok h' s p' (vlevel base n v' p') ((q(p := q')) p')" for p'
  proof (cases "p' = p")
    case False
    then show ?thesis using side_relD(3) [OF old, of p'] queue_ok_cong [of "q p'" h' h] frame level by simp
  qed (use queue in simp)
  moreover have "depth_ok D' h' p' ((q(p := q')) p')" for p'
  proof (cases "p' = p")
    case False
    then have "sum_rem h' (q p') = sum_rem h (q p')"
      by (intro sum_rem_core) (simp add: core_heap_def frame)
    then show ?thesis using depth(2) [of p'] depth(4) False by (simp add: depth_ok_def)
  qed (use depth(5) in simp)
  moreover have "sparse_ok v' (q(p := q'))"
    using sparse side_relD(2) [OF old] unfolding sparse_ok_def by (metis fun_upd_apply)
  ultimately show ?thesis using shape occupied best depth(3) unfolding side_rel_def by blast
qed

subsection \<open>The invariant of the book\<close>

type_synonym queues = "side \<Rightarrow> nat \<Rightarrow> arena_index list"

definition book_rel :: "order_book \<Rightarrow> arena \<Rightarrow> queues \<Rightarrow> bool" where
  "book_rel b ar Q \<longleftrightarrow>
     arena_inv ar \<and>
     (\<forall>s. side_rel (dense_base_price b) (dense_max_ticks b) s (view s b) (heap_of ar) (Q s)) \<and>
     (\<forall>i ord. heap_of ar i = Some ord \<longrightarrow> i \<in> set (Q (o_side ord) (o_price ord))) \<and>
     (\<forall>oid i. order_index b oid = Some i \<longleftrightarrow> (\<exists>ord. heap_of ar i = Some ord \<and> o_id ord = oid)) \<and>
     (\<forall>i ord. heap_of ar i = Some ord \<longrightarrow> is_valid_state ord)"

lemma book_relD:
  assumes "book_rel b ar Q"
  shows "arena_inv ar"
    "side_rel (dense_base_price b) (dense_max_ticks b) s (view s b) (heap_of ar) (Q s)"
    "heap_of ar i = Some ord \<Longrightarrow> i \<in> set (Q (o_side ord) (o_price ord))"
    "order_index b oid = Some i \<longleftrightarrow> (\<exists>ord. heap_of ar i = Some ord \<and> o_id ord = oid)"
    "heap_of ar i = Some ord \<Longrightarrow> is_valid_state ord"
  using assms unfolding book_rel_def by blast+

lemma book_rel_slot:
  assumes "book_rel b ar Q" "i \<in> set (Q s p)"
  shows "\<exists>ord. heap_of ar i = Some ord \<and> o_side ord = s \<and> o_price ord = p"
  using side_relD(3) [OF book_relD(2) [OF assms(1)], of s p] assms(2) unfolding queue_ok_def by blast

lemma book_rel_disjoint:
  assumes "book_rel b ar Q" "i \<in> set (Q s p)" "i \<in> set (Q s' p')"
  shows "s' = s \<and> p' = p"
  using book_rel_slot [OF assms(1,2)] book_rel_slot [OF assms(1,3)] by auto

abbreviation upd_queue :: "queues \<Rightarrow> side \<Rightarrow> nat \<Rightarrow> arena_index list \<Rightarrow> queues" where
  "upd_queue Q s p q \<equiv> Q(s := (Q s)(p := q))"

lemma book_rel_change:
  assumes old: "book_rel b ar Q"
    and common: "dense_base_price b' = dense_base_price b" "dense_max_ticks b' = dense_max_ticks b"
      "view (opposite s) b' = view (opposite s) b"
    and side: "side_rel (dense_base_price b) (dense_max_ticks b) s (view s b') (heap_of ar') ((Q s)(p := q'))"
    and inv: "arena_inv ar'"
    and frame: "\<And>p j. j \<in> set (Q (opposite s) p) \<Longrightarrow> heap_of ar' j = heap_of ar j"
    and cover: "\<And>i ord. heap_of ar' i = Some ord \<Longrightarrow> i \<in> set (upd_queue Q s p q' (o_side ord) (o_price ord))"
    and index: "\<And>oid i. order_index b' oid = Some i \<longleftrightarrow> (\<exists>ord. heap_of ar' i = Some ord \<and> o_id ord = oid)"
    and valid: "\<And>i ord. heap_of ar' i = Some ord \<Longrightarrow> is_valid_state ord"
  shows "book_rel b' ar' (upd_queue Q s p q')"
proof -
  have "side_rel (dense_base_price b) (dense_max_ticks b) s' (view s' b') (heap_of ar') (upd_queue Q s p q' s')" for s'
  proof (cases "s' = s")
    case False
    then have "s' = opposite s" by (cases s; cases s') simp_all
    moreover have "side_rel (dense_base_price b) (dense_max_ticks b) (opposite s) (view (opposite s) b) (heap_of ar') (Q (opposite s))"
      using book_relD(2) [OF old] frame by (rule side_rel_frame)
    ultimately show ?thesis using common(3) by simp
  qed (use side in simp)
  then show ?thesis unfolding book_rel_def common(1,2) using inv cover index valid by blast
qed

subsection \<open>The operations on one side\<close>

lemma set_occupied_view:
  "set_occupied s i b = rbind (bitset_set i (v_occ (view s b))) (\<lambda>ws. Inr (put_view s ((view s b)\<lparr>v_occ := ws\<rparr>) b))"
  by (cases s) simp_all

lemma clear_occupied_view:
  "clear_occupied s i b = rbind (bitset_clear i (v_occ (view s b))) (\<lambda>ws. Inr (put_view s ((view s b)\<lparr>v_occ := ws\<rparr>) b))"
  by (cases s) simp_all

definition improved :: "side \<Rightarrow> nat \<Rightarrow> nat option \<Rightarrow> nat option" where
  "improved s p best = (case best of None \<Rightarrow> Some p | Some bp \<Rightarrow> if better s bp p then Some bp else Some p)"

lemma improve_best_view:
  "improve_best s p b = put_view s ((view s b)\<lparr>v_best := improved s p (v_best (view s b))\<rparr>) b"
  by (cases s) (auto simp: improve_best_def improved_def better_def split: option.splits)

lemma better_trans: "better s a b \<Longrightarrow> better s b c \<Longrightarrow> better s a c"
  by (cases s) (simp_all add: better_def)

lemma better_total: "\<not> better s a b \<Longrightarrow> better s b a"
  by (cases s) (simp_all add: better_def)

lemma better_refl [simp]: "better s a a"
  by (cases s) (simp_all add: better_def)

lemma best_ok_improved:
  assumes "best_ok base n s v q" "v_best v' = improved s p (v_best v)" "q' \<noteq> []"
  shows "best_ok base n s v' (q(p := q'))"
proof (cases "v_best v")
  case None
  then have "v_best v' = Some p" "\<And>p. q p = []" using assms by (simp_all add: best_ok_def improved_def)
  then show ?thesis using assms(3) by (auto simp: best_ok_def)
next
  case (Some bp)
  then have bp: "q bp \<noteq> []" "\<And>i. i < n \<Longrightarrow> q (base + i) \<noteq> [] \<Longrightarrow> better s bp (base + i)"
    using assms(1) by (simp_all add: best_ok_def)
  show ?thesis
  proof (cases "better s bp p")
    case True
    then show ?thesis using Some bp assms(2,3) by (auto simp: best_ok_def improved_def)
  next
    case False
    then have "better s p (base + i)" if "i < n" "q (base + i) \<noteq> []" for i
      using bp(2) [OF that] better_trans better_total by blast
    then show ?thesis using False Some assms(2,3) by (auto simp: best_ok_def improved_def)
  qed
qed

definition next_best :: "side \<Rightarrow> nat \<Rightarrow> side_view \<Rightarrow> nat option result" where
  "next_best s base v =
     (case s of
        Bid \<Rightarrow> rbind (find_highest_occupied base (v_occ v)) (\<lambda>r. case r of
                 None \<Rightarrow> Inr (bt_last_key (v_sparse v)) | Some p \<Rightarrow> Inr (Some p))
      | Ask \<Rightarrow> rbind (find_lowest_occupied base (v_occ v)) (\<lambda>r. case r of
                 None \<Rightarrow> Inr (bt_first_key (v_sparse v)) | Some p \<Rightarrow> Inr (Some p)))"

lemma next_best_spec:
  assumes "vshape base n v" "occ_ok base n v q"
    "\<And>p. bt_get (v_sparse v) p \<noteq> None \<longleftrightarrow> tick_of base n p = None \<and> q p \<noteq> []"
  shows "yields (next_best s base v) (\<lambda>best. best_ok base n s (v\<lparr>v_best := best\<rparr>) q)"
proof -
  have inv: "bt_inv (v_sparse v)" using assms(1) by (simp add: vshape_def)
  have occ: "occ (v_occ v) i \<longleftrightarrow> i < n \<and> q (base + i) \<noteq> []" for i
    using assms(2) by (simp add: occ_ok_def)
  have none: "q p = []" if "\<forall>i. \<not> occ (v_occ v) i" "bt_get (v_sparse v) = Map.empty" for p
    using that occ assms(3) [of p] by (cases "tick_of base n p") (auto simp: tick_of_Some)
  have last: "best_ok base n s (v\<lparr>v_best := k\<rparr>) q"
    if "\<forall>i. \<not> occ (v_occ v) i" "k = bt_last_key (v_sparse v) \<or> k = bt_first_key (v_sparse v)" for k
  proof (cases k)
    case None
    then have "bt_get (v_sparse v) = Map.empty" using that(2) bt.last_None [OF inv] bt.first_None [OF inv] by auto
    then show ?thesis using none [OF that(1)] None by (simp add: best_ok_def)
  next
    case (Some p)
    then have "bt_get (v_sparse v) p \<noteq> None" using that(2) bt.last_Some [OF inv] bt.first_Some [OF inv] by metis
    then show ?thesis using Some assms(3) that(1) occ by (auto simp: best_ok_def)
  qed
  show ?thesis
  proof (cases s)
    case Bid
    show ?thesis unfolding next_best_def Bid side.case
    proof (rule yields_bind [OF find_highest_occupied_spec], goal_cases)
      case (1 r)
      then show ?case using occ last Bid by (cases r) (auto simp: best_ok_def better_def)
    qed
  next
    case Ask
    show ?thesis unfolding next_best_def Ask side.case
    proof (rule yields_bind [OF find_lowest_occupied_spec], goal_cases)
      case (1 r)
      then show ?case using occ last Ask by (cases r) (auto simp: best_ok_def better_def)
    qed
  qed
qed

lemma refresh_view:
  "refresh_best_after_level_empty s p b =
     rbind (case tick_of (dense_base_price b) (dense_max_ticks b) p of
              Some i \<Rightarrow> rbind (bitset_clear i (v_occ (view s b))) (\<lambda>ws. Inr (put_view s ((view s b)\<lparr>v_occ := ws\<rparr>) b))
            | None \<Rightarrow> Inr b) (\<lambda>b1.
       if v_best (view s b1) = Some p
       then rbind (next_best s (dense_base_price b1) (view s b1)) (\<lambda>best. Inr (put_view s ((view s b1)\<lparr>v_best := best\<rparr>) b1))
       else Inr b1)"
  by (cases s) (simp_all add: refresh_best_after_level_empty_def dense_index_tick next_best_bid_def next_best_ask_def
      find_highest_occupied_bid_def find_lowest_occupied_ask_def next_best_def cong: option.case_cong if_cong)

lemma refresh_spec:
  assumes "view s b = v" "base = dense_base_price b" "n = dense_max_ticks b"
    "vshape base n v" "occ_ok base n v q" "best_ok base n s v q"
    "\<And>p'. bt_get (v_sparse v) p' \<noteq> None \<longleftrightarrow> tick_of base n p' = None \<and> (q(p := [])) p' \<noteq> []"
  shows "yields (refresh_best_after_level_empty s p b) (\<lambda>b'. \<exists>ws best.
    b' = put_view s (v\<lparr>v_occ := ws, v_best := best\<rparr>) b \<and> length ws = length (v_occ v) \<and>
    occ_ok base n (v\<lparr>v_occ := ws, v_best := best\<rparr>) (q(p := [])) \<and>
    best_ok base n s (v\<lparr>v_occ := ws, v_best := best\<rparr>) (q(p := [])))"
proof -
  have occ: "occ (v_occ v) i \<longleftrightarrow> i < n \<and> q (base + i) \<noteq> []" for i
    using assms(5) by (simp add: occ_ok_def)
  have "\<exists>ws. (case tick_of base n p of
              Some i \<Rightarrow> rbind (bitset_clear i (v_occ v)) (\<lambda>ws. Inr (put_view s (v\<lparr>v_occ := ws\<rparr>) b))
            | None \<Rightarrow> Inr b) = Inr (put_view s (v\<lparr>v_occ := ws\<rparr>) b) \<and>
     length ws = length (v_occ v) \<and> (\<forall>i. occ ws i \<longleftrightarrow> i < n \<and> (q(p := [])) (base + i) \<noteq> [])"
  proof (cases "tick_of base n p")
    case None
    then have "base + i \<noteq> p" if "i < n" for i using that by auto
    then have "\<forall>i. occ (v_occ v) i \<longleftrightarrow> i < n \<and> (q(p := [])) (base + i) \<noteq> []" using occ by auto
    moreover have "put_view s (v\<lparr>v_occ := v_occ v\<rparr>) b = b" using assms(1) by (cases s) auto
    ultimately show ?thesis using None by (intro exI [of _ "v_occ v"]) simp
  next
    case (Some i)
    then have i: "i < n" "p = base + i" by (simp_all add: tick_of_Some)
    have "i < length (v_occ v) * 64" using i(1) assms(4) by (simp add: vshape_def)
    then have "i div 64 < length (v_occ v)" by (rule less_mult_imp_div_less)
    then obtain ws where "bitset_clear i (v_occ v) = Inr ws" "length ws = length (v_occ v)"
      "\<And>j. occ ws j \<longleftrightarrow> j \<noteq> i \<and> occ (v_occ v) j" using bitset_clear_spec by blast
    then show ?thesis using Some occ i by (intro exI [of _ ws]) auto
  qed
  then obtain ws where ws: "(case tick_of base n p of
              Some i \<Rightarrow> rbind (bitset_clear i (v_occ v)) (\<lambda>ws. Inr (put_view s (v\<lparr>v_occ := ws\<rparr>) b))
            | None \<Rightarrow> Inr b) = Inr (put_view s (v\<lparr>v_occ := ws\<rparr>) b)"
    "length ws = length (v_occ v)" "occ_ok base n (v\<lparr>v_occ := ws, v_best := best\<rparr>) (q(p := []))" for best
    by (auto simp: occ_ok_def)
  have run: "refresh_best_after_level_empty s p b = (if v_best v = Some p
       then rbind (next_best s base (v\<lparr>v_occ := ws\<rparr>)) (\<lambda>best. Inr (put_view s (v\<lparr>v_occ := ws, v_best := best\<rparr>) b))
       else Inr (put_view s (v\<lparr>v_occ := ws\<rparr>) b))"
    unfolding refresh_view assms(1) assms(2,3) [symmetric] ws(1) by (simp flip: assms(2))
  show ?thesis
  proof (cases "v_best v = Some p")
    case True
    have y: "yields (next_best s base (v\<lparr>v_occ := ws\<rparr>))
        (\<lambda>best. best_ok base n s (v\<lparr>v_occ := ws, v_best := best\<rparr>) (q(p := [])))"
      using next_best_spec [of base n "v\<lparr>v_occ := ws\<rparr>" "q(p := [])" s] assms(4,7) ws(2) ws(3) [of "v_best v"]
      by (simp add: vshape_def occ_ok_def)
    show ?thesis unfolding run if_P [OF True]
      by (rule yields_bind [OF y], unfold yields_simps, use ws(2,3) in blast)
  next
    case False
    have eq: "v\<lparr>v_occ := ws\<rparr> = v\<lparr>v_occ := ws, v_best := v_best v\<rparr>" by simp
    have "best_ok base n s (v\<lparr>v_occ := ws, v_best := v_best v\<rparr>) (q(p := []))"
      using assms(6) False by (auto simp: best_ok_def split: option.splits)
    then show ?thesis unfolding run using False ws(2,3) eq by (auto intro!: exI [of _ ws] exI [of _ "v_best v"])
  qed
qed

text \<open>An emptied sparse level is taken out of the map.\<close>

definition vprune :: "nat \<Rightarrow> nat \<Rightarrow> nat \<Rightarrow> side_view \<Rightarrow> side_view" where
  "vprune base n p v = (if tick_of base n p = None then v\<lparr>v_sparse := bt_remove p (v_sparse v)\<rparr> else v)"

lemma bt_remove_absent: "bt_get m k = None \<Longrightarrow> bt_remove k m = m"
  by (induction k m rule: bt_remove.induct) (auto simp: bt_get_def split: if_splits)

lemma prune_view:
  assumes "level_empty (vlevel (dense_base_price b) (dense_max_ticks b) (view s b) p)"
  shows "prune_if_sparse_empty s p b = put_view s (vprune (dense_base_price b) (dense_max_ticks b) p (view s b)) b"
  using assms by (auto simp: prune_if_sparse_empty_def dense_index_tick levels_view vprune_def vlevel_def
      put_sparse_view bt_remove_absent split: option.splits)

lemma vprune_frame [simp]:
  "v_dense (vprune base n p v) = v_dense v" "v_tree (vprune base n p v) = v_tree v"
  "v_best (vprune base n p v) = v_best v" "v_occ (vprune base n p v) = v_occ v"
  "v_sidx (vprune base n p v) = v_sidx v"
  by (simp_all add: vprune_def)

lemma sparse_vprune:
  "bt_inv (v_sparse v) \<Longrightarrow> bt_get (v_sparse (vprune base n p v)) p' =
     (if p' = p \<and> tick_of base n p = None then None else bt_get (v_sparse v) p')"
  by (simp add: vprune_def bt.get_del)

lemma vprune_shape: "vshape base n v \<Longrightarrow> vshape base n (vprune base n p v)"
  by (auto simp: vshape_def sparse_vprune) (simp_all add: vprune_def bt.inv_del)

lemma vlevel_vprune:
  "vshape base n v \<Longrightarrow> p' \<noteq> p \<Longrightarrow> vlevel base n (vprune base n p v) p' = vlevel base n v p'"
  by (simp add: vshape_def vlevel_def sparse_vprune split: option.splits)

subsection \<open>Insertion\<close>

lemma core_heap_eqD:
  assumes "core_heap h' = core_heap g" "h' j = Some b"
  shows "\<exists>a. g j = Some a \<and> core b = core a"
proof -
  have "core_heap g j = Some (core b)" using assms by (metis core_heap_Some)
  then show ?thesis by (auto simp: core_heap_Some)
qed

lemma index_core:
  assumes "core_heap h' = core_heap g"
  shows "(\<exists>ord. h' i = Some ord \<and> o_id ord = oid) \<longleftrightarrow> (\<exists>ord. g i = Some ord \<and> o_id ord = oid)"
proof
  assume "\<exists>ord. h' i = Some ord \<and> o_id ord = oid"
  then obtain b where b: "h' i = Some b" "o_id b = oid" by blast
  obtain a where "g i = Some a" "core b = core a" using core_heap_eqD [OF assms b(1)] by blast
  then show "\<exists>ord. g i = Some ord \<and> o_id ord = oid" using b(2) core_eqD(1) [of b a] by simp
next
  assume "\<exists>ord. g i = Some ord \<and> o_id ord = oid"
  then obtain b where b: "g i = Some b" "o_id b = oid" by blast
  obtain a where "h' i = Some a" "core b = core a" using core_heap_eqD [OF assms [symmetric] b(1)] by blast
  then show "\<exists>ord. h' i = Some ord \<and> o_id ord = oid" using b(2) core_eqD(1) [of b a] by simp
qed

lemma valid_core: "core a = core b \<Longrightarrow> is_valid_state a = is_valid_state b"
  using core_eqD [of a b] by (simp add: is_valid_state_def)

text \<open>The queue that gains a slot, over a heap changed in that queue only.\<close>

lemma queue_ok_append:
  assumes "queue_ok h s p l q" "i \<notin> set q"
    "dll h' ARENA_NULL (q @ [i]) ARENA_NULL" "relinked (insert i (set q)) (h(i \<mapsto> new)) h'"
    "o_side new = s" "o_price new = p" "remaining new = qty"
  shows "queue_ok h' s p \<lparr>total_quantity = total_quantity l + qty, order_count = order_count l + 1,
      head = Some (hd (q @ [i])), tail = Some i\<rparr> (q @ [i])"
    and "sum_rem h' (q @ [i]) = sum_rem h q + qty"
proof -
  have core: "core_heap h' = (core_heap h)(i \<mapsto> core new)"
    using relinked_core [OF assms(4)] by (simp add: core_heap_upd)
  have "sum_rem h' q = sum_rem h q" by (rule sum_rem_core) (use assms(2) core in auto)
  moreover have "rem_at h' i = qty"
  proof -
    obtain ord where "h' i = Some ord" "core ord = core new"
      using core core_heap_Some [of h' i "core new"] by auto
    then show ?thesis using assms(7) core_eqD(4) [of ord new] by (simp add: rem_at_def)
  qed
  ultimately show sum: "sum_rem h' (q @ [i]) = sum_rem h q + qty" by simp
  have "\<exists>ord. h' j = Some ord \<and> o_side ord = s \<and> o_price ord = p" if "j \<in> set (q @ [i])" for j
  proof (cases "j = i")
    case True
    then show ?thesis using relinkedD(3) [OF assms(4), of i new] assms(5,6) by auto
  next
    case False
    then have "j \<in> set q" using that by simp
    then obtain a where "h j = Some a" "o_side a = s" "o_price a = p"
      using assms(1) unfolding queue_ok_def by blast
    then show ?thesis using relinkedD(3) [OF assms(4), of j a] False by auto
  qed
  moreover have "distinct q" "order_count l = length q" "total_quantity l = sum_rem h q"
    using assms(1) by (simp_all add: queue_ok_def)
  ultimately show "queue_ok h' s p \<lparr>total_quantity = total_quantity l + qty, order_count = order_count l + 1,
      head = Some (hd (q @ [i])), tail = Some i\<rparr> (q @ [i])"
    unfolding queue_ok_def ends_ok_def using assms(2,3) sum by (intro conjI ballI) simp_all
qed

lemma occ_ok_insert:
  assumes "occ_ok base n v q" "q' \<noteq> []"
    "\<And>j. occ (v_occ v') j \<longleftrightarrow> tick_of base n p = Some j \<or> occ (v_occ v) j"
  shows "occ_ok base n v' (q(p := q'))"
  using assms unfolding occ_ok_def by (auto simp: tick_of_Some)

lemma mark_occupied:
  assumes "vshape base n (view s b)" "base = dense_base_price b" "n = dense_max_ticks b"
  shows "\<exists>ws. (case dense_index b p of Some di \<Rightarrow> set_occupied s di b | None \<Rightarrow> Inr b) =
      Inr (put_view s ((view s b)\<lparr>v_occ := ws\<rparr>) b) \<and> length ws = length (v_occ (view s b)) \<and>
      (\<forall>j. occ ws j \<longleftrightarrow> tick_of base n p = Some j \<or> occ (v_occ (view s b)) j)"
proof (cases "tick_of base n p")
  case None
  have "put_view s ((view s b)\<lparr>v_occ := v_occ (view s b)\<rparr>) b = b" by (cases s) simp_all
  then show ?thesis using None assms(2,3) by (intro exI [of _ "v_occ (view s b)"]) (simp add: dense_index_tick)
next
  case (Some i)
  then have "i < length (v_occ (view s b)) * 64" using assms(1) by (simp add: vshape_def tick_of_Some)
  then have "i div 64 < length (v_occ (view s b))" by (rule less_mult_imp_div_less)
  then obtain ws where "bitset_set i (v_occ (view s b)) = Inr ws" "length ws = length (v_occ (view s b))"
    "\<And>j. occ ws j \<longleftrightarrow> j = i \<or> occ (v_occ (view s b)) j" using bitset_set_spec by blast
  then show ?thesis using Some assms(2,3) by (intro exI [of _ ws]) (auto simp: dense_index_tick set_occupied_view)
qed

text \<open>The side after an insertion, whatever the order in which its structures change.\<close>

lemma side_rel_insert:
  assumes old: "side_rel base n s v h q" and q: "0 < qty"
    and shape: "vshape base n v'"
    and level: "\<And>p'. vlevel base n v' p' = (if p' = p then l' else vlevel base n v p')"
    and sparse: "\<And>p'. bt_get (v_sparse v') p' \<noteq> None \<Longrightarrow> p' \<noteq> p \<Longrightarrow> bt_get (v_sparse v) p' \<noteq> None"
    and occupied: "\<And>j. occ (v_occ v') j \<longleftrightarrow> tick_of base n p = Some j \<or> occ (v_occ v) j"
    and best: "v_best v' = improved s p (v_best v)"
    and depth: "depth_rel base n v D" "\<And>p. depth_ok D h p (q p)"
      "depth_rel base n v' (D(p \<mapsto> plus_opt (D p) qty))"
    and queue: "queue_ok h' s p l' (q p @ [i])"
    and sum: "sum_rem h' (q p @ [i]) = sum_rem h (q p) + qty"
    and frame: "\<And>p' j. p' \<noteq> p \<Longrightarrow> j \<in> set (q p') \<Longrightarrow> h' j = h j"
  shows "side_rel base n s v' h' (q(p := q p @ [i]))"
proof (rule side_rel_change [OF old shape _ _ _ _ depth(1,2,3)])
  show "depth_ok (D(p \<mapsto> plus_opt (D p) qty)) h' p (q p @ [i])"
  proof -
    have "sum_rem h (q p) + qty \<le> plus_opt (D p) qty"
      using depth(2) [of p] by (auto simp: depth_ok_def plus_opt_def split: option.splits)
    then show ?thesis using q sum by (simp add: depth_ok_def plus_opt_def split: option.splits)
  qed
qed (use level sparse queue frame best_ok_improved [OF side_relD(5) [OF old] best]
      occ_ok_insert [OF side_relD(4) [OF old] _ occupied] in auto)

lemma core_new_order [simp]:
  "o_side (new_order_record oid s p qty ot vis stp) = s" "o_price (new_order_record oid s p qty ot vis stp) = p"
  "remaining (new_order_record oid s p qty ot vis stp) = qty" "o_id (new_order_record oid s p qty ot vis stp) = oid"
  "is_valid_state (new_order_record oid s p qty ot vis stp)"
  by (simp_all add: new_order_record_def remaining_def is_valid_state_def)

definition insert_post where
  "insert_post oid s p qty ot vis stp b ar Q res \<longleftrightarrow>
     (case res of
        (None, b', ar') \<Rightarrow> b' = b \<and> ar' = ar \<and> (order_index b oid \<noteq> None \<or> a_len ar = a_capacity ar)
      | (Some i, b', ar') \<Rightarrow>
          order_index b oid = None \<and> heap_of ar i = None \<and>
          book_rel b' ar' (upd_queue Q s p (Q s p @ [i])) \<and>
          core_heap (heap_of ar') =
            (core_heap (heap_of ar))(i \<mapsto> core (new_order_record oid s p qty ot vis stp)))"

lemma heap_insert_cases:
  assumes "core_heap h' = (core_heap h)(i \<mapsto> core new)" "h' j = Some ord"
  obtains "j = i" "core ord = core new"
  | a where "j \<noteq> i" "h j = Some a" "core ord = core a"
proof (cases "j = i")
  case True
  have "core_heap h' i = Some (core ord)" using assms(2) True by (simp add: core_heap_def)
  then show ?thesis using that(1) True assms(1) by simp
next
  case False
  have "core_heap h' j = Some (core ord)" using assms(2) by (simp add: core_heap_def)
  then have "core_heap h j = Some (core ord)" using False assms(1) by simp
  then show ?thesis using that(2) False by (auto simp: core_heap_Some)
qed

text \<open>The part of the invariant on the store and the index, after a slot is filled.\<close>

lemma book_rel_fill_slot:
  assumes rel: "book_rel b ar Q" and free: "heap_of ar i = None" "order_index b (o_id new) = None"
    and core: "core_heap (heap_of ar') = (core_heap (heap_of ar))(i \<mapsto> core new)"
    and valid: "is_valid_state new"
  shows "heap_of ar' j = Some ord \<Longrightarrow>
      j \<in> set (upd_queue Q (o_side new) (o_price new) (Q (o_side new) (o_price new) @ [i]) (o_side ord) (o_price ord))"
    and "((order_index b)(o_id new \<mapsto> i)) oid = Some j \<longleftrightarrow> (\<exists>ord. heap_of ar' j = Some ord \<and> o_id ord = oid)"
    and "heap_of ar' j = Some ord \<Longrightarrow> is_valid_state ord"
proof -
  show "j \<in> set (upd_queue Q (o_side new) (o_price new) (Q (o_side new) (o_price new) @ [i]) (o_side ord) (o_price ord))"
    if "heap_of ar' j = Some ord"
    using heap_insert_cases [OF core that]
  proof cases
    case 1
    then show ?thesis using core_eqD(2,3) [of ord new] by simp
  next
    case (2 a)
    then show ?thesis using book_relD(3) [OF rel, of j a] core_eqD(2,3) [of ord a] by auto
  qed
  show "is_valid_state ord" if "heap_of ar' j = Some ord"
    using heap_insert_cases [OF core that]
  proof cases
    case 1
    then show ?thesis using valid_core [of ord new] valid by simp
  next
    case (2 a)
    then show ?thesis using book_relD(5) [OF rel, of j a] valid_core [of ord a] by simp
  qed
  have "core_heap (heap_of ar') = core_heap ((heap_of ar)(i \<mapsto> new))" using core by (simp add: core_heap_upd)
  from index_core [OF this, of j oid]
  have "(\<exists>ord. heap_of ar' j = Some ord \<and> o_id ord = oid) \<longleftrightarrow>
      (\<exists>ord. ((heap_of ar)(i \<mapsto> new)) j = Some ord \<and> o_id ord = oid)" .
  also have "\<dots> \<longleftrightarrow> (if j = i then oid = o_id new else order_index b oid = Some j)"
    using book_relD(4) [OF rel, of oid j] by auto
  also have "\<dots> \<longleftrightarrow> ((order_index b)(o_id new \<mapsto> i)) oid = Some j"
    using book_relD(4) [OF rel, of oid i] free by auto
  finally show "((order_index b)(o_id new \<mapsto> i)) oid = Some j \<longleftrightarrow> (\<exists>ord. heap_of ar' j = Some ord \<and> o_id ord = oid)" ..
qed

text \<open>The last three steps of an insertion: depth, occupancy, best price.\<close>

lemma insert_finish:
  assumes rel: "book_rel b ar Q" and qty: "0 < qty" and free: "heap_of ar i = None"
    and b0: "b0 = b\<lparr>order_index := m\<rparr>" and base: "base = dense_base_price b" and n: "n = dense_max_ticks b"
    and l': "queue_ok (heap_of ar2) s p l' (Q s p @ [i])"
      "sum_rem (heap_of ar2) (Q s p @ [i]) = sum_rem (heap_of ar) (Q s p) + qty"
    and rl: "relinked (insert i (set (Q s p))) ((heap_of ar)(i \<mapsto> new)) (heap_of ar2)"
  shows "yields (rbind (depth_add s p qty (put_view s (vput base n p l' (view s b)) b0)) (\<lambda>b3.
      rbind (case dense_index b3 p of Some di \<Rightarrow> set_occupied s di b3 | None \<Rightarrow> Inr b3) (\<lambda>b4.
        Inr (Some i, improve_best s p b4, ar2))))
    (\<lambda>(r, b', ar'). r = Some i \<and> ar' = ar2 \<and>
       (\<exists>v. b' = put_view s v b0 \<and> side_rel base n s v (heap_of ar2) ((Q s)(p := Q s p @ [i]))))"
proof -
  let ?v = "view s b" and ?v2 = "vput base n p l' (view s b)"
  note side = book_relD(2) [OF rel, of s, folded base n]
  note shape = side_relD(1) [OF side]
  obtain D where D: "depth_rel base n ?v D" "\<And>p. depth_ok D (heap_of ar) p (Q s p)"
    using side_relD(6) [OF side] by blast
  have notin: "i \<notin> set (Q s' p')" for s' p' using book_rel_slot [OF rel] free by fastforce
  have "depth_rel base n ?v2 D" using D(1) by (simp add: depth_rel_def)
  then have y: "yields (depth_add s p qty (put_view s ?v2 b0)) (\<lambda>b'. \<exists>v'. b' = put_view s v' (put_view s ?v2 b0) \<and>
      same_but_depth ?v2 v' \<and> depth_rel base n v' (D(p \<mapsto> plus_opt (D p) qty)))"
    using depth_add_spec [of "put_view s ?v2 b0" s D p qty] by (simp add: b0 base n)
  show ?thesis
  proof (rule yields_bind [OF y])
    fix b3 assume "\<exists>v'. b3 = put_view s v' (put_view s ?v2 b0) \<and>
      same_but_depth ?v2 v' \<and> depth_rel base n v' (D(p \<mapsto> plus_opt (D p) qty))"
    then obtain v3 where v3: "b3 = put_view s v3 b0" "same_but_depth ?v2 v3"
      "depth_rel base n v3 (D(p \<mapsto> plus_opt (D p) qty))" by auto
    note same = same_but_depthD [OF v3(2)]
    have shape3: "vshape base n v3" using same(6) vput_shape [OF shape] by simp
    obtain ws where ws: "(case dense_index b3 p of Some di \<Rightarrow> set_occupied s di b3 | None \<Rightarrow> Inr b3) =
        Inr (put_view s (v3\<lparr>v_occ := ws\<rparr>) b3)" "length ws = length (v_occ v3)"
      "\<And>j. occ ws j \<longleftrightarrow> tick_of base n p = Some j \<or> occ (v_occ v3) j"
      using mark_occupied [of base n s b3 p] shape3 v3(1) by (auto simp: b0 base n)
    let ?v4 = "v3\<lparr>v_occ := ws, v_best := improved s p (v_best v3)\<rparr>"
    have lev: "vlevel base n ?v4 p' = (if p' = p then l' else vlevel base n ?v p')" for p'
      using vlevel_vput [OF shape] same(5) by simp
    have "side_rel base n s ?v4 (heap_of ar2) ((Q s)(p := Q s p @ [i]))"
    proof (rule side_rel_insert [OF side qty _ lev _ _ _ D _ l'])
      show "vshape base n ?v4" using shape3 ws(2) by (simp add: vshape_def)
      show "bt_get (v_sparse ?v) p' \<noteq> None" if "bt_get (v_sparse ?v4) p' \<noteq> None" "p' \<noteq> p" for p'
        using that same(2) sparse_vput [OF shape] by simp
      show "occ (v_occ ?v4) j \<longleftrightarrow> tick_of base n p = Some j \<or> occ (v_occ ?v) j" for j
        using ws(3) same(4) by simp
      show "v_best ?v4 = improved s p (v_best ?v)" using same(3) by simp
      show "depth_rel base n ?v4 (D(p \<mapsto> plus_opt (D p) qty))" using v3(3) by (simp add: depth_rel_def)
      show "heap_of ar2 j = heap_of ar j" if "p' \<noteq> p" "j \<in> set (Q s p')" for p' j
      proof -
        have "j \<noteq> i" using notin that(2) by metis
        moreover have "j \<notin> set (Q s p)" using book_rel_disjoint [OF rel that(2), of s p] that(1) by blast
        ultimately show ?thesis using relinkedD(1) [OF rl, of j] by simp
      qed
    qed
    then show "yields (rbind (case dense_index b3 p of
        Some di \<Rightarrow> set_occupied s di b3 | None \<Rightarrow> Inr b3) (\<lambda>b4. Inr (Some i, improve_best s p b4, ar2)))
      (\<lambda>(r, b', ar'). r = Some i \<and> ar' = ar2 \<and>
       (\<exists>v. b' = put_view s v b0 \<and> side_rel base n s v (heap_of ar2) ((Q s)(p := Q s p @ [i]))))"
      unfolding ws(1) rbind_simps by (auto simp: improve_best_view v3(1))
  qed
qed

lemma insert_order_spec:
  assumes rel: "book_rel b ar Q" and qty: "0 < qty"
  shows "yields (insert_order oid s p qty ot vis stp b ar) (insert_post oid s p qty ot vis stp b ar Q)"
proof (cases "order_index b oid")
  case (Some i)
  then show ?thesis by (simp add: insert_order_def insert_post_def)
next
  case None
  let ?base = "dense_base_price b" and ?n = "dense_max_ticks b" and ?v = "view s b"
  let ?new = "new_order_record oid s p qty ot vis stp"
  let ?q = "Q s p" and ?l = "vlevel (dense_base_price b) (dense_max_ticks b) (view s b) p"
  note shape = side_relD(1) [OF book_relD(2) [OF rel, of s]]
    and qok = side_relD(3) [OF book_relD(2) [OF rel, of s], of p]
  have absent: "(order_index b oid \<noteq> None) = False" using None by simp
  show ?thesis
    unfolding insert_order_def absent if_False
  proof (rule yields_bind [OF arena_alloc_spec [OF book_relD(1) [OF rel]]])
    fix x assume post: "alloc_post ar ?new x"
    obtain slot ar1 where x: "x = (slot, ar1)" by (cases x)
    show "yields (case x of (slot, ar1) \<Rightarrow> case slot of None \<Rightarrow> Inr (None, b, ar1)
        | Some idx \<Rightarrow>
            rbind (level_mut s p (b\<lparr>order_index := (order_index b)(oid \<mapsto> idx)\<rparr>)) (\<lambda>(level, b1).
            rbind (link_at_tail idx level ar1) (\<lambda>(hd_idx, ar2).
            rbind (add_u64 (total_quantity level) qty) (\<lambda>total.
            rbind (add_u32 (order_count level) 1) (\<lambda>n.
            rbind (level_store s p
                     \<lparr>total_quantity = total, order_count = n, head = hd_idx, tail = Some idx\<rparr> b1) (\<lambda>b2.
            rbind (depth_add s p qty b2) (\<lambda>b3.
            rbind (case dense_index b3 p of
                     Some di \<Rightarrow> set_occupied s di b3 | None \<Rightarrow> Inr b3) (\<lambda>b4.
              Inr (Some idx, improve_best s p b4, ar2)))))))))
      (insert_post oid s p qty ot vis stp b ar Q)"
    proof (cases slot)
      case none: None
      then show ?thesis using post x by (simp add: insert_post_def alloc_post_def)
    next
      case (Some i)
      then have al: "arena_inv ar1" "heap_of ar i = None" "heap_of ar1 = (heap_of ar)(i \<mapsto> ?new)"
        using post x by (simp_all add: alloc_post_def)
      let ?b0 = "b\<lparr>order_index := (order_index b)(oid \<mapsto> i)\<rparr>"
      have notin: "i \<notin> set (Q s' p')" for s' p' using book_rel_slot [OF rel] al(2) by fastforce
      obtain b1 where b1: "level_mut s p ?b0 = Inr (?l, b1)"
        "\<And>l. level_store s p l b1 = Inr (put_view s (vput ?base ?n p l ?v) ?b0)"
        using level_mut_spec [of ?b0 s p] shape by auto
      have "dll (heap_of ar1) ARENA_NULL ?q ARENA_NULL" "distinct ?q" "ends_ok ?l ?q"
        using qok al(3) notin by (simp_all add: queue_ok_def)
      from link_at_tail_spec [OF al(1) this(1,2) notin _ this(3)] al(3)
      obtain ar2 where ar2: "link_at_tail i ?l ar1 = Inr (Some (hd (?q @ [i])), ar2)" "arena_inv ar2"
        "dll (heap_of ar2) ARENA_NULL (?q @ [i]) ARENA_NULL"
        "relinked (insert i (set ?q)) ((heap_of ar)(i \<mapsto> ?new)) (heap_of ar2)" by auto
      note q' = queue_ok_append [OF qok notin ar2(3,4), of qty, simplified core_new_order, OF refl refl refl]
      have core: "core_heap (heap_of ar2) = (core_heap (heap_of ar))(i \<mapsto> core ?new)"
        using relinked_core [OF ar2(4)] by (simp add: core_heap_upd)
      note slot = book_rel_fill_slot [OF rel al(2) _ core, unfolded core_new_order(1,2,4), OF None core_new_order(5)]
      note fin = insert_finish [OF rel qty al(2) refl refl refl q' ar2(4),
          of "(order_index b)(oid \<mapsto> i)"]
      have "yields (rbind (depth_add s p qty (put_view s (vput ?base ?n p
          \<lparr>total_quantity = total_quantity ?l + qty, order_count = order_count ?l + 1,
           head = Some (hd (?q @ [i])), tail = Some i\<rparr> ?v) ?b0)) (\<lambda>b3.
            rbind (case dense_index b3 p of
                     Some di \<Rightarrow> set_occupied s di b3 | None \<Rightarrow> Inr b3) (\<lambda>b4.
              Inr (Some i, improve_best s p b4, ar2)))) (insert_post oid s p qty ot vis stp b ar Q)"
      proof (rule yields_mono [OF fin], clarify)
        fix v assume sr: "side_rel ?base ?n s v (heap_of ar2) ((Q s)(p := ?q @ [i]))"
        have "book_rel (put_view s v ?b0) ar2 (upd_queue Q s p (?q @ [i]))"
        proof (rule book_rel_change [OF rel])
          show "heap_of ar2 j = heap_of ar j" if "j \<in> set (Q (opposite s) p')" for p' j
          proof -
            have "j \<noteq> i" using notin that by metis
            moreover have "j \<notin> set ?q" using book_rel_disjoint [OF rel that, of s p] by auto
            ultimately show ?thesis using relinkedD(1) [OF ar2(4), of j] by simp
          qed
          show "order_index (put_view s v ?b0) oid' = Some j \<longleftrightarrow> (\<exists>ord. heap_of ar2 j = Some ord \<and> o_id ord = oid')" for oid' j
            using slot(2) by simp
        qed (use sr ar2(2) slot(1,3) in simp_all)
        then show "insert_post oid s p qty ot vis stp b ar Q (Some i, put_view s v ?b0, ar2)"
          using None al(2) core by (simp add: insert_post_def)
      qed
      then show ?thesis using x Some b1 ar2(1) by simp
    qed
  qed
qed

end
