(* ===== verification/Mx_Book_Ops.thy ===== *)
theory Mx_Book_Ops
  imports Mx_Book_Inv
begin

text \<open>
  Reducing an order in place, filling one, and removing one: each keeps the invariant of the book
  and changes the abstract queues as it should, and none of them can fail except for want of a
  machine resource.
\<close>

subsection \<open>Updating an order in place\<close>

lemma dll_same_links:
  assumes "\<And>j. j \<in> set q \<Longrightarrow> map_option (\<lambda>x. (o_prev x, o_next x)) (h' j) = map_option (\<lambda>x. (o_prev x, o_next x)) (h j)"
  shows "dll h' p q n \<longleftrightarrow> dll h p q n"
  using assms
proof (induction q arbitrary: p)
  case (Cons j q)
  have "map_option (\<lambda>x. (o_prev x, o_next x)) (h' j) = map_option (\<lambda>x. (o_prev x, o_next x)) (h j)"
    using Cons.prems by simp
  then have "(\<exists>ord. h' j = Some ord \<and> o_prev ord = p \<and> o_next ord = m) \<longleftrightarrow>
      (\<exists>ord. h j = Some ord \<and> o_prev ord = p \<and> o_next ord = m)" for m
    by (cases "h j"; cases "h' j") auto
  then show ?case using Cons by simp
qed simp

lemma queue_ok_fill:
  assumes "queue_ok h s p l q" "i \<in> set q" "h i = Some ord" "ord' = ord\<lparr>o_filled := f\<rparr>"
    "remaining ord' + d = remaining ord"
  shows "queue_ok (h(i \<mapsto> ord')) s p (l\<lparr>total_quantity := total_quantity l - d\<rparr>) q"
    and "sum_rem (h(i \<mapsto> ord')) q + d = sum_rem h q"
proof -
  obtain xs ys where q: "q = xs @ i # ys" using assms(2) by (meson split_list)
  have dist: "distinct q" and dl: "dll h ARENA_NULL q ARENA_NULL" and tot: "total_quantity l = sum_rem h q"
    and all: "\<forall>j \<in> set q. \<exists>ord. h j = Some ord \<and> o_side ord = s \<and> o_price ord = p"
    and ends: "ends_ok l q" "order_count l = length q"
    using assms(1) by (simp_all add: queue_ok_def)
  have "sum_rem (h(i \<mapsto> ord')) xs = sum_rem h xs" "sum_rem (h(i \<mapsto> ord')) ys = sum_rem h ys"
    using dist q by (intro sum_rem_core; auto simp: core_heap_def)+
  then show sum: "sum_rem (h(i \<mapsto> ord')) q + d = sum_rem h q"
    using assms(3,5) by (simp add: q rem_at_def)
  have "dll (h(i \<mapsto> ord')) ARENA_NULL q ARENA_NULL \<longleftrightarrow> dll h ARENA_NULL q ARENA_NULL"
    by (rule dll_same_links) (use assms(3,4) in auto)
  moreover have "\<exists>x. (h(i \<mapsto> ord')) j = Some x \<and> o_side x = s \<and> o_price x = p" if "j \<in> set q" for j
    using all that assms(3,4) by (cases "j = i") auto
  ultimately show "queue_ok (h(i \<mapsto> ord')) s p (l\<lparr>total_quantity := total_quantity l - d\<rparr>) q"
    unfolding queue_ok_def using dist dl tot ends sum by (auto simp: ends_ok_def)
qed

lemma book_rel_update_slot:
  assumes rel: "book_rel b ar Q" and ord: "heap_of ar i = Some ord" and ord': "ord' = ord\<lparr>o_filled := f\<rparr>"
    and valid: "is_valid_state ord'" and ar': "arena_inv ar'" "heap_of ar' = (heap_of ar)(i \<mapsto> ord')"
    and side: "side_rel (dense_base_price b) (dense_max_ticks b) (o_side ord) v' (heap_of ar') (Q (o_side ord))"
  shows "book_rel (put_view (o_side ord) v' b) ar' Q"
proof -
  let ?s = "o_side ord" and ?p = "o_price ord"
  have i: "i \<in> set (Q ?s ?p)" by (rule book_relD(3) [OF rel ord])
  have "book_rel (put_view ?s v' b) ar' (upd_queue Q ?s ?p (Q ?s ?p))"
  proof (rule book_rel_change [OF rel])
    show "heap_of ar' j = heap_of ar j" if "j \<in> set (Q (opposite ?s) p)" for p j
      using book_rel_disjoint [OF rel i, of "opposite ?s" p] that ar'(2) by auto
    show "j \<in> set (upd_queue Q ?s ?p (Q ?s ?p) (o_side x) (o_price x))" if "heap_of ar' j = Some x" for j x
      using that ar'(2) book_relD(3) [OF rel, of j] i ord' by (cases "j = i") auto
    show "order_index (put_view ?s v' b) oid = Some j \<longleftrightarrow> (\<exists>x. heap_of ar' j = Some x \<and> o_id x = oid)" for oid j
      using book_relD(4) [OF rel, of oid j] ar'(2) ord ord' by auto
    show "is_valid_state x" if "heap_of ar' j = Some x" for j x
      using that ar'(2) book_relD(5) [OF rel, of j] valid by (cases "j = i") auto
  qed (use side ar'(1) in simp_all)
  then show ?thesis by simp
qed

lemma side_rel_fill:
  assumes rel: "book_rel b ar Q" and ord: "heap_of ar i = Some ord" and ord': "ord' = ord\<lparr>o_filled := f\<rparr>"
    and d: "remaining ord' + d = remaining ord" and base: "base = dense_base_price b" "n = dense_max_ticks b"
    and s: "s = o_side ord" "p = o_price ord"
    and v': "same_but_depth (vput base n p (l\<lparr>total_quantity := total_quantity l - d\<rparr>) (view s b)) v'"
    and l: "l = vlevel base n (view s b) p"
    and depth: "depth_rel base n (view s b) D" "\<And>p. depth_ok D (heap_of ar) p (Q s p)" "depth_rel base n v' D'"
      "\<And>p'. p' \<noteq> p \<Longrightarrow> D' p' = D p'" "\<exists>x. D' p = Some x \<and> 0 < x \<and> sum_rem ((heap_of ar)(i \<mapsto> ord')) (Q s p) \<le> x"
  shows "side_rel base n s v' ((heap_of ar)(i \<mapsto> ord')) (Q s)"
proof -
  note side = book_relD(2) [OF rel, of s, folded base]
  note shape = side_relD(1) [OF side] and same = same_but_depthD [OF v']
  have i: "i \<in> set (Q s p)" using book_relD(3) [OF rel ord] s by simp
  have "side_rel base n s v' ((heap_of ar)(i \<mapsto> ord')) ((Q s)(p := Q s p))"
  proof (rule side_rel_change [OF side _ _ _ _ _ depth(1-4)])
    show "vshape base n v'" using same(6) vput_shape [OF shape] by simp
    show "vlevel base n v' p' = vlevel base n (view s b) p'" if "p' \<noteq> p" for p'
      using that same(5) vlevel_vput [OF shape] by simp
    show "if p' = p then Q s p \<noteq> [] else bt_get (v_sparse (view s b)) p' \<noteq> None"
      if "bt_get (v_sparse v') p' \<noteq> None" for p'
      using that same(2) sparse_vput [OF shape] i by auto
    show "occ_ok base n v' ((Q s)(p := Q s p))" using side_relD(4) [OF side] same(4) by (simp add: occ_ok_def)
    show "best_ok base n s v' ((Q s)(p := Q s p))" using side_relD(5) [OF side] same(3) by (simp add: best_ok_def)
    show "depth_ok D' ((heap_of ar)(i \<mapsto> ord')) p (Q s p)" using depth(5) by (simp add: depth_ok_def)
    show "queue_ok ((heap_of ar)(i \<mapsto> ord')) s p (vlevel base n v' p) (Q s p)"
      using queue_ok_fill(1) [OF side_relD(3) [OF side, of p] i ord ord' d] same(5) vlevel_vput [OF shape] l by simp
    show "((heap_of ar)(i \<mapsto> ord')) j = heap_of ar j" if "p' \<noteq> p" "j \<in> set (Q s p')" for p' j
      using book_rel_disjoint [OF rel i, of s p'] that by auto
  qed
  then show ?thesis by simp
qed

lemma fill_remaining:
  assumes "d \<le> remaining ord"
  shows "remaining (ord\<lparr>o_filled := o_filled ord + d\<rparr>) + d = remaining ord"
    and "is_valid_state ord \<Longrightarrow> is_valid_state (ord\<lparr>o_filled := o_filled ord + d\<rparr>)"
  using assms by (auto simp: remaining_def is_valid_state_def)

text \<open>The fill of a maker: its order and its level change, the depth index does not.\<close>

lemma fill_book_spec:
  assumes rel: "book_rel b ar Q" and ord: "heap_of ar i = Some ord" and d: "d \<le> remaining ord"
    and s: "o_side ord = s" "o_price ord = p"
  shows "\<exists>ar1 level b1 b2. arena_get_mut i (\<lambda>x. x\<lparr>o_filled := o_filled ord + d\<rparr>) ar = Inr ar1 \<and>
    level_mut s p b = Inr (level, b1) \<and> d \<le> total_quantity level \<and>
    level_store s p (level\<lparr>total_quantity := total_quantity level - d\<rparr>) b1 = Inr b2 \<and>
    book_rel b2 ar1 Q \<and> heap_of ar1 = (heap_of ar)(i \<mapsto> ord\<lparr>o_filled := o_filled ord + d\<rparr>)"
proof -
  let ?base = "dense_base_price b" and ?n = "dense_max_ticks b" and ?v = "view s b"
  let ?ord = "ord\<lparr>o_filled := o_filled ord + d\<rparr>" and ?l = "vlevel (dense_base_price b) (dense_max_ticks b) (view s b) p"
  note side = book_relD(2) [OF rel, of s]
  have i: "i \<in> set (Q s p)" using book_relD(3) [OF rel ord] s by simp
  obtain D where D: "depth_rel ?base ?n ?v D" "\<And>p. depth_ok D (heap_of ar) p (Q s p)"
    using side_relD(6) [OF side] by blast
  obtain ar1 where ar1: "arena_get_mut i (\<lambda>x. x\<lparr>o_filled := o_filled ord + d\<rparr>) ar = Inr ar1" "arena_inv ar1"
    "heap_of ar1 = (heap_of ar)(i \<mapsto> ?ord)"
    using slots.mut_ok [OF book_relD(1) [OF rel] ord] by blast
  obtain b1 where b1: "level_mut s p b = Inr (?l, b1)"
    "\<And>l. level_store s p l b1 = Inr (put_view s (vput ?base ?n p l ?v) b)"
    using level_mut_spec [OF side_relD(1) [OF side], of p] by blast
  let ?v2 = "vput ?base ?n p (?l\<lparr>total_quantity := total_quantity ?l - d\<rparr>) ?v"
  note fq = queue_ok_fill [OF side_relD(3) [OF side, of p] i ord refl fill_remaining(1) [OF d]]
  obtain x where x: "D p = Some x" "0 < x" "sum_rem (heap_of ar) (Q s p) \<le> x"
    using D(2) [of p] i by (auto simp: depth_ok_def)
  have le: "d \<le> total_quantity ?l" using side_relD(3) [OF side, of p] fq(2) by (simp add: queue_ok_def)
  have "depth_rel ?base ?n ?v2 D" using D(1) by (simp add: depth_rel_def)
  moreover have "same_but_depth ?v2 ?v2"
    unfolding same_but_depth_def by (rule exI [of _ "v_tree ?v2"], rule exI [of _ "v_sidx ?v2"]) simp
  ultimately have "side_rel ?base ?n s ?v2 ((heap_of ar)(i \<mapsto> ?ord)) (Q s)"
    using side_rel_fill [OF rel ord refl fill_remaining(1) [OF d] refl refl s [symmetric] _ refl D, of ?v2 D] x fq(2) by auto
  then have "book_rel (put_view s ?v2 b) ar1 Q"
    using book_rel_update_slot [OF rel ord refl fill_remaining(2) [OF d book_relD(5) [OF rel ord]] ar1(2,3), of ?v2]
      s ar1(3) by simp
  then show ?thesis using ar1 b1 le by blast
qed

lemma reduce_order_spec:
  assumes rel: "book_rel b ar Q" and ord: "heap_of ar i = Some ord" and d: "d < remaining ord"
  shows "yields (reduce_order_qty i d b ar) (\<lambda>(b', ar'). book_rel b' ar' Q \<and>
    heap_of ar' = (heap_of ar)(i \<mapsto> ord\<lparr>o_filled := o_filled ord + d\<rparr>))"
proof -
  define s p where "s = o_side ord" and "p = o_price ord"
  let ?base = "dense_base_price b" and ?n = "dense_max_ticks b" and ?v = "view s b"
  let ?ord = "ord\<lparr>o_filled := o_filled ord + d\<rparr>" and ?l = "vlevel (dense_base_price b) (dense_max_ticks b) (view s b) p"
  have d': "d \<le> remaining ord" using d by simp
  note side = book_relD(2) [OF rel, of s]
  have i: "i \<in> set (Q s p)" using book_relD(3) [OF rel ord] by (simp add: s_def p_def)
  obtain D where D: "depth_rel ?base ?n ?v D" "\<And>p. depth_ok D (heap_of ar) p (Q s p)"
    using side_relD(6) [OF side] by blast
  obtain ar1 where ar1: "arena_get_mut i (\<lambda>x. x\<lparr>o_filled := o_filled ord + d\<rparr>) ar = Inr ar1" "arena_inv ar1"
    "heap_of ar1 = (heap_of ar)(i \<mapsto> ?ord)"
    using slots.mut_ok [OF book_relD(1) [OF rel] ord] by blast
  have get: "arena_get ar i = Inr ord" "arena_get ar1 i = Inr ?ord"
    using arena_get_occupied [OF book_relD(1) [OF rel] ord] arena_get_occupied [OF ar1(2), of i ?ord] ar1(3) by simp_all
  obtain b1 where b1: "level_mut s p b = Inr (?l, b1)"
    "\<And>l. level_store s p l b1 = Inr (put_view s (vput ?base ?n p l ?v) b)"
    using level_mut_spec [OF side_relD(1) [OF side], of p] by blast
  let ?v2 = "vput ?base ?n p (?l\<lparr>total_quantity := total_quantity ?l - d\<rparr>) ?v"
  note fq = queue_ok_fill [OF side_relD(3) [OF side, of p] i ord refl fill_remaining(1) [OF d']]
  obtain x where x: "D p = Some x" "0 < x" "sum_rem (heap_of ar) (Q s p) \<le> x"
    using D(2) [of p] i by (auto simp: depth_ok_def)
  have le: "d \<le> total_quantity ?l" using side_relD(3) [OF side, of p] fq(2) by (simp add: queue_ok_def)
  have "remaining ord \<le> sum_rem (heap_of ar) (Q s p)"
    using rem_at_le_sum [OF i, of "heap_of ar"] ord by (simp add: rem_at_def)
  then have dx: "d < x" using d x(3) by simp
  have "depth_rel ?base ?n ?v2 D" using D(1) by (simp add: depth_rel_def)
  then have y: "yields (depth_remove s p d (put_view s ?v2 b)) (\<lambda>b'. \<exists>v' D'. b' = put_view s v' (put_view s ?v2 b) \<and>
      same_but_depth ?v2 v' \<and> depth_rel ?base ?n v' D' \<and> (\<forall>p'. p' \<noteq> p \<longrightarrow> D' p' = D p') \<and>
      (d < x \<longrightarrow> D' p = Some (x - d)))"
    using depth_remove_spec [of "put_view s ?v2 b" s D p x d] x(1) dx by simp
  have "yields (rbind (depth_remove s p d (put_view s ?v2 b)) (\<lambda>b3. Inr (b3, ar1)))
    (\<lambda>(b', ar'). book_rel b' ar' Q \<and> heap_of ar' = (heap_of ar)(i \<mapsto> ?ord))"
  proof (rule yields_bind [OF y])
    fix b3 assume "\<exists>v' D'. b3 = put_view s v' (put_view s ?v2 b) \<and>
      same_but_depth ?v2 v' \<and> depth_rel ?base ?n v' D' \<and> (\<forall>p'. p' \<noteq> p \<longrightarrow> D' p' = D p') \<and>
      (d < x \<longrightarrow> D' p = Some (x - d))"
    then obtain v' D' where v': "b3 = put_view s v' b" "same_but_depth ?v2 v'" "depth_rel ?base ?n v' D'"
      "\<And>p'. p' \<noteq> p \<Longrightarrow> D' p' = D p'" "D' p = Some (x - d)" using dx by auto
    have "side_rel ?base ?n s v' ((heap_of ar)(i \<mapsto> ?ord)) (Q s)"
      using side_rel_fill [OF rel ord refl fill_remaining(1) [OF d'] refl refl s_def p_def v'(2) refl D v'(3,4)]
        v'(5) x(3) dx fq(2) by auto
    then have "book_rel (put_view s v' b) ar1 Q"
      using book_rel_update_slot [OF rel ord refl fill_remaining(2) [OF d' book_relD(5) [OF rel ord]] ar1(2,3), of v']
        ar1(3) by (simp add: s_def)
    then show "yields (Inr (b3, ar1)) (\<lambda>(b', ar'). book_rel b' ar' Q \<and> heap_of ar' = (heap_of ar)(i \<mapsto> ?ord))"
      using v'(1) ar1(3) by simp
  qed
  then show ?thesis
    using get ar1(1) b1 le by (simp add: reduce_order_qty_def checked_sub_def flip: s_def p_def)
qed

subsection \<open>Removal\<close>

lemma sparse_iff:
  assumes "side_rel base n s v h q"
  shows "bt_get (v_sparse v) p \<noteq> None \<longleftrightarrow> tick_of base n p = None \<and> q p \<noteq> []"
proof
  assume "bt_get (v_sparse v) p \<noteq> None"
  then show "tick_of base n p = None \<and> q p \<noteq> []"
    using side_relD(1,2) [OF assms] by (simp add: vshape_def sparse_ok_def)
next
  assume nz: "tick_of base n p = None \<and> q p \<noteq> []"
  show "bt_get (v_sparse v) p \<noteq> None"
  proof
    assume "bt_get (v_sparse v) p = None"
    then have "vlevel base n v p = EMPTY" using nz by (simp add: vlevel_def)
    then show False using side_relD(3) [OF assms, of p] nz by (simp add: queue_ok_def)
  qed
qed

text \<open>The queue that loses a slot, once its neighbours are linked.\<close>

lemma queue_ok_remove:
  assumes "queue_ok h s p l (xs @ i # ys)" "dll h1 ARENA_NULL (xs @ ys) ARENA_NULL"
    "relinked (set xs \<union> set ys) h h1" "ends_ok l1 (xs @ ys)" "h i = Some ord"
    "total_quantity l1 = total_quantity l" "order_count l1 = order_count l"
  shows "queue_ok (h1(i := None)) s p
      (l1\<lparr>total_quantity := total_quantity l1 - remaining ord, order_count := order_count l1 - 1\<rparr>) (xs @ ys)"
    and "sum_rem (h1(i := None)) (xs @ ys) + remaining ord = sum_rem h (xs @ i # ys)"
proof -
  have dist: "distinct (xs @ i # ys)" and tot: "total_quantity l = sum_rem h (xs @ i # ys)"
    and cnt: "order_count l = length (xs @ i # ys)"
    and all: "\<forall>j \<in> set (xs @ i # ys). \<exists>x. h j = Some x \<and> o_side x = s \<and> o_price x = p"
    using assms(1) by (simp_all add: queue_ok_def)
  have "core_heap (h1(i := None)) = (core_heap h)(i := None)"
    using relinked_core [OF assms(3)] by (simp add: core_heap_del)
  then have "sum_rem (h1(i := None)) (xs @ ys) = sum_rem h (xs @ ys)"
    using dist by (intro sum_rem_core) auto
  then show sum: "sum_rem (h1(i := None)) (xs @ ys) + remaining ord = sum_rem h (xs @ i # ys)"
    using assms(5) by (simp add: rem_at_def)
  have "dll (h1(i := None)) ARENA_NULL (xs @ ys) ARENA_NULL"
  proof -
    have "(h1(i := None)) j = h1 j" if "j \<in> set (xs @ ys)" for j using that dist by auto
    from dll_cong [of "xs @ ys" "h1(i := None)" h1, OF this] assms(2) show ?thesis by blast
  qed
  moreover have "\<exists>x. (h1(i := None)) j = Some x \<and> o_side x = s \<and> o_price x = p" if "j \<in> set (xs @ ys)" for j
  proof -
    from that have "j \<in> set (xs @ i # ys)" by auto
    with all obtain a where "h j = Some a" "o_side a = s" "o_price a = p" by blast
    moreover have "j \<noteq> i" using dist that by auto
    ultimately show ?thesis using relinkedD(3) [OF assms(3), of j a] by auto
  qed
  moreover have "ends_ok (l1\<lparr>total_quantity := total_quantity l1 - remaining ord, order_count := order_count l1 - 1\<rparr>) (xs @ ys)"
    using assms(4) by (simp add: ends_ok_def)
  moreover have "total_quantity l1 - remaining ord = sum_rem (h1(i := None)) (xs @ ys)"
    using assms(6) tot sum by linarith
  moreover have "order_count l1 - 1 = length (xs @ ys)" using assms(7) cnt by simp
  moreover have "distinct (xs @ ys)" using dist by auto
  ultimately show "queue_ok (h1(i := None)) s p
      (l1\<lparr>total_quantity := total_quantity l1 - remaining ord, order_count := order_count l1 - 1\<rparr>) (xs @ ys)"
    unfolding queue_ok_def by (intro conjI ballI) simp_all
qed

text \<open>The part of the invariant on the store and the index, after a slot is emptied.\<close>

lemma book_rel_empty_slot:
  assumes rel: "book_rel b ar Q" and ord: "heap_of ar i = Some gone"
    and core: "core_heap (heap_of ar') = (core_heap (heap_of ar))(i := None)"
    and q: "set (Q (o_side gone) (o_price gone)) - {i} \<subseteq> set q"
  shows "heap_of ar' j = Some ord \<Longrightarrow> j \<in> set (upd_queue Q (o_side gone) (o_price gone) q (o_side ord) (o_price ord))"
    and "((order_index b)(o_id gone := None)) oid = Some j \<longleftrightarrow> (\<exists>ord. heap_of ar' j = Some ord \<and> o_id ord = oid)"
    and "heap_of ar' j = Some ord \<Longrightarrow> is_valid_state ord"
proof -
  have old: "\<exists>a. k \<noteq> i \<and> heap_of ar k = Some a \<and> core x = core a" if "heap_of ar' k = Some x" for k x
  proof -
    have "core_heap (heap_of ar') k = Some (core x)" using that by (simp add: core_heap_def)
    then show ?thesis using core by (auto simp: core_heap_Some split: if_splits)
  qed
  show "j \<in> set (upd_queue Q (o_side gone) (o_price gone) q (o_side ord) (o_price ord))" if "heap_of ar' j = Some ord"
  proof -
    from old [OF that] obtain a where a: "j \<noteq> i" "heap_of ar j = Some a" "core ord = core a" by blast
    then show ?thesis using book_relD(3) [OF rel a(2)] core_eqD(2,3) [OF a(3)] q by auto
  qed
  show "is_valid_state ord" if "heap_of ar' j = Some ord"
    using old [OF that] book_relD(5) [OF rel] valid_core by blast
  have "core_heap (heap_of ar') = core_heap ((heap_of ar)(i := None))" using core by (simp add: core_heap_del)
  from index_core [OF this, of j oid]
  have "(\<exists>ord. heap_of ar' j = Some ord \<and> o_id ord = oid) \<longleftrightarrow>
      j \<noteq> i \<and> order_index b oid = Some j"
    using book_relD(4) [OF rel, of oid j] by auto
  also have "\<dots> \<longleftrightarrow> ((order_index b)(o_id gone := None)) oid = Some j"
    using book_relD(4) [OF rel, of oid j] book_relD(4) [OF rel, of "o_id gone" i]
      book_relD(4) [OF rel, of "o_id gone" j] book_relD(4) [OF rel, of oid i] ord by auto
  finally show "((order_index b)(o_id gone := None)) oid = Some j \<longleftrightarrow> (\<exists>ord. heap_of ar' j = Some ord \<and> o_id ord = oid)" ..
qed

text \<open>The last steps of a removal, on a side whose level and depth have been updated.\<close>

lemma remove_finish:
  assumes old: "side_rel base n s (view s b) h q" and base: "base = dense_base_price b" "n = dense_max_ticks b"
    and b3: "b3 = put_view s v3 (b\<lparr>order_index := m\<rparr>)" and same: "same_but_depth (vput base n p l2 (view s b)) v3"
    and nonempty: "q p \<noteq> []" and queue: "queue_ok h' s p l2 q'"
    and depth: "depth_rel base n (view s b) D" "\<And>p. depth_ok D h p (q p)" "depth_rel base n v3 D'"
      "\<And>p'. p' \<noteq> p \<Longrightarrow> D' p' = D p'" "depth_ok D' h' p q'"
    and frame: "\<And>p' j. p' \<noteq> p \<Longrightarrow> j \<in> set (q p') \<Longrightarrow> h' j = h j"
  shows "yields (rbind (book_level_is_empty s p b3) (\<lambda>e.
      if e then refresh_best_after_level_empty s p (prune_if_sparse_empty s p b3) else Inr b3))
    (\<lambda>b'. \<exists>v. b' = put_view s v (b\<lparr>order_index := m\<rparr>) \<and> side_rel base n s v h' (q(p := q')))"
proof -
  let ?v = "view s b"
  note shape = side_relD(1) [OF old] and sm = same_but_depthD [OF same]
  have shape3: "vshape base n v3" using sm(6) vput_shape [OF shape] by simp
  have lev: "vlevel base n v3 p' = (if p' = p then l2 else vlevel base n ?v p')" for p'
    using sm(5) vlevel_vput [OF shape] by simp
  have view3: "view s b3 = v3" "dense_base_price b3 = base" "dense_max_ticks b3 = n" using b3 base by simp_all
  have spr: "bt_get (v_sparse v3) p' = (if p' = p \<and> tick_of base n p = None then Some l2 else bt_get (v_sparse ?v) p')" for p'
    using sm(2) sparse_vput [OF shape] by simp
  have empty: "book_level_is_empty s p b3 = Inr (q' = [])"
    using book_level_is_empty_spec [of b3 s p] shape3 lev queue by (simp add: view3 level_empty_def queue_ok_def)
  show ?thesis
  proof (cases "q' = []")
    case False
    have "side_rel base n s v3 h' (q(p := q'))"
    proof (rule side_rel_change [OF old shape3 _ _ _ _ depth])
      show "occ_ok base n v3 (q(p := q'))" using side_relD(4) [OF old] sm(4) False nonempty by (auto simp: occ_ok_def)
      show "best_ok base n s v3 (q(p := q'))"
        using side_relD(5) [OF old] sm(3) False nonempty by (auto simp: best_ok_def split: option.splits)
      show "if p' = p then q' \<noteq> [] else bt_get (v_sparse ?v) p' \<noteq> None" if "bt_get (v_sparse v3) p' \<noteq> None" for p'
        using that spr [of p'] False by (simp split: if_splits)
    qed (use lev queue frame in simp_all)
    then show ?thesis using empty False b3 by auto
  next
    case True
    let ?w = "vprune base n p v3"
    have wshape: "vshape base n ?w" by (rule vprune_shape [OF shape3])
    have "level_empty (vlevel base n v3 p)" using lev queue True by (simp add: level_empty_def queue_ok_def)
    then have pr: "prune_if_sparse_empty s p b3 = put_view s ?w b3"
      using prune_view [of b3 s p] by (simp add: view3)
    have wsp: "bt_get (v_sparse ?w) p' \<noteq> None \<longleftrightarrow> tick_of base n p' = None \<and> (q(p := [])) p' \<noteq> []" for p'
    proof -
      have "bt_inv (v_sparse v3)" using shape3 by (simp add: vshape_def)
      then show ?thesis using sparse_vprune [of v3 base n p p'] spr [of p'] sparse_iff [OF old, of p'] by auto
    qed
    have "yields (refresh_best_after_level_empty s p (put_view s ?w b3)) (\<lambda>b'. \<exists>ws best.
        b' = put_view s (?w\<lparr>v_occ := ws, v_best := best\<rparr>) (put_view s ?w b3) \<and> length ws = length (v_occ ?w) \<and>
        occ_ok base n (?w\<lparr>v_occ := ws, v_best := best\<rparr>) (q(p := [])) \<and>
        best_ok base n s (?w\<lparr>v_occ := ws, v_best := best\<rparr>) (q(p := [])))"
    proof (rule refresh_spec)
      show "occ_ok base n ?w q" using side_relD(4) [OF old] sm(4) by (simp add: occ_ok_def)
      show "best_ok base n s ?w q" using side_relD(5) [OF old] sm(3) by (simp add: best_ok_def)
    qed (use wshape wsp view3 in simp_all)
    then have "yields (refresh_best_after_level_empty s p (put_view s ?w b3))
      (\<lambda>b'. \<exists>v. b' = put_view s v (b\<lparr>order_index := m\<rparr>) \<and> side_rel base n s v h' (q(p := q')))"
    proof (rule yields_mono, clarify)
      fix ws best
      let ?u = "?w\<lparr>v_occ := ws, v_best := best\<rparr>"
      assume u: "length ws = length (v_occ ?w)" "occ_ok base n ?u (q(p := []))" "best_ok base n s ?u (q(p := []))"
      have "side_rel base n s ?u h' (q(p := q'))"
      proof (rule side_rel_change [OF old _ _ _ _ _ depth(1,2) _ depth(4,5)])
        show "vshape base n ?u" using wshape u(1) by (simp add: vshape_def)
        show "vlevel base n ?u p' = vlevel base n ?v p'" if "p' \<noteq> p" for p'
          using that vlevel_vprune [OF shape3 that] lev by simp
        show "if p' = p then q' \<noteq> [] else bt_get (v_sparse ?v) p' \<noteq> None" if "bt_get (v_sparse ?u) p' \<noteq> None" for p'
          using that wsp [of p'] sparse_iff [OF old, of p'] by (auto split: if_splits)
        show "depth_rel base n ?u D'" using depth(3) by (simp add: depth_rel_def)
        show "queue_ok h' s p (vlevel base n ?u p) q'"
        proof (cases "tick_of base n p")
          case None
          then have "vlevel base n ?w p = EMPTY" using wsp [of p] by (simp add: vlevel_def)
          then show ?thesis using True by (simp add: queue_ok_def ends_ok_def)
        next
          case (Some i)
          then have "?w = v3" by (simp add: vprune_def)
          then show ?thesis using lev queue by simp
        qed
      qed (use u True frame in simp_all)
      then show "\<exists>v. put_view s ?u (put_view s ?w b3) = put_view s v (b\<lparr>order_index := m\<rparr>) \<and>
          side_rel base n s v h' (q(p := q'))" using b3 by auto
    qed
    then show ?thesis using empty True pr by simp
  qed
qed

definition remove_post where
  "remove_post i ord b ar Q res \<longleftrightarrow>
     (case res of ((s, p), b', ar') \<Rightarrow> s = o_side ord \<and> p = o_price ord \<and>
        book_rel b' ar' (upd_queue Q s p (remove1 i (Q s p))) \<and>
        core_heap (heap_of ar') = (core_heap (heap_of ar))(i := None))"

lemma remove_order_spec:
  assumes rel: "book_rel b ar Q" and ord: "heap_of ar i = Some ord"
    and others: "\<And>j. j \<in> set (Q (o_side ord) (o_price ord)) \<Longrightarrow> j \<noteq> i \<Longrightarrow> 0 < rem_at (heap_of ar) j"
  shows "yields (remove_order i b ar) (remove_post i ord b ar Q)"
proof -
  define s p where "s = o_side ord" and "p = o_price ord"
  let ?base = "dense_base_price b" and ?n = "dense_max_ticks b" and ?v = "view s b" and ?h = "heap_of ar"
  let ?l = "vlevel (dense_base_price b) (dense_max_ticks b) (view s b) p"
  note side = book_relD(2) [OF rel, of s]
  have i: "i \<in> set (Q s p)" using book_relD(3) [OF rel ord] by (simp add: s_def p_def)
  then obtain xs ys where q: "Q s p = xs @ i # ys" by (meson split_list)
  have qok: "queue_ok ?h s p ?l (xs @ i # ys)" using side_relD(3) [OF side, of p] q by simp
  then have dist: "distinct (xs @ i # ys)" by (simp add: queue_ok_def)
  then have rm: "remove1 i (Q s p) = xs @ ys" using q by (simp add: remove1_append)
  obtain D where D: "depth_rel ?base ?n ?v D" "\<And>p. depth_ok D ?h p (Q s p)" using side_relD(6) [OF side] by blast
  obtain b1 where b1: "level_mut s p b = Inr (?l, b1)"
    "\<And>l. level_store s p l b1 = Inr (put_view s (vput ?base ?n p l ?v) b)"
    using level_mut_spec [OF side_relD(1) [OF side], of p] by blast
  have "dll ?h ARENA_NULL (xs @ i # ys) ARENA_NULL" "ends_ok ?l (xs @ i # ys)"
    using qok by (simp_all add: queue_ok_def)
  from unlink_spec [OF book_relD(1) [OF rel] this(1) dist ord this(2)]
  obtain l1 ar1 where un: "unlink ord ?l ar = Inr (l1, ar1)" "arena_inv ar1"
    "dll (heap_of ar1) ARENA_NULL (xs @ ys) ARENA_NULL" "relinked (set xs \<union> set ys) ?h (heap_of ar1)"
    "ends_ok l1 (xs @ ys)" "total_quantity l1 = total_quantity ?l" "order_count l1 = order_count ?l" by blast
  let ?l2 = "l1\<lparr>total_quantity := total_quantity l1 - remaining ord, order_count := order_count l1 - 1\<rparr>"
  let ?h2 = "(heap_of ar1)(i := None)"
  note q2 = queue_ok_remove [OF qok un(3,4,5) ord un(6,7)]
  have rem_le: "remaining ord \<le> total_quantity l1" "1 \<le> order_count l1"
    using un(6,7) qok q2(2) by (simp_all add: queue_ok_def)
  obtain x where x: "D p = Some x" "0 < x" "sum_rem ?h (xs @ i # ys) \<le> x"
    using D(2) [of p] q by (auto simp: depth_ok_def)
  have rx: "remaining ord \<le> x" using q2(2) x(3) by linarith
  have occ1: "heap_of ar1 i = Some ord"
    using relinkedD(1) [OF un(4), of i] ord dist by simp
  have pos: "0 < sum_rem ?h2 (xs @ ys)" if "xs @ ys \<noteq> []"
  proof -
    have "hd (xs @ ys) \<in> set (xs @ ys)" by (rule hd_in_set [OF that])
    then obtain j where j: "j \<in> set (xs @ ys)" by blast
    then have "j \<noteq> i" using dist by auto
    moreover have "0 < rem_at ?h j" using others [of j] j q \<open>j \<noteq> i\<close> by (auto simp: s_def p_def)
    ultimately have "0 < rem_at ?h2 j"
      using rem_at_core [of ?h2 j ?h] relinked_core [OF un(4)] by (simp add: core_heap_del)
    then show ?thesis by (rule order.strict_trans2 [OF _ rem_at_le_sum [OF j]])
  qed
  let ?b2 = "put_view s (vput ?base ?n p ?l2 ?v) b" and ?m = "(order_index b)(o_id ord := None)"
  have "depth_rel ?base ?n (vput ?base ?n p ?l2 ?v) D" using D(1) by (simp add: depth_rel_def)
  then have y: "yields (depth_remove s p (remaining ord) ?b2) (\<lambda>b'. \<exists>v' D'. b' = put_view s v' ?b2 \<and>
      same_but_depth (vput ?base ?n p ?l2 ?v) v' \<and> depth_rel ?base ?n v' D' \<and>
      (\<forall>p'. p' \<noteq> p \<longrightarrow> D' p' = D p') \<and> (remaining ord < x \<longrightarrow> D' p = Some (x - remaining ord)))"
    using depth_remove_spec [of ?b2 s D p x "remaining ord"] x(1) rx by simp
  have "yields (rbind (depth_remove s p (remaining ord) ?b2) (\<lambda>b3.
     let b4 = b3\<lparr>order_index := (order_index b3)(o_id ord := None)\<rparr> in
     rbind (arena_free i ar1) (\<lambda>ar2.
     rbind (book_level_is_empty s p b4) (\<lambda>e.
     rbind (if e then refresh_best_after_level_empty s p (prune_if_sparse_empty s p b4)
            else Inr b4) (\<lambda>b5. Inr ((s, p), b5, ar2)))))) (remove_post i ord b ar Q)"
  proof (rule yields_bind [OF y])
    fix b3 assume "\<exists>v' D'. b3 = put_view s v' ?b2 \<and>
      same_but_depth (vput ?base ?n p ?l2 ?v) v' \<and> depth_rel ?base ?n v' D' \<and>
      (\<forall>p'. p' \<noteq> p \<longrightarrow> D' p' = D p') \<and> (remaining ord < x \<longrightarrow> D' p = Some (x - remaining ord))"
    then obtain v3 D' where v3: "b3 = put_view s v3 b" "same_but_depth (vput ?base ?n p ?l2 ?v) v3"
      "depth_rel ?base ?n v3 D'" "\<And>p'. p' \<noteq> p \<Longrightarrow> D' p' = D p'"
      "remaining ord < x \<Longrightarrow> D' p = Some (x - remaining ord)" by auto
    have b4: "b3\<lparr>order_index := (order_index b3)(o_id ord := None)\<rparr> = put_view s v3 (b\<lparr>order_index := ?m\<rparr>)"
      using v3(1) by (simp add: put_view_order_index)
    have dok: "depth_ok D' ?h2 p (xs @ ys)"
    proof (cases "xs @ ys = []")
      case False
      have "remaining ord < x" using pos [OF False] q2(2) x(3) by linarith
      then have "D' p = Some (x - remaining ord)" "0 < x - remaining ord" using v3(5) by simp_all
      moreover have "sum_rem ?h2 (xs @ ys) \<le> x - remaining ord" using q2(2) x(3) by linarith
      ultimately show ?thesis unfolding depth_ok_def by blast
    qed (simp add: depth_ok_def)
    have frame: "?h2 j = ?h j" if "s' \<noteq> s \<or> p' \<noteq> p" "j \<in> set (Q s' p')" for s' p' j
    proof -
      have "j \<notin> set (xs @ i # ys)" using book_rel_disjoint [OF rel that(2), of s p] that(1) q by auto
      then show ?thesis using relinkedD(1) [OF un(4), of j] by auto
    qed
    have fin: "yields (rbind (book_level_is_empty s p (put_view s v3 (b\<lparr>order_index := ?m\<rparr>))) (\<lambda>e.
        if e then refresh_best_after_level_empty s p (prune_if_sparse_empty s p (put_view s v3 (b\<lparr>order_index := ?m\<rparr>)))
        else Inr (put_view s v3 (b\<lparr>order_index := ?m\<rparr>))))
      (\<lambda>b'. \<exists>v. b' = put_view s v (b\<lparr>order_index := ?m\<rparr>) \<and> side_rel ?base ?n s v ?h2 ((Q s)(p := xs @ ys)))"
      using q frame [of s] by (intro remove_finish [OF side refl refl refl v3(2) _ q2(1) D v3(3,4) dok]) auto
    show "yields (let b4 = b3\<lparr>order_index := (order_index b3)(o_id ord := None)\<rparr> in
     rbind (arena_free i ar1) (\<lambda>ar2.
     rbind (book_level_is_empty s p b4) (\<lambda>e.
     rbind (if e then refresh_best_after_level_empty s p (prune_if_sparse_empty s p b4)
            else Inr b4) (\<lambda>b5. Inr ((s, p), b5, ar2))))) (remove_post i ord b ar Q)"
      unfolding b4 Let_def
    proof (rule yields_bind [OF arena_free_spec [OF un(2) occ1]])
      fix ar2 assume ar2: "arena_inv ar2 \<and> heap_of ar2 = (heap_of ar1)(i := None) \<and>
           Suc (a_len ar2) = a_len ar1 \<and> a_capacity ar2 = a_capacity ar1"
      have core: "core_heap (heap_of ar2) = (core_heap ?h)(i := None)"
        using ar2 relinked_core [OF un(4)] by (simp add: core_heap_del)
      note slot = book_rel_empty_slot [OF rel ord core, of "xs @ ys", folded s_def p_def]
      have sub: "set (Q s p) - {i} \<subseteq> set (xs @ ys)" using q by auto
      have ok: "remove_post i ord b ar Q ((s, p), put_view s v (b\<lparr>order_index := ?m\<rparr>), ar2)"
        if "side_rel ?base ?n s v ?h2 ((Q s)(p := xs @ ys))" for v
      proof -
        have "book_rel (put_view s v (b\<lparr>order_index := ?m\<rparr>)) ar2 (upd_queue Q s p (xs @ ys))"
        proof (rule book_rel_change [OF rel])
          show "order_index (put_view s v (b\<lparr>order_index := ?m\<rparr>)) oid = Some j \<longleftrightarrow>
              (\<exists>x. heap_of ar2 j = Some x \<and> o_id x = oid)" for oid j
            using slot(2) [OF sub] by simp
          show "heap_of ar2 j = ?h j" if "j \<in> set (Q (opposite s) p')" for p' j
            using frame [of "opposite s" p' j] that ar2 by simp
        qed (use that ar2 slot(1,3) [OF sub] in simp_all)
        then show ?thesis using rm core by (simp add: remove_post_def s_def p_def)
      qed
      have "yields (rbind (rbind (book_level_is_empty s p (put_view s v3 (b\<lparr>order_index := ?m\<rparr>))) (\<lambda>e.
        if e then refresh_best_after_level_empty s p (prune_if_sparse_empty s p (put_view s v3 (b\<lparr>order_index := ?m\<rparr>)))
        else Inr (put_view s v3 (b\<lparr>order_index := ?m\<rparr>)))) (\<lambda>b5. Inr ((s, p), b5, ar2))) (remove_post i ord b ar Q)"
        by (rule yields_bind [OF fin]) (use ok in auto)
      then show "yields (rbind (book_level_is_empty s p (put_view s v3 (b\<lparr>order_index := ?m\<rparr>))) (\<lambda>e.
        rbind (if e then refresh_best_after_level_empty s p (prune_if_sparse_empty s p (put_view s v3 (b\<lparr>order_index := ?m\<rparr>)))
        else Inr (put_view s v3 (b\<lparr>order_index := ?m\<rparr>))) (\<lambda>b5. Inr ((s, p), b5, ar2)))) (remove_post i ord b ar Q)"
        unfolding rbind_assoc .
    qed
  qed
  then show ?thesis
    using arena_get_occupied [OF book_relD(1) [OF rel] ord] b1 un(1) rem_le
    by (simp add: remove_order_def Let_def cong: if_cong flip: s_def p_def)
qed

end
