(* ===== verification/Mx_Book_Frame.thy ===== *)
theory Mx_Book_Frame
  imports Mx_Book
begin

text \<open>
  What no operation of the order book changes: the instrument, the base price and the number of
  ticks of its window, and the capacity of the arena. Each fact holds of every successful call,
  whatever the state.
\<close>

definition same_window :: "order_book \<Rightarrow> order_book \<Rightarrow> bool" where
  "same_window b b' \<longleftrightarrow> dense_base_price b' = dense_base_price b \<and> dense_max_ticks b' = dense_max_ticks b \<and>
     instrument_id b' = instrument_id b"

named_theorems window_frames \<open>operations that leave the window alone\<close>

lemma same_window_refl [simp]: "same_window b b"
  by (simp add: same_window_def)

lemma same_window_trans: "same_window b c \<Longrightarrow> same_window c d \<Longrightarrow> same_window b d"
  by (simp add: same_window_def)

lemma same_window_put [simp]:
  "same_window b (put_dense s ls b') \<longleftrightarrow> same_window b b'" "same_window b (put_sparse s m b') \<longleftrightarrow> same_window b b'"
  "same_window b (b'\<lparr>order_index := idx\<rparr>) \<longleftrightarrow> same_window b b'"
  "same_window (b\<lparr>order_index := idx\<rparr>) b' \<longleftrightarrow> same_window b b'"
  by (cases s; simp add: same_window_def)+

lemma level_mut_window [window_frames]: "level_mut s p b = Inr (l, b') \<Longrightarrow> same_window b b'"
  by (auto simp: level_mut_def rbind_eq_Inr split: option.splits)

lemma level_store_window [window_frames]: "level_store s p l b = Inr b' \<Longrightarrow> same_window b b'"
  by (auto simp: level_store_def rbind_eq_Inr split: option.splits)

lemma depth_add_window [window_frames]: "depth_add s p q b = Inr b' \<Longrightarrow> same_window b b'"
  by (auto simp: depth_add_def rbind_eq_Inr same_window_def split: option.splits side.splits)

lemma depth_remove_window [window_frames]: "depth_remove s p q b = Inr b' \<Longrightarrow> same_window b b'"
  by (auto simp: depth_remove_def rbind_eq_Inr same_window_def split: option.splits side.splits)

lemma set_occupied_window [window_frames]: "set_occupied s i b = Inr b' \<Longrightarrow> same_window b b'"
  by (cases s) (auto simp: rbind_eq_Inr same_window_def)

lemma clear_occupied_window [window_frames]: "clear_occupied s i b = Inr b' \<Longrightarrow> same_window b b'"
  by (cases s) (auto simp: rbind_eq_Inr same_window_def)

lemma improve_best_window [simp]:
  "dense_base_price (improve_best s p b) = dense_base_price b"
  "dense_max_ticks (improve_best s p b) = dense_max_ticks b"
  "instrument_id (improve_best s p b) = instrument_id b"
  by (simp_all add: improve_best_def split: side.splits)

lemma prune_window [simp]:
  "dense_base_price (prune_if_sparse_empty s p b) = dense_base_price b"
  "dense_max_ticks (prune_if_sparse_empty s p b) = dense_max_ticks b"
  "instrument_id (prune_if_sparse_empty s p b) = instrument_id b"
  by (cases s; simp add: prune_if_sparse_empty_def split: option.splits)+

lemma refresh_window [window_frames]:
  assumes "refresh_best_after_level_empty s p b = Inr b'"
  shows "same_window b b'"
proof -
  from assms obtain b1 where b1: "(case dense_index b p of Some di \<Rightarrow> clear_occupied s di b | None \<Rightarrow> Inr b) = Inr b1"
    and rest: "(case s of
         Bid \<Rightarrow> if best_bid_tick b1 = Some p
                then rbind (next_best_bid b1) (\<lambda>best. Inr (b1\<lparr>best_bid_tick := best\<rparr>)) else Inr b1
       | Ask \<Rightarrow> if best_ask_tick b1 = Some p
                then rbind (next_best_ask b1) (\<lambda>best. Inr (b1\<lparr>best_ask_tick := best\<rparr>)) else Inr b1) = Inr b'"
    unfolding refresh_best_after_level_empty_def by (rule rbind_InrE)
  have "same_window b b1" using b1 by (auto split: option.splits dest: window_frames)
  moreover have "same_window b1 b'" using rest by (cases s) (auto simp: rbind_eq_Inr same_window_def split: if_splits)
  ultimately show ?thesis by (rule same_window_trans)
qed

lemma insert_order_window [window_frames]:
  "insert_order oid s p q ot vis stp b ar = Inr (r, b', ar') \<Longrightarrow> same_window b b'"
  unfolding insert_order_def
  by (auto simp: rbind_eq_Inr same_window_def split: if_splits option.splits dest!: window_frames)

lemma reduce_order_window [window_frames]:
  "reduce_order_qty i d b ar = Inr (b', ar') \<Longrightarrow> same_window b b'"
  unfolding reduce_order_qty_def
  by (auto simp: rbind_eq_Inr same_window_def dest!: window_frames)

lemma remove_order_window [window_frames]:
  "remove_order i b ar = Inr (r, b', ar') \<Longrightarrow> same_window b b'"
  unfolding remove_order_def Let_def
  by (auto simp: rbind_eq_Inr same_window_def split: if_splits dest!: window_frames)

subsection \<open>The capacity of the arena\<close>

named_theorems capacity_frames \<open>operations that leave the capacity alone\<close>

lemma arena_get_mut_capacity [capacity_frames]: "arena_get_mut i upd ar = Inr ar' \<Longrightarrow> a_capacity ar' = a_capacity ar"
  by (auto simp: arena_get_mut_def rbind_eq_Inr)

lemma arena_alloc_capacity [capacity_frames]: "arena_alloc x ar = Inr (r, ar') \<Longrightarrow> a_capacity ar' = a_capacity ar"
  by (auto simp: arena_alloc_def Let_def rbind_eq_Inr split: if_splits)

lemma arena_free_capacity [capacity_frames]: "arena_free i ar = Inr ar' \<Longrightarrow> a_capacity ar' = a_capacity ar"
  by (auto simp: arena_free_def rbind_eq_Inr split: if_splits)

lemma link_at_tail_capacity [capacity_frames]: "link_at_tail i l ar = Inr (r, ar') \<Longrightarrow> a_capacity ar' = a_capacity ar"
  by (auto simp: link_at_tail_def rbind_eq_Inr split: option.splits dest!: capacity_frames)

lemma unlink_capacity [capacity_frames]: "unlink x l ar = Inr (r, ar') \<Longrightarrow> a_capacity ar' = a_capacity ar"
  by (auto simp: unlink_def rbind_eq_Inr split: if_splits dest!: capacity_frames)

lemma insert_order_capacity [capacity_frames]:
  "insert_order oid s p q ot vis stp b ar = Inr (r, b', ar') \<Longrightarrow> a_capacity ar' = a_capacity ar"
  unfolding insert_order_def
  by (auto simp: rbind_eq_Inr split: if_splits option.splits dest!: capacity_frames)

lemma reduce_order_capacity [capacity_frames]:
  "reduce_order_qty i d b ar = Inr (b', ar') \<Longrightarrow> a_capacity ar' = a_capacity ar"
  unfolding reduce_order_qty_def by (auto simp: rbind_eq_Inr dest!: capacity_frames)

lemma remove_order_capacity [capacity_frames]:
  "remove_order i b ar = Inr (r, b', ar') \<Longrightarrow> a_capacity ar' = a_capacity ar"
  unfolding remove_order_def Let_def by (auto simp: rbind_eq_Inr split: if_splits dest!: capacity_frames)

end
