(* ===== verification/Mx_Engine_Inv.thy ===== *)
theory Mx_Engine_Inv
  imports Mx_Engine Mx_Book_Ops Mx_Book_Frame
begin

text \<open>
  The invariant of the engine and that matching keeps it: the book relates to a queue of arena
  slots for every side and price, and every resting order has quantity left. Matching reaches no
  panic other than the want of a machine resource, only removes or reduces resting orders, and
  stops for one of the reasons the code names.
\<close>

subsection \<open>Events\<close>

definition after_emit :: "(event_meta \<Rightarrow> match_event) \<Rightarrow> engine \<Rightarrow> engine" where
  "after_emit f e = e\<lparr>sequence := sequence e + 1, timestamp_ns := timestamp_ns e + 1,
     events := events e @ [f \<lparr>m_sequence = sequence e + 1, m_timestamp_ns = timestamp_ns e + 1\<rparr>]\<rparr>"

lemma after_emit_sel [simp]:
  "book (after_emit f e) = book e" "eng_arena (after_emit f e) = eng_arena e"
  "config (after_emit f e) = config e" "stop_bids (after_emit f e) = stop_bids e"
  "stop_asks (after_emit f e) = stop_asks e" "last_trade_price (after_emit f e) = last_trade_price e"
  "sequence (after_emit f e) = sequence e + 1" "timestamp_ns (after_emit f e) = timestamp_ns e + 1"
  "events (after_emit f e) = events e @ [f \<lparr>m_sequence = sequence e + 1, m_timestamp_ns = timestamp_ns e + 1\<rparr>]"
  by (simp_all add: after_emit_def)

lemma emit_Inr: "emit f e = Inr e' \<longleftrightarrow> e' = after_emit f e \<and>
    sequence e + 1 \<le> u64_max \<and> timestamp_ns e + 1 \<le> u64_max \<and> length (events e) < MAX_EVENTS_PER_CALL"
  by (auto simp: emit_def after_emit_def rbind_eq_Inr arith_results split: if_splits)

lemma yields_emit: "P (after_emit f e) \<Longrightarrow> yields (emit f e) P"
  by (simp add: emit_def after_emit_def)

lemma yields_bind_emit: "yields (g (after_emit f e)) P \<Longrightarrow> yields (rbind (emit f e) g) P"
  by (rule yields_bind [OF yields_emit [where P = "\<lambda>e'. e' = after_emit f e"]]) simp_all

subsection \<open>The invariant\<close>

definition live_ok :: "(arena_index \<rightharpoonup> order) \<Rightarrow> bool" where
  "live_ok h \<longleftrightarrow> (\<forall>i ord. h i = Some ord \<longrightarrow> 0 < remaining ord)"

definition book_ok :: "engine \<Rightarrow> queues \<Rightarrow> bool" where
  "book_ok e Q \<longleftrightarrow> book_rel (book e) (eng_arena e) Q \<and> live_ok (heap_of (eng_arena e))"

lemma book_okD:
  assumes "book_ok e Q"
  shows "book_rel (book e) (eng_arena e) Q" "heap_of (eng_arena e) i = Some ord \<Longrightarrow> 0 < remaining ord"
  using assms by (auto simp: book_ok_def live_ok_def)

lemma book_ok_frame:
  "book e' = book e \<Longrightarrow> eng_arena e' = eng_arena e \<Longrightarrow> book_ok e' Q \<longleftrightarrow> book_ok e Q"
  by (simp add: book_ok_def)

lemma book_ok_emit [simp]: "book_ok (after_emit f e) Q \<longleftrightarrow> book_ok e Q"
  by (simp add: book_ok_def)

text \<open>Orders leave the store or lose quantity; what identifies an order does not change.\<close>

definition shrinks :: "(arena_index \<rightharpoonup> order) \<Rightarrow> (arena_index \<rightharpoonup> order) \<Rightarrow> bool" where
  "shrinks h h' \<longleftrightarrow> (\<forall>i ord'. h' i = Some ord' \<longrightarrow> (\<exists>ord. h i = Some ord \<and>
     o_id ord' = o_id ord \<and> o_side ord' = o_side ord \<and> o_price ord' = o_price ord \<and>
     o_stp_group ord' = o_stp_group ord \<and> remaining ord' \<le> remaining ord))"

lemma shrinksD:
  assumes "shrinks h h'" "h' i = Some ord'"
  obtains ord where "h i = Some ord" "o_id ord' = o_id ord" "o_side ord' = o_side ord"
    "o_price ord' = o_price ord" "o_stp_group ord' = o_stp_group ord" "remaining ord' \<le> remaining ord"
  using assms unfolding shrinks_def by blast

lemma shrinks_refl [simp]: "shrinks h h"
  by (simp add: shrinks_def)

lemma shrinks_trans: "shrinks h h1 \<Longrightarrow> shrinks h1 h2 \<Longrightarrow> shrinks h h2"
  unfolding shrinks_def by (fastforce intro: order.trans)

lemma shrinks_core_del: "core_heap h' = (core_heap h)(i := None) \<Longrightarrow> shrinks h h'"
  unfolding shrinks_def
proof (intro allI impI)
  fix j ord' assume core: "core_heap h' = (core_heap h)(i := None)" and j: "h' j = Some ord'"
  have "core_heap h' j = Some (core ord')" using j by (simp add: core_heap_def)
  then have "core_heap h j = Some (core ord')" using core by (auto split: if_splits)
  then obtain ord where ord: "h j = Some ord" "core ord' = core ord" by (auto simp: core_heap_Some)
  then show "\<exists>ord. h j = Some ord \<and> o_id ord' = o_id ord \<and> o_side ord' = o_side ord \<and>
      o_price ord' = o_price ord \<and> o_stp_group ord' = o_stp_group ord \<and> remaining ord' \<le> remaining ord"
    using core_eqD [OF ord(2)] by auto
qed

lemma shrinks_fill: "h i = Some ord \<Longrightarrow> shrinks h (h(i \<mapsto> ord\<lparr>o_filled := o_filled ord + d\<rparr>))"
  by (auto simp: shrinks_def remaining_def)

lemma live_core_del:
  assumes "core_heap h' = (core_heap h)(i := None)" "\<And>j ord. j \<noteq> i \<Longrightarrow> h j = Some ord \<Longrightarrow> 0 < remaining ord"
  shows "live_ok h'"
  unfolding live_ok_def
proof (intro allI impI)
  fix j ord' assume j: "h' j = Some ord'"
  have "core_heap h' j = Some (core ord')" using j by (simp add: core_heap_def)
  then have "j \<noteq> i" "core_heap h j = Some (core ord')" using assms(1) by (auto split: if_splits)
  then obtain ord where ord: "h j = Some ord" "core ord' = core ord" by (auto simp: core_heap_Some)
  have "remaining ord' = remaining ord" by (rule core_eqD(4) [OF ord(2)])
  then show "0 < remaining ord'" using assms(2) [OF \<open>j \<noteq> i\<close> ord(1)] by simp
qed

subsection \<open>The operations on the book, from the engine\<close>

lemma eng_remove_spec:
  assumes rel: "book_rel (book e) (eng_arena e) Q" and ord: "heap_of (eng_arena e) i = Some ord"
    and others: "\<And>j a. j \<noteq> i \<Longrightarrow> heap_of (eng_arena e) j = Some a \<Longrightarrow> 0 < remaining a"
  shows "yields (eng_remove i e) (\<lambda>e'. \<exists>b ar. e' = e\<lparr>book := b, eng_arena := ar\<rparr> \<and>
    book_ok e' (upd_queue Q (o_side ord) (o_price ord) (remove1 i (Q (o_side ord) (o_price ord)))) \<and>
    core_heap (heap_of ar) = (core_heap (heap_of (eng_arena e)))(i := None))"
proof -
  have "0 < rem_at (heap_of (eng_arena e)) j" if "j \<in> set (Q (o_side ord) (o_price ord))" "j \<noteq> i" for j
    using book_rel_slot [OF rel that(1)] others [OF that(2)] by (auto simp: rem_at_def)
  note spec = remove_order_spec [OF rel ord this]
  show ?thesis unfolding eng_remove_def
  proof (rule yields_bind [OF spec])
    fix x assume x: "remove_post i ord (book e) (eng_arena e) Q x"
    obtain s p b ar where eq: "x = ((s, p), b, ar)" by (metis prod.exhaust)
    from x have post: "book_rel b ar (upd_queue Q (o_side ord) (o_price ord) (remove1 i (Q (o_side ord) (o_price ord))))"
      "core_heap (heap_of ar) = (core_heap (heap_of (eng_arena e)))(i := None)"
      by (auto simp: remove_post_def eq)
    have "live_ok (heap_of ar)" by (rule live_core_del [OF post(2)]) (use others in blast)
    then show "yields (case x of (_, b, ar) \<Rightarrow> Inr (e\<lparr>book := b, eng_arena := ar\<rparr>))
      (\<lambda>e'. \<exists>b ar. e' = e\<lparr>book := b, eng_arena := ar\<rparr> \<and>
        book_ok e' (upd_queue Q (o_side ord) (o_price ord) (remove1 i (Q (o_side ord) (o_price ord)))) \<and>
        core_heap (heap_of ar) = (core_heap (heap_of (eng_arena e)))(i := None))"
      using post by (auto simp: eq book_ok_def)
  qed
qed

text \<open>What a removal leaves, as one predicate on the engine before and after.\<close>

definition removed :: "arena_index \<Rightarrow> order \<Rightarrow> queues \<Rightarrow> engine \<Rightarrow> engine \<Rightarrow> bool" where
  "removed i ord Q e e' \<longleftrightarrow>
     book_ok e' (upd_queue Q (o_side ord) (o_price ord) (remove1 i (Q (o_side ord) (o_price ord)))) \<and>
     core_heap (heap_of (eng_arena e')) = (core_heap (heap_of (eng_arena e)))(i := None)"

lemma eng_remove_ok:
  assumes "book_ok e Q" "heap_of (eng_arena e) i = Some ord"
  shows "yields (eng_remove i e) (\<lambda>e'. removed i ord Q e e' \<and>
    (\<exists>b ar. e' = e\<lparr>book := b, eng_arena := ar\<rparr>))"
proof (rule yields_mono [OF eng_remove_spec [OF book_okD(1) [OF assms(1)] assms(2)]])
  show "0 < remaining a" if "heap_of (eng_arena e) j = Some a" for j a
    using book_okD(2) [OF assms(1) that] .
qed (auto simp: removed_def)

lemma removed_shrinks: "removed i ord Q e e' \<Longrightarrow> shrinks (heap_of (eng_arena e)) (heap_of (eng_arena e'))"
  by (auto simp: removed_def intro: shrinks_core_del)

lemma get_level_qty_ok:
  assumes "book_rel b ar Q"
  shows "get_level_qty s p b = Inr (sum_rem (heap_of ar) (Q s p))"
  using get_level_qty_spec [OF side_relD(1) [OF book_relD(2) [OF assms, of s]], of p]
    side_relD(3) [OF book_relD(2) [OF assms, of s], of p] by (simp add: queue_ok_def)

lemma best_opposing_view: "best_opposing sd b = v_best (view (opposite sd) b)"
  by (cases sd) (simp_all add: best_bid_def best_ask_def)

lemma opposing_level_ok:
  assumes rel: "book_rel b ar Q" and q: "Q (opposite sd) p \<noteq> []"
  shows "\<exists>l. opposing_level sd p b = Inr l \<and> head l = Some (hd (Q (opposite sd) p))"
proof -
  note side = book_relD(2) [OF rel, of "opposite sd"]
  note shape = side_relD(1) [OF side]
  let ?l = "vlevel (dense_base_price b) (dense_max_ticks b) (view (opposite sd) b) p"
  have "opposing_level sd p b = Inr ?l"
    using shape sparse_iff [OF side, of p] q
    by (cases sd) (auto simp: get_ask_level_def get_bid_level_def dense_index_tick vlevel_def vshape_def
        tick_of_Some split: option.splits)
  moreover have "ends_ok ?l (Q (opposite sd) p)" using side_relD(3) [OF side, of p] by (simp add: queue_ok_def)
  ultimately show ?thesis using q by (auto simp: ends_ok_def)
qed

text \<open>The best opposing price has a queue, whose head is a live order at that price.\<close>

lemma best_maker:
  assumes ok: "book_ok e Q" and best: "best_opposing sd (book e) = Some rp"
  obtains level i maker where "opposing_level sd rp (book e) = Inr level" "head level = Some i"
    "Q (opposite sd) rp \<noteq> []" "i = hd (Q (opposite sd) rp)"
    "heap_of (eng_arena e) i = Some maker" "arena_get (eng_arena e) i = Inr maker"
    "o_side maker = opposite sd" "o_price maker = rp" "0 < remaining maker"
proof -
  note rel = book_okD(1) [OF ok]
  have ne: "Q (opposite sd) rp \<noteq> []"
    using side_relD(5) [OF book_relD(2) [OF rel, of "opposite sd"]] best
    by (simp add: best_ok_def best_opposing_view)
  obtain level where level: "opposing_level sd rp (book e) = Inr level" "head level = Some (hd (Q (opposite sd) rp))"
    using opposing_level_ok [OF rel ne] by blast
  obtain maker where maker: "heap_of (eng_arena e) (hd (Q (opposite sd) rp)) = Some maker"
    "o_side maker = opposite sd" "o_price maker = rp"
    using book_rel_slot [OF rel hd_in_set [OF ne]] by blast
  from that [OF level ne refl maker(1) arena_get_occupied [OF book_relD(1) [OF rel] maker(1)] maker(2,3)
      book_okD(2) [OF ok maker(1)]]
  show ?thesis .
qed

subsection \<open>One turn of the matching loop\<close>

lemma level_mut_opposing: "level_mut_opposing sd p b = level_mut (opposite sd) p b"
  by (cases sd) (simp_all add: level_mut_opposing_def level_mut_def get_ask_level_mut_def get_bid_level_mut_def
      cong: option.case_cong)

text \<open>
  What one turn guarantees: the invariant, that orders only leave or shrink, and that the engine is
  otherwise unchanged but for the events, their counters and the last price.
\<close>

definition same_setting :: "engine \<Rightarrow> engine \<Rightarrow> bool" where
  "same_setting e e' \<longleftrightarrow> same_window (book e) (book e') \<and> a_capacity (eng_arena e') = a_capacity (eng_arena e)"

lemma same_setting_refl [simp]: "same_setting e e"
  by (simp add: same_setting_def)

lemma same_setting_trans: "same_setting e e1 \<Longrightarrow> same_setting e1 e2 \<Longrightarrow> same_setting e e2"
  by (auto simp: same_setting_def intro: same_window_trans)

lemma same_setting_cong [simp]:
  "same_setting e (after_emit f e') \<longleftrightarrow> same_setting e e'"
  "same_setting e (e'\<lparr>last_trade_price := x\<rparr>) \<longleftrightarrow> same_setting e e'"
  "same_setting (after_emit f e) e' \<longleftrightarrow> same_setting e e'"
  "same_setting (e\<lparr>events := evs\<rparr>) e' \<longleftrightarrow> same_setting e e'"
  by (simp_all add: same_setting_def)

definition kept :: "engine \<Rightarrow> engine \<Rightarrow> bool" where
  "kept e e' \<longleftrightarrow> (\<exists>Q. book_ok e' Q) \<and> shrinks (heap_of (eng_arena e)) (heap_of (eng_arena e')) \<and> same_stops e e' \<and>
     same_setting e e'"

lemma keptI: "book_ok e' Q \<Longrightarrow> shrinks (heap_of (eng_arena e)) (heap_of (eng_arena e')) \<Longrightarrow> same_stops e e' \<Longrightarrow>
    same_setting e e' \<Longrightarrow> kept e e'"
  by (auto simp: kept_def)

lemma kept_refl: "book_ok e Q \<Longrightarrow> kept e e"
  by (rule keptI) simp_all

lemma kept_trans: "kept e e1 \<Longrightarrow> kept e1 e2 \<Longrightarrow> kept e e2"
  by (auto simp: kept_def intro: shrinks_trans same_stops_trans same_setting_trans)

lemma kept_after_emit [simp]: "kept e (after_emit f e') \<longleftrightarrow> kept e e'"
  by (simp add: kept_def same_stops_def)

lemma kept_last_price [simp]: "kept e (e'\<lparr>last_trade_price := x\<rparr>) \<longleftrightarrow> kept e e'"
  by (simp add: kept_def same_stops_def book_ok_def)

lemma eng_remove_setting: "eng_remove i e = Inr e' \<Longrightarrow> same_setting e e'"
  by (auto simp: eng_remove_def rbind_eq_Inr same_setting_def dest: remove_order_window remove_order_capacity)

text \<open>
  \<open>d\<close> units are taken from the order at slot \<open>i\<close>: it leaves the store and its queue when
  nothing remains of it, and keeps its place otherwise.
\<close>

definition took :: "arena_index \<Rightarrow> order \<Rightarrow> nat \<Rightarrow> queues \<Rightarrow> engine \<Rightarrow> engine \<Rightarrow> bool" where
  "took i ord d Q e e' \<longleftrightarrow>
     book_ok e' (if d = remaining ord
       then upd_queue Q (o_side ord) (o_price ord) (remove1 i (Q (o_side ord) (o_price ord))) else Q) \<and>
     core_heap (heap_of (eng_arena e')) = (core_heap (heap_of (eng_arena e)))
       (i := if d = remaining ord then None else Some (core (ord\<lparr>o_filled := o_filled ord + d\<rparr>))) \<and>
     same_stops e e' \<and> same_setting e e'"

lemma took_emit [simp]: "took i ord d Q e (after_emit f e') \<longleftrightarrow> took i ord d Q e e'"
  by (simp add: took_def same_stops_def)

lemma took_last_price [simp]: "took i ord d Q e (e'\<lparr>last_trade_price := x\<rparr>) \<longleftrightarrow> took i ord d Q e e'"
  by (simp add: took_def same_stops_def book_ok_def)

lemma took_kept:
  assumes "took i ord d Q e e'" "heap_of (eng_arena e) i = Some ord"
  shows "kept e e'"
proof -
  let ?h = "heap_of (eng_arena e)" and ?ord = "ord\<lparr>o_filled := o_filled ord + d\<rparr>"
  have "shrinks ?h (heap_of (eng_arena e'))"
  proof (cases "d = remaining ord")
    case True
    then show ?thesis using assms(1) by (auto simp: took_def intro: shrinks_core_del)
  next
    case False
    then have core: "core_heap (heap_of (eng_arena e')) = (core_heap (?h(i \<mapsto> ?ord)))(i \<mapsto> core ?ord)"
      using assms(1) by (simp add: took_def core_heap_upd)
    have "shrinks (?h(i \<mapsto> ?ord)) (heap_of (eng_arena e'))"
      unfolding shrinks_def
    proof (intro allI impI)
      fix j ord' assume j: "heap_of (eng_arena e') j = Some ord'"
      have "core_heap (heap_of (eng_arena e')) j = Some (core ord')" using j by (simp add: core_heap_def)
      then have "core_heap (?h(i \<mapsto> ?ord)) j = Some (core ord')"
        using core by (simp add: core_heap_upd split: if_splits)
      then obtain a where a: "(?h(i \<mapsto> ?ord)) j = Some a" "core ord' = core a" by (auto simp: core_heap_Some)
      then show "\<exists>a. (?h(i \<mapsto> ?ord)) j = Some a \<and> o_id ord' = o_id a \<and> o_side ord' = o_side a \<and>
          o_price ord' = o_price a \<and> o_stp_group ord' = o_stp_group a \<and> remaining ord' \<le> remaining a"
        using core_eqD [OF a(2)] by auto
    qed
    then show ?thesis using shrinks_fill [where h = ?h, OF assms(2)] shrinks_trans by blast
  qed
  then show ?thesis using assms(1) unfolding took_def by (auto intro: keptI)
qed

lemma eng_remove_took:
  assumes "book_ok e Q" "heap_of (eng_arena e) i = Some ord"
  shows "yields (eng_remove i e) (\<lambda>e'. took i ord (remaining ord) Q e e' \<and> events e' = events e)"
proof (rule yields_mono [OF eng_remove_ok [OF assms]])
  fix e' assume run: "eng_remove i e = Inr e'" and "removed i ord Q e e' \<and> (\<exists>b ar. e' = e\<lparr>book := b, eng_arena := ar\<rparr>)"
  then show "took i ord (remaining ord) Q e e' \<and> events e' = events e"
    using eng_remove_setting [OF run] by (auto simp: took_def removed_def same_stops_def)
qed

lemma eng_remove_kept:
  assumes "book_ok e Q" "heap_of (eng_arena e) i = Some ord"
  shows "yields (eng_remove i e) (kept e)"
  by (rule yields_mono [OF eng_remove_took [OF assms]]) (use took_kept assms(2) in blast)

lemma eng_reduce_took:
  assumes "book_ok e Q" "heap_of (eng_arena e) i = Some ord" "d < remaining ord"
  shows "yields (eng_reduce i d e) (\<lambda>e'. took i ord d Q e e' \<and> events e' = events e)"
  unfolding eng_reduce_def
proof (rule yields_bind [OF reduce_order_spec [OF book_okD(1) [OF assms(1)] assms(2,3)]], clarify)
  fix b ar assume red: "reduce_order_qty i d (book e) (eng_arena e) = Inr (b, ar)" and rel: "book_rel b ar Q"
    and h: "heap_of ar = (heap_of (eng_arena e))(i \<mapsto> ord\<lparr>o_filled := o_filled ord + d\<rparr>)"
  have "live_ok (heap_of ar)"
    using book_okD(2) [OF assms(1)] assms(3) by (auto simp: live_ok_def h remaining_def)
  then have "book_ok (e\<lparr>book := b, eng_arena := ar\<rparr>) Q" using rel by (simp add: book_ok_def)
  then show "yields (Inr (e\<lparr>book := b, eng_arena := ar\<rparr>)) (\<lambda>e'. took i ord d Q e e' \<and> events e' = events e)"
    using assms(3) reduce_order_window [OF red] reduce_order_capacity [OF red]
    by (simp add: took_def h core_heap_upd same_stops_def same_setting_def)
qed

text \<open>A step that succeeds with the engine in a state that has the invariant.\<close>

lemma took_bind:
  assumes "yields m (\<lambda>e'. took i ord d Q e e' \<and> events e' = events e)"
    "\<And>e1 Q1. took i ord d Q e e1 \<Longrightarrow> events e1 = events e \<Longrightarrow> book_ok e1 Q1 \<Longrightarrow> yields (f e1) P"
  shows "yields (rbind m f) P"
  by (rule yields_bind [OF assms(1)]) (use assms(2) in \<open>auto simp: took_def\<close>)

lemma get_level_qty_bind:
  assumes "book_ok e Q" "\<And>q. yields (f q) P"
  shows "yields (rbind (get_level_qty s p (book e)) f) P"
  using assms get_level_qty_ok [OF book_okD(1) [OF assms(1)]] by simp

text \<open>The fills among a list of events: maker, taker, price and quantity.\<close>

fun fill_of :: "match_event \<Rightarrow> (order_id \<times> order_id \<times> nat \<times> nat) list" where
  "fill_of (FillEvent m maker taker price qty mr tr) = [(maker, taker, price, qty)]"
| "fill_of _ = []"

definition fills_in :: "match_event list \<Rightarrow> (order_id \<times> order_id \<times> nat \<times> nat) list" where
  "fills_in evs = concat (map fill_of evs)"

lemma fills_in_simps [simp]:
  "fills_in [] = []" "fills_in (ev # evs) = fill_of ev @ fills_in evs"
  "fills_in (evs @ evs') = fills_in evs @ fills_in evs'"
  by (simp_all add: fills_in_def)

abbreviation no_fills :: "engine \<Rightarrow> engine \<Rightarrow> bool" where
  "no_fills e e' \<equiv> fills_in (events e') = fills_in (events e)"

lemma cancel_maker_took:
  assumes "book_ok e Q" "heap_of (eng_arena e) i = Some ord"
  shows "yields (cancel_maker i oid s r p e) (\<lambda>e'. took i ord (remaining ord) Q e e' \<and> no_fills e e')"
  unfolding cancel_maker_def
proof (rule took_bind [OF eng_remove_took [OF assms]])
  fix e1 Q1 assume t: "took i ord (remaining ord) Q e e1" "events e1 = events e" "book_ok e1 Q1"
  show "yields (rbind (emit (\<lambda>meta. OrderCancelled meta oid r) e1) (\<lambda>e2.
      rbind (get_level_qty s p (book e2)) (\<lambda>level_qty. emit (\<lambda>meta. BookUpdate meta s p level_qty) e2)))
    (\<lambda>e'. took i ord (remaining ord) Q e e' \<and> no_fills e e')"
    by (rule yields_bind_emit, rule get_level_qty_bind [where Q = Q1]) (use t in \<open>simp_all add: yields_emit\<close>)
qed

text \<open>The step of self-trade prevention, mode by mode.\<close>

definition stp_post :: "stp_mode \<Rightarrow> arena_index \<Rightarrow> order \<Rightarrow> nat \<Rightarrow> engine \<Rightarrow> queues \<Rightarrow> step_outcome \<Rightarrow> bool" where
  "stp_post mode i maker rem e Q out \<longleftrightarrow>
     (let d = min rem (remaining maker) in
      case mode of
        CancelNewest \<Rightarrow> out = Finish False rem e
      | CancelOldest \<Rightarrow> (\<exists>e1. out = Continue rem e1 \<and> took i maker (remaining maker) Q e e1 \<and> no_fills e e1)
      | CancelBoth \<Rightarrow> (\<exists>e1. out = Finish True rem e1 \<and> took i maker (remaining maker) Q e e1 \<and> no_fills e e1)
      | DecrementAndCancel \<Rightarrow> (\<exists>e1. out = Finish True (rem - d) e1 \<and> took i maker d Q e e1 \<and> no_fills e e1))"

lemma stp_step_spec:
  assumes "book_ok e Q" "heap_of (eng_arena e) i = Some maker"
  shows "yields (stp_step mode i maker rp rem e) (stp_post mode i maker rem e Q)"
proof (cases mode)
  case CancelNewest
  then show ?thesis by (simp add: stp_step_def stp_post_def Let_def)
next
  case CancelOldest
  then show ?thesis unfolding stp_step_def stp_post_def Let_def
    by (auto intro!: yields_bind [OF cancel_maker_took [OF assms]])
next
  case CancelBoth
  then show ?thesis unfolding stp_step_def stp_post_def Let_def
    by (auto intro!: yields_bind [OF cancel_maker_took [OF assms]])
next
  case DecrementAndCancel
  let ?d = "min rem (remaining maker)"
  have first: "yields (if remaining maker = ?d then eng_remove i e else eng_reduce i ?d e)
      (\<lambda>e'. took i maker ?d Q e e' \<and> events e' = events e)"
    using eng_remove_took [OF assms] eng_reduce_took [OF assms, of ?d] by auto
  have "yields (rbind (if remaining maker = ?d then eng_remove i e else eng_reduce i ?d e) (\<lambda>e1.
      rbind (get_level_qty (o_side maker) rp (book e1)) (\<lambda>level_qty.
      rbind (emit (\<lambda>meta. BookUpdate meta (o_side maker) rp level_qty) e1) (\<lambda>e2.
      rbind (sub_u rem ?d) (\<lambda>rem'. Inr (Finish True rem' e2))))))
    (stp_post mode i maker rem e Q)"
  proof (rule took_bind [OF first])
    fix e1 Q1 assume t: "took i maker ?d Q e e1" "events e1 = events e" "book_ok e1 Q1"
    show "yields (rbind (get_level_qty (o_side maker) rp (book e1)) (\<lambda>level_qty.
      rbind (emit (\<lambda>meta. BookUpdate meta (o_side maker) rp level_qty) e1) (\<lambda>e2.
      rbind (sub_u rem ?d) (\<lambda>rem'. Inr (Finish True rem' e2)))))
      (stp_post mode i maker rem e Q)"
      by (rule get_level_qty_bind [OF t(3)], rule yields_bind_emit)
        (use t in \<open>auto simp: stp_post_def Let_def DecrementAndCancel\<close>)
  qed
  then show ?thesis by (simp add: stp_step_def Let_def DecrementAndCancel)
qed

lemma stp_step_kept:
  assumes "book_ok e Q" "heap_of (eng_arena e) i = Some maker"
  shows "yields (stp_step mode i maker rp rem e) (\<lambda>out. kept e (outcome_engine out))"
  by (rule yields_mono [OF stp_step_spec [OF assms]])
    (use took_kept [OF _ assms(2)] kept_refl [OF assms(1)] in \<open>auto simp: stp_post_def Let_def split: stp_mode.splits\<close>)

text \<open>
  The fill of a maker: what it does to the queue, the events it emits with their exact contents,
  and the last price. The maker is filled by the smaller of the taker's rest and its matchable
  quantity; it keeps its place in the queue unless nothing of it remains.
\<close>

definition fill_post ::
  "order_id \<Rightarrow> side \<Rightarrow> arena_index \<Rightarrow> order \<Rightarrow> nat \<Rightarrow> nat \<Rightarrow> engine \<Rightarrow> queues \<Rightarrow> step_outcome \<Rightarrow> bool" where
  "fill_post tid sd i maker rp rem e Q out \<longleftrightarrow>
     (let d = min rem (matchable_qty maker); q = Q (opposite sd) rp in
      \<exists>e' m1 m2. out = Continue (rem - d) e' \<and> took i maker d Q e e' \<and>
        events e' = events e @
          [FillEvent m1 (o_id maker) tid rp d (remaining maker - d) (rem - d),
           BookUpdate m2 (opposite sd) rp (sum_rem (heap_of (eng_arena e)) q - d)] \<and>
        last_trade_price e' = Some rp)"

lemma fill_step_spec:
  assumes ok: "book_ok e Q" and maker: "heap_of (eng_arena e) i = Some maker"
    and at: "o_side maker = opposite sd" "o_price maker = rp"
  shows "yields (fill_step tid sd i maker rp rem e) (fill_post tid sd i maker rp rem e Q)"
proof -
  define d where "d = min rem (matchable_qty maker)"
  let ?h = "heap_of (eng_arena e)" and ?maker = "maker\<lparr>o_filled := o_filled maker + d\<rparr>" and ?q = "Q (opposite sd) rp"
  note rel = book_okD(1) [OF ok]
  have d: "d \<le> rem" "d \<le> remaining maker" using matchable_le_remaining [of maker] by (simp_all add: d_def)
  obtain ar1 level b1 b2 where run: "arena_get_mut i (\<lambda>x. x\<lparr>o_filled := o_filled maker + d\<rparr>) (eng_arena e) = Inr ar1"
      "level_mut (opposite sd) rp (book e) = Inr (level, b1)" "d \<le> total_quantity level"
      "level_store (opposite sd) rp (level\<lparr>total_quantity := total_quantity level - d\<rparr>) b1 = Inr b2"
    and rel2: "book_rel b2 ar1 Q" and h1: "heap_of ar1 = ?h(i \<mapsto> ?maker)"
    using fill_book_spec [OF rel maker d(2) at] by blast
  have get: "arena_get ar1 i = Inr ?maker"
    by (rule arena_get_occupied [OF book_relD(1) [OF rel2]]) (simp add: h1)
  have rem': "remaining ?maker = remaining maker - d" using fill_remaining(1) [OF d(2)] by simp
  have i: "i \<in> set ?q" using book_relD(3) [OF rel maker] at by simp
  have qok: "queue_ok ?h (opposite sd) rp (vlevel (dense_base_price (book e)) (dense_max_ticks (book e)) (view (opposite sd) (book e)) rp) ?q"
    by (rule side_relD(3) [OF book_relD(2) [OF rel]])
  have "sum_rem (heap_of ar1) ?q + d = sum_rem ?h ?q"
    using queue_ok_fill(2) [OF qok i maker refl fill_remaining(1) [OF d(2)]] by (simp add: h1)
  then have q: "get_level_qty (opposite sd) rp b2 = Inr (sum_rem ?h ?q - d)"
    using get_level_qty_ok [OF rel2] by simp
  let ?e2 = "after_emit (\<lambda>meta. FillEvent meta (o_id maker) tid rp d (remaining maker - d) (rem - d))
      (e\<lparr>book := b2, eng_arena := ar1\<rparr>)"
  let ?e4 = "after_emit (\<lambda>meta. BookUpdate meta (opposite sd) rp (sum_rem ?h ?q - d)) (?e2\<lparr>last_trade_price := Some rp\<rparr>)"
  have others: "0 < remaining a" if "j \<noteq> i" "heap_of ar1 j = Some a" for j a
    using that book_okD(2) [OF ok] by (simp add: h1)
  have setting: "same_setting e ?e4"
    using same_window_trans [OF level_mut_window [OF run(2)] level_store_window [OF run(4)]]
      arena_get_mut_capacity [OF run(1)] by (simp add: same_setting_def)
  have last: "yields (if remaining maker - d = 0 then eng_remove i ?e4 else Inr ?e4)
     (\<lambda>e'. (\<exists>b ar. e' = ?e4\<lparr>book := b, eng_arena := ar\<rparr>) \<and> took i maker d Q e e')"
  proof (cases "remaining maker - d = 0")
    case False
    have "live_ok (heap_of ar1)" using others False by (auto simp: live_ok_def h1 rem' split: if_splits)
    then have "took i maker d Q e ?e4"
      using rel2 False d(2) setting by (simp add: took_def book_ok_def h1 core_heap_upd same_stops_def)
    then show ?thesis using False by (auto intro!: exI [of _ b2] exI [of _ ar1])
  next
    case True
    then have dr: "d = remaining maker" using d(2) by simp
    have rel4: "book_rel (book ?e4) (eng_arena ?e4) Q" and o4: "heap_of (eng_arena ?e4) i = Some ?maker"
      using rel2 by (simp_all add: h1)
    have "yields (eng_remove i ?e4) (\<lambda>e'. \<exists>b ar. e' = ?e4\<lparr>book := b, eng_arena := ar\<rparr> \<and>
      book_ok e' (upd_queue Q (o_side ?maker) (o_price ?maker) (remove1 i (Q (o_side ?maker) (o_price ?maker)))) \<and>
      core_heap (heap_of ar) = (core_heap (heap_of (eng_arena ?e4)))(i := None))"
      by (rule eng_remove_spec [OF rel4 o4]) (use others in simp)
    then have "yields (eng_remove i ?e4) (\<lambda>e'. (\<exists>b ar. e' = ?e4\<lparr>book := b, eng_arena := ar\<rparr>) \<and> took i maker d Q e e')"
    proof (rule yields_mono, elim exE conjE)
      fix e' b ar assume rm: "eng_remove i ?e4 = Inr e'" and e': "e' = ?e4\<lparr>book := b, eng_arena := ar\<rparr>"
        and ok': "book_ok e' (upd_queue Q (o_side ?maker) (o_price ?maker) (remove1 i (Q (o_side ?maker) (o_price ?maker))))"
        and core: "core_heap (heap_of ar) = (core_heap (heap_of (eng_arena ?e4)))(i := None)"
      have "same_setting e e'" by (rule same_setting_trans [OF setting eng_remove_setting [OF rm]])
      moreover have "core_heap (heap_of ar) = (core_heap ?h)(i := None)" using core by (simp add: h1 core_heap_upd)
      ultimately have "took i maker d Q e e'"
        unfolding took_def using ok' dr by (simp add: e' same_stops_def)
      then show "(\<exists>b ar. e' = ?e4\<lparr>book := b, eng_arena := ar\<rparr>) \<and> took i maker d Q e e'" using e' by blast
    qed
    then show ?thesis using True by simp
  qed
  show ?thesis
    unfolding fill_step_def Let_def d_def [symmetric] yields_bind_add_u64
  proof (intro impI, unfold run(1) rbind_simps level_mut_opposing run(2) prod.case, unfold run(4) sub_u_le [OF run(3)] sub_u_le [OF d(1)] rbind_simps get)
    show "yields (rbind (emit (\<lambda>meta. FillEvent meta (o_id maker) tid rp d (remaining ?maker) (rem - d))
        (e\<lparr>book := b2, eng_arena := ar1\<rparr>)) (\<lambda>e2.
      rbind (get_level_qty (o_side maker) rp (book (e2\<lparr>last_trade_price := Some rp\<rparr>))) (\<lambda>level_qty.
      rbind (emit (\<lambda>meta. BookUpdate meta (o_side maker) rp level_qty) (e2\<lparr>last_trade_price := Some rp\<rparr>)) (\<lambda>e4.
      rbind (if remaining ?maker = 0 then eng_remove i e4 else Inr e4) (\<lambda>e5. Inr (Continue (rem - d) e5))))))
      (fill_post tid sd i maker rp rem e Q)"
      unfolding rem' at(1)
    proof (rule yields_bind_emit)
      have "yields (rbind (emit (\<lambda>meta. BookUpdate meta (opposite sd) rp (sum_rem ?h ?q - d)) (?e2\<lparr>last_trade_price := Some rp\<rparr>)) (\<lambda>e4.
          rbind (if remaining maker - d = 0 then eng_remove i e4 else Inr e4) (\<lambda>e5. Inr (Continue (rem - d) e5))))
        (fill_post tid sd i maker rp rem e Q)"
        by (rule yields_bind_emit, rule yields_bind [OF last], unfold yields_simps)
          (auto simp: fill_post_def Let_def simp flip: d_def)
      then show "yields (rbind (get_level_qty (opposite sd) rp (book (?e2\<lparr>last_trade_price := Some rp\<rparr>))) (\<lambda>level_qty.
          rbind (emit (\<lambda>meta. BookUpdate meta (opposite sd) rp level_qty) (?e2\<lparr>last_trade_price := Some rp\<rparr>)) (\<lambda>e4.
          rbind (if remaining maker - d = 0 then eng_remove i e4 else Inr e4) (\<lambda>e5. Inr (Continue (rem - d) e5)))))
        (fill_post tid sd i maker rp rem e Q)"
        by (simp add: q del: diff_is_0_eq)
    qed
  qed
qed

end
