(* ===== verification/Mx_Liquidity.thy ===== *)
theory Mx_Liquidity
  imports Mx_Book_Ops
begin

text \<open>
  The depth the book reports against a limit price. The indices are kept at or above the quantity
  that rests, so the report is never below the quantity of the resting orders at acceptable prices.
\<close>

text \<open>The resting quantity on one side at prices that satisfy a predicate, order by order.\<close>

definition resting_qty :: "side \<Rightarrow> (nat \<Rightarrow> bool) \<Rightarrow> arena \<Rightarrow> nat" where
  "resting_qty s P ar = sum_list (map (\<lambda>i. case heap_of ar i of None \<Rightarrow> 0
     | Some ord \<Rightarrow> if o_side ord = s \<and> P (o_price ord) then remaining ord else 0) [0..<a_capacity ar])"

definition depth_sum :: "nat \<Rightarrow> nat list \<Rightarrow> sparse_index \<Rightarrow> (nat \<Rightarrow> bool) \<Rightarrow> nat" where
  "depth_sum base A s P = (\<Sum>i | i < length A \<and> P (base + i). A ! i) + sparse_sum P s"

lemma sum_list_take_sum: "k \<le> length A \<Longrightarrow> sum_list (take k A) = (\<Sum>i<k. A ! i)"
  by (simp add: sum_list_sum_nth atLeast0LessThan)

lemma sum_list_sum: "sum_list A = (\<Sum>i<length A. A ! i)"
  by (simp add: sum_list_sum_nth atLeast0LessThan)

lemma sum_list_drop_sum: "sum_list (drop k (A :: nat list)) = (\<Sum>i | k \<le> i \<and> i < length A. A ! i)"
proof (cases "k \<le> length A")
  case True
  have "sum_list (drop k A) = (\<Sum>i<length A - k. A ! (k + i))"
    by (simp add: sum_list_sum_nth atLeast0LessThan add.commute)
  also have "\<dots> = (\<Sum>i | k \<le> i \<and> i < length A. A ! i)"
    by (rule sum.reindex_bij_witness [of _ "\<lambda>i. i - k" "\<lambda>i. k + i"]) auto
  finally show ?thesis .
qed simp

lemma sparse_sum_mono:
  assumes "\<And>p. p \<in> set (si_prices s) \<Longrightarrow> P p \<Longrightarrow> P' p"
  shows "sparse_sum P s \<le> sparse_sum P' s"
proof -
  have "sum_list (map snd (filter (P \<circ> fst) xs)) \<le> sum_list (map snd (filter (P' \<circ> fst) xs))"
    if "fst ` set xs \<subseteq> set (si_prices s)" for xs :: "(nat \<times> nat) list"
    using that assms by (induction xs) (auto intro: trans_le_add2)
  moreover have "fst ` set (entries s) \<subseteq> set (si_prices s)" by (auto simp: entries_def dest: set_zip_leftD)
  ultimately show ?thesis unfolding sparse_sum_def by blast
qed

lemma sparse_keys_outside:
  assumes "sparse_inv s" "\<forall>p. tick_of base n p \<noteq> None \<longrightarrow> sparse_map s p = None" "p \<in> set (si_prices s)"
  shows "tick_of base n p = None"
  using assms(2) [rule_format, of p] assms(3) sparse_map_None [OF assms(1), of p] by (cases "tick_of base n p") simp_all

subsection \<open>The reported depth is at least the depth of the indices\<close>

lemma yields_sum_at_or_below:
  "sparse_inv s \<Longrightarrow> yields (sum_at_or_below px s) (\<lambda>v. v = sparse_sum (\<lambda>p. p \<le> px) s)"
  by (simp add: sum_at_or_below_eq)

lemma yields_sum_at_or_above:
  "sparse_inv s \<Longrightarrow> yields (sum_at_or_above px s) (\<lambda>v. v = sparse_sum (\<lambda>p. px \<le> p) s)"
  using sum_at_or_above_cases [of s px] by auto

lemma yields_dense_total:
  assumes "fenwick_rel t A" "length A = n"
  shows "yields (if 0 < n then prefix_sum (n - 1) t else Inr 0) (\<lambda>v. v = sum_list A)"
  using fw.sum_last [OF assms(1)] assms(2) by (cases "A = []") auto

lemma ask_available_ge:
  assumes A: "fenwick_rel (ask_depth_index b) A" "length A = dense_max_ticks b"
    and sp: "sparse_inv (asks_sparse_index b)"
    and out: "\<And>p. p \<in> set (si_prices (asks_sparse_index b)) \<Longrightarrow> tick_of (dense_base_price b) (dense_max_ticks b) p = None"
  shows "yields (ask_available_at_or_below px b)
    (\<lambda>v. depth_sum (dense_base_price b) A (asks_sparse_index b) (\<lambda>p. p \<le> px) \<le> v)"
proof -
  let ?base = "dense_base_price b" and ?n = "dense_max_ticks b" and ?s = "asks_sparse_index b"
  note below = yields_sum_at_or_below [OF sp]
  show ?thesis
  proof (cases "dense_index b px")
    case (Some i)
    then have i: "i < ?n" "px = ?base + i" by (simp_all add: dense_index_tick tick_of_Some)
    have pre: "yields (prefix_sum_le i (ask_depth_index b)) (\<lambda>v. v = sum_list (take (Suc i) A))"
      using fw.sum_eq [OF A(1), of i] i(1) A(2) by (simp add: prefix_sum_le_def)
    have dense: "(\<Sum>j | j < length A \<and> ?base + j \<le> px. A ! j) = sum_list (take (Suc i) A)"
    proof -
      have "{j. j < length A \<and> ?base + j \<le> px} = {..<Suc i}" using i A(2) by auto
      then show ?thesis using i(1) A(2) sum_list_take_sum [of "Suc i" A] by simp
    qed
    have sparse: "sparse_sum (\<lambda>p. p \<le> px) ?s \<le> sparse_sum (\<lambda>p. p \<le> ?base - 1) ?s"
    proof (rule sparse_sum_mono)
      fix p assume p: "p \<in> set (si_prices ?s)" "p \<le> px"
      have "\<not> (?base \<le> p \<and> p - ?base < ?n)" using out [OF p(1)] by (simp add: tick_of_def split: if_splits)
      then show "p \<le> ?base - 1" using p(2) i by linarith
    qed
    show ?thesis
      unfolding ask_available_at_or_below_def Some option.case Let_def
      by (rule yields_bind [OF pre], rule yields_bind [OF below])
        (use dense sparse in \<open>simp add: depth_sum_def\<close>)
  next
    case None
    then have none: "\<And>i. i < ?n \<Longrightarrow> px \<noteq> ?base + i" by (simp add: dense_index_tick tick_of_None)
    show ?thesis
    proof (cases "saturating_add_u64 ?base ?n \<le> px")
      case True
      have dense: "(\<Sum>j | j < length A \<and> ?base + j \<le> px. A ! j) \<le> sum_list A"
        unfolding sum_list_sum by (rule sum_mono2) auto
      show ?thesis
        unfolding ask_available_at_or_below_def None option.case Let_def if_P [OF True]
        by (rule yields_bind [OF yields_dense_total [OF A]], rule yields_bind [OF below])
          (use dense in \<open>simp add: depth_sum_def\<close>)
    next
      case False
      have "\<not> (j < length A \<and> ?base + j \<le> px)" for j
      proof
        assume "j < length A \<and> ?base + j \<le> px"
        then have "px - ?base < ?n \<or> ?base + ?n \<le> px" "?base \<le> px" by linarith+
        then show False using none [of "px - ?base"] False by (auto simp: saturating_add_u64_def)
      qed
      then have "{j. j < length A \<and> ?base + j \<le> px} = {}" by blast
      then have dense: "(\<Sum>j | j < length A \<and> ?base + j \<le> px. A ! j) = 0" by (simp only: sum.empty)
      show ?thesis
        unfolding ask_available_at_or_below_def None option.case Let_def if_not_P [OF False]
        by (rule yields_mono [OF below]) (simp add: depth_sum_def dense)
    qed
  qed
qed

lemma bid_available_ge:
  assumes A: "fenwick_rel (bid_depth_index b) A" "length A = dense_max_ticks b"
    and sp: "sparse_inv (bids_sparse_index b)"
    and out: "\<And>p. p \<in> set (si_prices (bids_sparse_index b)) \<Longrightarrow> tick_of (dense_base_price b) (dense_max_ticks b) p = None"
  shows "yields (bid_available_at_or_above px b)
    (\<lambda>v. depth_sum (dense_base_price b) A (bids_sparse_index b) (\<lambda>p. px \<le> p) \<le> v)"
proof -
  let ?base = "dense_base_price b" and ?n = "dense_max_ticks b" and ?s = "bids_sparse_index b"
  note above = yields_sum_at_or_above [OF sp]
  show ?thesis
  proof (cases "dense_index b px")
    case (Some i)
    then have i: "i < ?n" "px = ?base + i" by (simp_all add: dense_index_tick tick_of_Some)
    have suf: "yields (suffix_sum_ge i (bid_depth_index b)) (\<lambda>v. v = sum_list (drop i A))"
      using suffix_sum_ge_eq [OF A(1), of i] i(1) A(2) by simp
    have dense: "(\<Sum>j | j < length A \<and> px \<le> ?base + j. A ! j) = sum_list (drop i A)"
      using i by (simp add: sum_list_drop_sum conj_commute)
    have sparse: "sparse_sum (\<lambda>p. px \<le> p) ?s \<le> sparse_sum (\<lambda>p. saturating_add_u64 ?base ?n \<le> p) ?s"
    proof (rule sparse_sum_mono)
      fix p assume p: "p \<in> set (si_prices ?s)" "px \<le> p"
      have "p \<noteq> ?base + (p - ?base) \<or> \<not> p - ?base < ?n" using out [OF p(1)] by (auto simp: tick_of_None)
      then show "saturating_add_u64 ?base ?n \<le> p" using p(2) i by (simp add: saturating_add_u64_def)
    qed
    show ?thesis
      unfolding bid_available_at_or_above_def Some option.case Let_def
      by (rule yields_bind [OF suf], rule yields_bind [OF above])
        (use dense sparse in \<open>simp add: depth_sum_def\<close>)
  next
    case None
    then have none: "\<And>i. i < ?n \<Longrightarrow> px \<noteq> ?base + i" by (simp add: dense_index_tick tick_of_None)
    show ?thesis
    proof (cases "px < ?base")
      case True
      have dense: "(\<Sum>j | j < length A \<and> px \<le> ?base + j. A ! j) \<le> sum_list A"
        unfolding sum_list_sum by (rule sum_mono2) auto
      show ?thesis
        unfolding bid_available_at_or_above_def None option.case Let_def if_P [OF True]
        by (rule yields_bind [OF yields_dense_total [OF A]], rule yields_bind [OF above])
          (use dense in \<open>simp add: depth_sum_def\<close>)
    next
      case False
      have "\<not> (j < length A \<and> px \<le> ?base + j)" for j
      proof
        assume j: "j < length A \<and> px \<le> ?base + j"
        then have "px - ?base < ?n" using A(2) False by linarith
        then show False using none [of "px - ?base"] False by simp
      qed
      then have "{j. j < length A \<and> px \<le> ?base + j} = {}" by blast
      then have dense: "(\<Sum>j | j < length A \<and> px \<le> ?base + j. A ! j) = 0" by (simp only: sum.empty)
      show ?thesis
        unfolding bid_available_at_or_above_def None option.case Let_def if_not_P [OF False]
        by (rule yields_mono [OF above]) (simp add: depth_sum_def dense)
    qed
  qed
qed

subsection \<open>The depth of the indices is at least what rests\<close>

lemma resting_qty_sum:
  "resting_qty s P ar = (\<Sum>i | i < a_capacity ar \<and> (\<exists>ord. heap_of ar i = Some ord \<and> o_side ord = s \<and> P (o_price ord)).
     rem_at (heap_of ar) i)" (is "_ = sum _ ?S")
proof -
  let ?f = "\<lambda>i. case heap_of ar i of None \<Rightarrow> 0
     | Some ord \<Rightarrow> if o_side ord = s \<and> P (o_price ord) then remaining ord else 0"
  have "resting_qty s P ar = (\<Sum>i<a_capacity ar. ?f i)"
    unfolding resting_qty_def by (simp add: sum_list_distinct_conv_sum_set atLeast0LessThan)
  also have "\<dots> = (\<Sum>i \<in> ?S. ?f i)"
    by (rule sum.mono_neutral_right) (auto split: option.splits)
  also have "\<dots> = sum (rem_at (heap_of ar)) ?S"
    by (rule sum.cong) (auto simp: rem_at_def)
  finally show ?thesis .
qed

lemma resting_qty_queues:
  assumes rel: "book_rel b ar Q" and fin: "finite {p. P p \<and> Q s p \<noteq> []}"
  shows "resting_qty s P ar = (\<Sum>p | P p \<and> Q s p \<noteq> []. sum_rem (heap_of ar) (Q s p))"
proof -
  have set: "{i. i < a_capacity ar \<and> (\<exists>ord. heap_of ar i = Some ord \<and> o_side ord = s \<and> P (o_price ord))} =
      (\<Union>p \<in> {p. P p \<and> Q s p \<noteq> []}. set (Q s p))" (is "?S = ?U")
  proof (intro subset_antisym subsetI)
    fix i assume "i \<in> ?S"
    then obtain ord where "heap_of ar i = Some ord" "o_side ord = s" "P (o_price ord)" by blast
    then show "i \<in> ?U" using book_relD(3) [OF rel, of i ord] by (auto intro!: exI [of _ "o_price ord"])
  next
    fix i assume "i \<in> ?U"
    then obtain p where p: "P p" "i \<in> set (Q s p)" by blast
    then obtain ord where ord: "heap_of ar i = Some ord" "o_side ord = s" "o_price ord = p"
      using book_rel_slot [OF rel] by blast
    then show "i \<in> ?S" using heap_of_Some_less [OF book_relD(1) [OF rel]] p by auto
  qed
  have dist: "distinct (Q s p)" for p
    using side_relD(3) [OF book_relD(2) [OF rel, of s], of p] by (simp add: queue_ok_def)
  have "sum (rem_at (heap_of ar)) ?U = (\<Sum>p | P p \<and> Q s p \<noteq> []. sum (rem_at (heap_of ar)) (set (Q s p)))"
  proof (rule sum.UNION_disjoint [OF fin])
    show "\<forall>p \<in> {p. P p \<and> Q s p \<noteq> []}. \<forall>p' \<in> {p. P p \<and> Q s p \<noteq> []}. p \<noteq> p' \<longrightarrow> set (Q s p) \<inter> set (Q s p') = {}"
      using book_rel_disjoint [OF rel, of _ s _ s] by blast
  qed simp
  then show ?thesis
    unfolding resting_qty_sum set using dist by (simp add: sum_rem_def sum_list_distinct_conv_sum_set)
qed

lemma resting_le_depth:
  assumes rel: "book_rel b ar Q" and depth: "depth_rel (dense_base_price b) (dense_max_ticks b) (view s b) D"
    and ok: "\<And>p. depth_ok D (heap_of ar) p (Q s p)"
    and A: "length A = dense_max_ticks b" "\<And>i. i < dense_max_ticks b \<Longrightarrow> D (dense_base_price b + i) = Some (A ! i)"
  shows "resting_qty s P ar \<le> depth_sum (dense_base_price b) A (v_sidx (view s b)) P"
proof -
  let ?base = "dense_base_price b" and ?n = "dense_max_ticks b" and ?s = "v_sidx (view s b)"
  let ?W = "(+) ?base ` {i. i < ?n \<and> P (?base + i)}" and ?K = "{p \<in> dom (sparse_map ?s). P p}"
  have sp: "sparse_inv ?s" "\<And>p. tick_of ?base ?n p = None \<Longrightarrow> D p = sparse_map ?s p"
    "\<And>p. tick_of ?base ?n p \<noteq> None \<Longrightarrow> sparse_map ?s p = None" using depth by (auto simp: depth_rel_def)
  have finK: "finite ?K"
  proof (rule finite_subset [of _ "set (si_prices ?s)"], rule subsetI)
    show "p \<in> set (si_prices ?s)" if "p \<in> ?K" for p using that sparse_map_None [OF sp(1), of p] by auto
  qed simp
  have sub: "{p. P p \<and> Q s p \<noteq> []} \<subseteq> ?W \<union> ?K"
  proof
    fix p assume p: "p \<in> {p. P p \<and> Q s p \<noteq> []}"
    then have D: "D p \<noteq> None" using ok [of p] by (auto simp: depth_ok_def)
    show "p \<in> ?W \<union> ?K"
    proof (cases "tick_of ?base ?n p")
      case None
      then show ?thesis using D sp(2) p by auto
    next
      case (Some i)
      then show ?thesis using p by (auto simp: tick_of_Some)
    qed
  qed
  have fin: "finite {p. P p \<and> Q s p \<noteq> []}" by (rule finite_subset [OF sub]) (use finK in simp)
  have "resting_qty s P ar = (\<Sum>p | P p \<and> Q s p \<noteq> []. sum_rem (heap_of ar) (Q s p))"
    by (rule resting_qty_queues [OF rel fin])
  also have "\<dots> \<le> (\<Sum>p | P p \<and> Q s p \<noteq> []. the (D p))"
    using ok by (intro sum_mono) (fastforce simp: depth_ok_def)
  also have "\<dots> \<le> (\<Sum>p \<in> ?W \<union> ?K. the (D p))"
    by (rule sum_mono2) (use finK sub in auto)
  also have "\<dots> = (\<Sum>p \<in> ?W. the (D p)) + (\<Sum>p \<in> ?K. the (D p))"
  proof (rule sum.union_disjoint)
    show "?W \<inter> ?K = {}" using sp(3) by (auto simp: dom_def)
  qed (use finK in auto)
  also have "(\<Sum>p \<in> ?W. the (D p)) = (\<Sum>i | i < length A \<and> P (?base + i). A ! i)"
    using A by (simp add: sum.reindex)
  also have "(\<Sum>p \<in> ?K. the (D p)) = (\<Sum>p \<in> ?K. the (sparse_map ?s p))"
  proof (rule sum.cong)
    fix p assume "p \<in> ?K"
    then have "tick_of ?base ?n p = None" using sp(3) [of p] by (cases "tick_of ?base ?n p") auto
    then show "the (D p) = the (sparse_map ?s p)" using sp(2) by simp
  qed simp
  also have "\<dots> = sparse_sum P ?s" using sparse_sum_dom [OF sp(1)] by simp
  finally show ?thesis by (simp add: depth_sum_def)
qed

text \<open>Both together: the liquidity check never reports less than what rests.\<close>

lemma ask_available_spec:
  assumes "book_rel b ar Q"
  shows "yields (ask_available_at_or_below px b) (\<lambda>v. resting_qty Ask (\<lambda>p. p \<le> px) ar \<le> v)"
proof -
  obtain D where D: "depth_rel (dense_base_price b) (dense_max_ticks b) (view Ask b) D"
    "\<And>p. depth_ok D (heap_of ar) p (Q Ask p)" using side_relD(6) [OF book_relD(2) [OF assms, of Ask]] by blast
  then obtain A where A: "fenwick_rel (ask_depth_index b) A" "length A = dense_max_ticks b"
    "\<And>i. i < dense_max_ticks b \<Longrightarrow> D (dense_base_price b + i) = Some (A ! i)"
    and sp: "sparse_inv (asks_sparse_index b)"
      "\<forall>p. tick_of (dense_base_price b) (dense_max_ticks b) p \<noteq> None \<longrightarrow> sparse_map (asks_sparse_index b) p = None"
    by (auto simp: depth_rel_def)
  note out = sparse_keys_outside [OF sp]
  show ?thesis
    by (rule yields_mono [OF ask_available_ge [OF A(1,2) sp(1) out]])
      (use resting_le_depth [OF assms D A(2,3), of "\<lambda>p. p \<le> px"] in auto)
qed

lemma bid_available_spec:
  assumes "book_rel b ar Q"
  shows "yields (bid_available_at_or_above px b) (\<lambda>v. resting_qty Bid (\<lambda>p. px \<le> p) ar \<le> v)"
proof -
  obtain D where D: "depth_rel (dense_base_price b) (dense_max_ticks b) (view Bid b) D"
    "\<And>p. depth_ok D (heap_of ar) p (Q Bid p)" using side_relD(6) [OF book_relD(2) [OF assms, of Bid]] by blast
  then obtain A where A: "fenwick_rel (bid_depth_index b) A" "length A = dense_max_ticks b"
    "\<And>i. i < dense_max_ticks b \<Longrightarrow> D (dense_base_price b + i) = Some (A ! i)"
    and sp: "sparse_inv (bids_sparse_index b)"
      "\<forall>p. tick_of (dense_base_price b) (dense_max_ticks b) p \<noteq> None \<longrightarrow> sparse_map (bids_sparse_index b) p = None"
    by (auto simp: depth_rel_def)
  note out = sparse_keys_outside [OF sp]
  show ?thesis
    by (rule yields_mono [OF bid_available_ge [OF A(1,2) sp(1) out]])
      (use resting_le_depth [OF assms D A(2,3), of "\<lambda>p. px \<le> p"] in auto)
qed

end
