(* ===== verification/Mx_Engine_Safe.thy ===== *)
theory Mx_Engine_Safe
  imports Mx_Engine_Inv Mx_Liquidity
begin

text \<open>
  The matching loop, the commands and whole runs: from a state with the invariant every command
  ends in one (or stops for want of a machine resource), and what the loop has reached when it
  stops. The loop's facts are proved through one rule for its turns.
\<close>

subsection \<open>The matching loop\<close>

lemma match_loop_rule:
  assumes "P rem e"
    and "\<And>rem e. 0 < rem \<Longrightarrow> P rem e \<Longrightarrow> yields (match_step tid sd px stp rem e)
      (\<lambda>out. case out of Continue r e1 \<Rightarrow> P r e1 | Finish c r e1 \<Rightarrow> R (c, r, e1))"
    and "\<And>e. P 0 e \<Longrightarrow> R (False, 0, e)"
  shows "yields (match_against_book tid sd px stp rem e) R"
  using assms
proof (induction tid sd px stp rem e rule: match_against_book.induct)
  case (1 tid sd px stp rem e)
  show ?case
  proof (cases "0 < rem")
    case False
    then show ?thesis using "1.prems"(1,3) by (simp add: match_against_book.simps)
  next
    case True
    have "yields (rbind (match_step tid sd px stp rem e) (\<lambda>out. case out of
            Finish cancel rem' e' \<Rightarrow> Inr (cancel, rem', e')
          | Continue rem' e' \<Rightarrow> match_against_book tid sd px stp rem' e')) R"
    proof (rule yields_bind [OF "1.prems"(2) [OF True "1.prems"(1)]])
      fix out assume out: "match_step tid sd px stp rem e = Inr out"
        and post: "case out of Continue r e1 \<Rightarrow> P r e1 | Finish c r e1 \<Rightarrow> R (c, r, e1)"
      show "yields (case out of Finish cancel rem' e' \<Rightarrow> Inr (cancel, rem', e')
          | Continue rem' e' \<Rightarrow> match_against_book tid sd px stp rem' e') R"
      proof (cases out)
        case (Continue r e1)
        then show ?thesis using "1.IH" [OF True out Continue] post "1.prems"(2,3) by simp
      qed (use post in simp)
    qed
    then show ?thesis using True by (subst match_against_book.simps) simp
  qed
qed

text \<open>One turn, with the reason when it is the last.\<close>

definition no_match :: "side \<Rightarrow> nat \<Rightarrow> engine \<Rightarrow> bool" where
  "no_match sd px e \<longleftrightarrow>
     (\<forall>rp. best_opposing sd (book e) = Some rp \<longrightarrow> \<not> is_price_acceptable sd px rp)"

definition stp_hit :: "nat option \<Rightarrow> order \<Rightarrow> bool" where
  "stp_hit stp maker \<longleftrightarrow> stp \<noteq> None \<and> o_stp_group maker \<noteq> STP_NONE \<and> stp = Some (o_stp_group maker)"

lemma match_step_eq:
  assumes ok: "book_ok e Q" and best: "best_opposing sd (book e) = Some rp" "is_price_acceptable sd px rp"
  obtains maker where "heap_of (eng_arena e) (hd (Q (opposite sd) rp)) = Some maker" "Q (opposite sd) rp \<noteq> []"
    "o_side maker = opposite sd" "o_price maker = rp" "0 < remaining maker"
    "match_step tid sd px stp rem e =
       (if stp_hit stp maker then stp_step (cfg_stp_mode (config e)) (hd (Q (opposite sd) rp)) maker rp rem e
        else fill_step tid sd (hd (Q (opposite sd) rp)) maker rp rem e)"
proof (rule best_maker [OF ok best(1)])
  fix level i maker
  assume m: "opposing_level sd rp (book e) = Inr level" "head level = Some i" "Q (opposite sd) rp \<noteq> []"
    "i = hd (Q (opposite sd) rp)" "heap_of (eng_arena e) i = Some maker" "arena_get (eng_arena e) i = Inr maker"
    "o_side maker = opposite sd" "o_price maker = rp" "0 < remaining maker"
  show thesis
    by (rule that [of maker]) (use m best in \<open>simp_all add: match_step_def stp_hit_def\<close>)
qed

lemma match_step_none:
  assumes "no_match sd px e"
  shows "match_step tid sd px stp rem e = Inr (Finish False rem e)"
  using assms by (auto simp: match_step_def no_match_def split: option.splits)

lemma no_match_cases:
  obtains "no_match sd px e" | rp where "best_opposing sd (book e) = Some rp" "is_price_acceptable sd px rp"
  by (auto simp: no_match_def)

definition match_stopped :: "side \<Rightarrow> nat \<Rightarrow> nat option \<Rightarrow> bool \<Rightarrow> nat \<Rightarrow> engine \<Rightarrow> bool" where
  "match_stopped sd px stp c r e \<longleftrightarrow>
     c \<or> r = 0 \<or> no_match sd px e \<or> (cfg_stp_mode (config e) = CancelNewest \<and> stp \<noteq> None)"

definition step_post :: "side \<Rightarrow> nat \<Rightarrow> nat option \<Rightarrow> nat \<Rightarrow> engine \<Rightarrow> step_outcome \<Rightarrow> bool" where
  "step_post sd px stp rem e out \<longleftrightarrow> kept e (outcome_engine out) \<and>
     (case out of Continue r e1 \<Rightarrow> r \<le> rem
      | Finish c r e1 \<Rightarrow> r \<le> rem \<and> match_stopped sd px stp c r e1)"

lemma stp_step_outcome:
  assumes "stp_step mode i maker rp rem e = Inr out"
  shows "case out of Continue r e1 \<Rightarrow> r = rem | Finish c r e1 \<Rightarrow> r \<le> rem \<and> (c \<or> mode = CancelNewest)"
  using assms by (cases mode) (auto simp: stp_step_def Let_def rbind_eq_Inr arith_results)

lemma match_step_post:
  assumes ok: "book_ok e Q"
  shows "yields (match_step tid sd px stp rem e) (step_post sd px stp rem e)"
proof (rule no_match_cases [of sd px e])
  assume "no_match sd px e"
  then show ?thesis using match_step_none kept_refl [OF ok] by (simp add: step_post_def match_stopped_def)
next
  fix rp assume rp: "best_opposing sd (book e) = Some rp" "is_price_acceptable sd px rp"
  show ?thesis
  proof (rule match_step_eq [OF ok rp, of tid stp rem])
    fix maker assume maker: "heap_of (eng_arena e) (hd (Q (opposite sd) rp)) = Some maker"
        "o_side maker = opposite sd" "o_price maker = rp"
      and run: "match_step tid sd px stp rem e =
       (if stp_hit stp maker then stp_step (cfg_stp_mode (config e)) (hd (Q (opposite sd) rp)) maker rp rem e
        else fill_step tid sd (hd (Q (opposite sd) rp)) maker rp rem e)"
    show ?thesis
    proof (cases "stp_hit stp maker")
      case True
      have "yields (stp_step (cfg_stp_mode (config e)) (hd (Q (opposite sd) rp)) maker rp rem e)
          (step_post sd px stp rem e)"
      proof (rule yields_mono [OF stp_step_kept [OF ok maker(1)]])
        fix out assume out: "stp_step (cfg_stp_mode (config e)) (hd (Q (opposite sd) rp)) maker rp rem e = Inr out"
          and k: "kept e (outcome_engine out)"
        have "config (outcome_engine out) = config e" using k by (simp add: kept_def same_stops_def)
        then show "step_post sd px stp rem e out"
          using k stp_step_outcome [OF out] True
          by (cases out) (auto simp: step_post_def match_stopped_def stp_hit_def)
      qed
      then show ?thesis unfolding run using True by simp
    next
      case False
      have "yields (fill_step tid sd (hd (Q (opposite sd) rp)) maker rp rem e) (step_post sd px stp rem e)"
        by (rule yields_mono [OF fill_step_spec [OF ok maker]])
          (use took_kept [OF _ maker(1)] in \<open>auto simp: fill_post_def step_post_def Let_def\<close>)
      then show ?thesis unfolding run using False by simp
    qed
  qed
qed

lemma match_kept:
  assumes ok: "book_ok e0 Q"
  shows "yields (match_against_book tid sd px stp rem0 e0)
    (\<lambda>(c, r, e). kept e0 e \<and> r \<le> rem0 \<and> match_stopped sd px stp c r e)"
proof (rule match_loop_rule [where P = "\<lambda>rem e. kept e0 e \<and> rem \<le> rem0"])
  show "kept e0 e0 \<and> rem0 \<le> rem0" using kept_refl [OF ok] by simp
next
  fix rem e assume k: "kept e0 e \<and> rem \<le> rem0"
  then obtain Q' where "book_ok e Q'" by (auto simp: kept_def)
  from match_step_post [OF this, of tid sd px stp rem]
  show "yields (match_step tid sd px stp rem e) (\<lambda>out. case out of
      Continue r e1 \<Rightarrow> kept e0 e1 \<and> r \<le> rem0
    | Finish c r e1 \<Rightarrow> (case (c, r, e1) of (c, r, e) \<Rightarrow> kept e0 e \<and> r \<le> rem0 \<and> match_stopped sd px stp c r e))"
    by (rule yields_mono) (use k in \<open>auto simp: step_post_def intro: kept_trans split: step_outcome.splits\<close>)
qed (auto simp: match_stopped_def)

subsection \<open>The invariant of a whole engine\<close>

text \<open>
  Two strengths of one invariant. The plain one is enough to rule the panics out. The strict one
  adds an orderly book: every price at which an order rests or may come to rest lies in the dense
  window and, unless self-trade prevention is in the mode \<open>CancelNewest\<close>, no bid meets an ask.
\<close>

definition in_window :: "order_book \<Rightarrow> nat \<Rightarrow> bool" where
  "in_window b p \<longleftrightarrow> dense_index b p \<noteq> None"

definition uncrossed :: "(arena_index \<rightharpoonup> order) \<Rightarrow> bool" where
  "uncrossed h \<longleftrightarrow> (\<forall>i j x y. h i = Some x \<and> h j = Some y \<and> o_side x = Bid \<and> o_side y = Ask \<longrightarrow>
     o_price x < o_price y)"

definition stop_entries :: "engine \<Rightarrow> stop_entry set" where
  "stop_entries e = snd ` (set (stop_bids e) \<union> set (stop_asks e))"

definition orderly :: "engine \<Rightarrow> bool" where
  "orderly e \<longleftrightarrow>
     (\<forall>i ord. heap_of (eng_arena e) i = Some ord \<longrightarrow> in_window (book e) (o_price ord)) \<and>
     (\<forall>s \<in> stop_entries e. in_window (book e) (s_limit_price s)) \<and>
     (cfg_stp_mode (config e) \<noteq> CancelNewest \<longrightarrow> uncrossed (heap_of (eng_arena e)))"

definition einv :: "bool \<Rightarrow> engine \<Rightarrow> bool" where
  "einv strict e \<longleftrightarrow> (\<exists>Q. book_ok e Q) \<and> (\<forall>s \<in> stop_entries e. 0 < s_qty s) \<and> (strict \<longrightarrow> orderly e)"

fun command_fits :: "bool \<Rightarrow> order_book \<Rightarrow> command \<Rightarrow> bool" where
  "command_fits strict b (NewOrder i instr sd px q ot tif vis stop stp) \<longleftrightarrow>
     (ot = PostOnly \<longrightarrow> 0 < q) \<and> (strict \<longrightarrow> in_window b px)"
| "command_fits strict b (CancelOrder i) \<longleftrightarrow> True"
| "command_fits strict b (ModifyOrder i px q) \<longleftrightarrow> (strict \<longrightarrow> in_window b px)"

lemma in_window_same: "same_window b b' \<Longrightarrow> in_window b' p = in_window b p"
  by (simp add: in_window_def dense_index_tick same_window_def)

lemma command_fits_same: "same_window b b' \<Longrightarrow> command_fits st b' c = command_fits st b c"
  by (cases c) (simp_all add: in_window_same)

text \<open>What every part of a command ensures.\<close>

definition goes :: "bool \<Rightarrow> engine \<Rightarrow> engine \<Rightarrow> bool" where
  "goes st e e' \<longleftrightarrow> einv st e' \<and> config e' = config e \<and> same_setting e e'"

lemma goes_refl: "einv st e \<Longrightarrow> goes st e e"
  by (simp add: goes_def)

lemma goes_trans: "goes st e e1 \<Longrightarrow> goes st e1 e2 \<Longrightarrow> goes st e e2"
  by (auto simp: goes_def intro: same_setting_trans)

lemma goes_window: "goes st e e' \<Longrightarrow> same_window (book e) (book e')"
  by (simp add: goes_def same_setting_def)

lemma einv_cong:
  "book e' = book e \<Longrightarrow> eng_arena e' = eng_arena e \<Longrightarrow> config e' = config e \<Longrightarrow> stop_entries e' = stop_entries e \<Longrightarrow>
   einv st e' = einv st e"
  by (simp add: einv_def orderly_def book_ok_def)

lemma goes_emit [simp]: "goes st e (after_emit f e') = goes st e e'"
  using einv_cong [of "after_emit f e'" e' st] by (simp add: goes_def stop_entries_def)

lemma einv_emit [simp]: "einv st (after_emit f e) = einv st e"
  by (rule einv_cong) (simp_all add: stop_entries_def)

lemma uncrossed_shrinks: "uncrossed h \<Longrightarrow> shrinks h h' \<Longrightarrow> uncrossed h'"
  unfolding uncrossed_def by (metis shrinksD)

lemma kept_goes:
  assumes "einv st e" "kept e e'"
  shows "goes st e e'"
proof -
  from assms(2) have k: "\<exists>Q. book_ok e' Q" "shrinks (heap_of (eng_arena e)) (heap_of (eng_arena e'))"
    "same_stops e e'" "same_setting e e'" by (simp_all add: kept_def)
  have win: "same_window (book e) (book e')" using k(4) by (simp add: same_setting_def)
  have stops: "stop_entries e' = stop_entries e" using k(3) by (simp add: same_stops_def stop_entries_def)
  have "orderly e'" if o: "orderly e"
  proof -
    have "in_window (book e') (o_price ord)" if "heap_of (eng_arena e') i = Some ord" for i ord
      using o shrinksD [OF k(2) that] in_window_same [OF win] unfolding orderly_def by metis
    then show ?thesis
      using o uncrossed_shrinks [OF _ k(2)] in_window_same [OF win] k(3) stops by (simp add: orderly_def same_stops_def)
  qed
  then show ?thesis using assms(1) k stops by (simp add: goes_def einv_def same_stops_def)
qed

text \<open>If the best opposing price does not match, in an orderly book no opposing order does.\<close>

lemma no_match_all:
  assumes ok: "book_ok e Q" and none: "no_match sd px e" and ord: "heap_of (eng_arena e) i = Some ord"
    and side: "o_side ord = opposite sd" and win: "in_window (book e) (o_price ord)"
  shows "\<not> is_price_acceptable sd px (o_price ord)"
proof -
  let ?base = "dense_base_price (book e)" and ?n = "dense_max_ticks (book e)"
  note rel = book_okD(1) [OF ok]
  obtain k where k: "k < ?n" "o_price ord = ?base + k"
    using win by (auto simp: in_window_def dense_index_tick tick_of_Some)
  have "i \<in> set (Q (opposite sd) (?base + k))" using book_relD(3) [OF rel ord] side k by simp
  then have ne: "Q (opposite sd) (?base + k) \<noteq> []" by auto
  have best: "best_ok ?base ?n (opposite sd) (view (opposite sd) (book e)) (Q (opposite sd))"
    by (rule side_relD(5) [OF book_relD(2) [OF rel]])
  then obtain bp where bp: "v_best (view (opposite sd) (book e)) = Some bp"
    using ne by (auto simp: best_ok_def split: option.splits)
  have "better (opposite sd) bp (o_price ord)" using best bp k ne by (simp add: best_ok_def)
  moreover have "\<not> is_price_acceptable sd px bp" using none bp by (simp add: no_match_def best_opposing_view)
  ultimately show ?thesis by (rule fifo.none_acceptable [rotated])
qed

subsection \<open>Resting an order\<close>

definition rested ::
  "order_id \<Rightarrow> side \<Rightarrow> nat \<Rightarrow> nat \<Rightarrow> order_type \<Rightarrow> nat option \<Rightarrow> nat option \<Rightarrow> queues \<Rightarrow> engine \<Rightarrow> engine \<Rightarrow> bool" where
  "rested oid s p qty ot vis stp Q e e' \<longleftrightarrow>
     e' = e \<and> (order_index (book e) oid \<noteq> None \<or> a_len (eng_arena e) = a_capacity (eng_arena e)) \<or>
     (\<exists>i b ar. e' = e\<lparr>book := b, eng_arena := ar\<rparr> \<and> order_index (book e) oid = None \<and>
        heap_of (eng_arena e) i = None \<and> book_ok e' (upd_queue Q s p (Q s p @ [i])) \<and>
        core_heap (heap_of ar) = (core_heap (heap_of (eng_arena e)))(i \<mapsto> core (new_order_record oid s p qty ot vis stp)))"

lemma eng_insert_setting: "eng_insert oid s p q ot vis stp e = Inr e' \<Longrightarrow> same_setting e e'"
  by (auto simp: eng_insert_def rbind_eq_Inr same_setting_def dest: insert_order_window insert_order_capacity)

lemma eng_insert_spec:
  assumes ok: "book_ok e Q" and qty: "0 < qty"
  shows "yields (eng_insert oid s p qty ot vis stp e) (rested oid s p qty ot vis stp Q e)"
  unfolding eng_insert_def
proof (rule yields_bind [OF insert_order_spec [OF book_okD(1) [OF ok] qty]], clarify)
  fix r b ar assume post: "insert_post oid s p qty ot vis stp (book e) (eng_arena e) Q (r, b, ar)"
  have "rested oid s p qty ot vis stp Q e (e\<lparr>book := b, eng_arena := ar\<rparr>)"
  proof (cases r)
    case None
    then show ?thesis using post by (simp add: insert_post_def rested_def)
  next
    case (Some i)
    let ?new = "new_order_record oid s p qty ot vis stp"
    from post Some have new: "order_index (book e) oid = None" "heap_of (eng_arena e) i = None"
      "book_rel b ar (upd_queue Q s p (Q s p @ [i]))"
      "core_heap (heap_of ar) = (core_heap (heap_of (eng_arena e)))(i \<mapsto> core ?new)"
      by (simp_all add: insert_post_def)
    have "0 < remaining ord" if "heap_of ar j = Some ord" for j ord
      using heap_insert_cases [OF new(4) that]
    proof cases
      case 1
      then show ?thesis using core_eqD(4) [of ord ?new] qty by simp
    next
      case (2 a)
      then show ?thesis using book_okD(2) [OF ok, of j a] core_eqD(4) [of ord a] by simp
    qed
    then have "live_ok (heap_of ar)" by (simp add: live_ok_def)
    then show ?thesis using new unfolding rested_def by (intro disjI2 exI [of _ i] exI [of _ b] exI [of _ ar]) (simp add: book_ok_def)
  qed
  then show "yields (Inr (e\<lparr>book := b, eng_arena := ar\<rparr>)) (rested oid s p qty ot vis stp Q e)" by simp
qed

lemma uncrossed_insert:
  assumes un: "uncrossed h" and core: "core_heap h' = (core_heap h)(i \<mapsto> core new)"
    and opp: "\<And>j ord. h j = Some ord \<Longrightarrow> o_side ord = opposite (o_side new) \<Longrightarrow>
        \<not> is_price_acceptable (o_side new) (o_price new) (o_price ord)"
  shows "uncrossed h'"
  unfolding uncrossed_def
proof (intro allI impI, elim conjE)
  fix j k x y assume x: "h' j = Some x" "o_side x = Bid" and y: "h' k = Some y" "o_side y = Ask"
  have cs: "(o_side z = o_side new \<and> o_price z = o_price new) \<or>
      (\<exists>a. h l = Some a \<and> o_side z = o_side a \<and> o_price z = o_price a)" if "h' l = Some z" for l z
    using heap_insert_cases [OF core that] by cases (auto dest: core_eqD(2,3))
  show "o_price x < o_price y"
    using cs [OF x(1)] cs [OF y(1)]
  proof (elim disjE exE conjE)
    fix b assume "h k = Some b" "o_side y = o_side b" "o_price y = o_price b"
      "o_side x = o_side new" "o_price x = o_price new"
    then show ?thesis using opp [of k b] x(2) y(2) by (simp add: is_price_acceptable_def)
  next
    fix a assume "h j = Some a" "o_side x = o_side a" "o_price x = o_price a"
      "o_side y = o_side new" "o_price y = o_price new"
    then show ?thesis using opp [of j a] x(2) y(2) by (simp add: is_price_acceptable_def)
  next
    fix a b assume "h j = Some a" "h k = Some b" "o_side x = o_side a" "o_price x = o_price a"
      "o_side y = o_side b" "o_price y = o_price b"
    then show ?thesis using un x(2) y(2) unfolding uncrossed_def by metis
  qed (use x(2) y(2) in simp)
qed

lemma eng_insert_goes:
  assumes inv: "einv st e" and qty: "0 < qty"
    and strict: "st \<Longrightarrow> in_window (book e) p \<and> (cfg_stp_mode (config e) \<noteq> CancelNewest \<longrightarrow> no_match s p e)"
  shows "yields (eng_insert oid s p qty ot vis stp e) (goes st e)"
proof -
  obtain Q where ok: "book_ok e Q" using inv by (auto simp: einv_def)
  show ?thesis
  proof (rule yields_mono [OF eng_insert_spec [OF ok qty]])
    fix e' assume run: "eng_insert oid s p qty ot vis stp e = Inr e'"
      and rested: "rested oid s p qty ot vis stp Q e e'"
    note setting = eng_insert_setting [OF run] and stops = eng_insert_stops [OF run]
    show "goes st e e'"
    proof (cases "e' = e")
      case True
      then show ?thesis using inv by (simp add: goes_refl)
    next
      case False
      let ?new = "new_order_record oid s p qty ot vis stp"
      obtain i b ar where e': "e' = e\<lparr>book := b, eng_arena := ar\<rparr>" "\<exists>Q. book_ok e' Q"
        and core: "core_heap (heap_of ar) = (core_heap (heap_of (eng_arena e)))(i \<mapsto> core ?new)"
        using rested False unfolding rested_def by blast
      have ent: "stop_entries e' = stop_entries e" using stops by (simp add: same_stops_def stop_entries_def)
      have "orderly e'" if st
      proof -
        have o: "orderly e" using inv that by (simp add: einv_def)
        have old: "in_window (book e) (o_price ord)" if "heap_of (eng_arena e) j = Some ord" for j ord
          using o that by (simp add: orderly_def)
        have "in_window (book e) (o_price ord)" if "heap_of ar j = Some ord" for j ord
          using heap_insert_cases [OF core that]
        proof cases
          case 1
          then show ?thesis using core_eqD(2) [of ord ?new] strict [OF \<open>st\<close>] by simp
        next
          case (2 a)
          then show ?thesis using old [of j a] core_eqD(2) [of ord a] by simp
        qed
        moreover have "uncrossed (heap_of ar)" if mode: "cfg_stp_mode (config e) \<noteq> CancelNewest"
        proof (rule uncrossed_insert [OF _ core])
          show "uncrossed (heap_of (eng_arena e))" using o mode by (simp add: orderly_def)
          show "\<not> is_price_acceptable (o_side ?new) (o_price ?new) (o_price ord)"
            if "heap_of (eng_arena e) j = Some ord" "o_side ord = opposite (o_side ?new)" for j ord
            using no_match_all [OF ok _ that(1) _ old [OF that(1)], of s p] strict [OF \<open>st\<close>] that(2) mode by simp
        qed
        ultimately show ?thesis
          using o in_window_same [of "book e" "book e'"] setting ent e'(1) by (simp add: orderly_def same_setting_def)
      qed
      then show ?thesis using inv e'(2) ent setting stops by (simp add: goes_def einv_def same_stops_def)
    qed
  qed
qed

end
