(* ===== verification/Mx_Engine_Runs.thy ===== *)
theory Mx_Engine_Runs
  imports Mx_Engine_Safe
begin

text \<open>
  Every command keeps the invariant, in both strengths, and so does every run from a new engine.
\<close>

subsection \<open>Commands\<close>

lemma goes_bind:
  assumes "yields m (goes st e0)" "\<And>e1. m = Inr e1 \<Longrightarrow> goes st e0 e1 \<Longrightarrow> einv st e1 \<Longrightarrow> yields (f e1) P"
  shows "yields (rbind m f) P"
  by (rule yields_bind [OF assms(1)]) (use assms(2) in \<open>auto simp: goes_def\<close>)

lemma goes_step: "goes st e e1 \<Longrightarrow> yields m (goes st e1) \<Longrightarrow> yields m (goes st e)"
  by (erule yields_mono) (rule goes_trans)

lemma emit_goes: "einv st e \<Longrightarrow> yields (emit f e) (goes st e)"
  by (rule yields_emit) (simp add: goes_refl)

lemma emit_rejected_goes: "einv st e \<Longrightarrow> yields (emit_rejected i r e) (goes st e)"
  by (simp add: emit_rejected_def emit_goes)

lemma would_cross_iff: "would_cross s p (book e) \<longleftrightarrow> \<not> no_match s p e"
  by (cases s) (auto simp: would_cross_def no_match_def is_price_acceptable_def split: option.splits)

lemma process_post_only_goes:
  assumes inv: "einv st e" and qty: "0 < q" and win: "st \<Longrightarrow> in_window (book e) p"
  shows "yields (process_post_only oid s p q vis stp e) (goes st e)"
proof (cases "would_cross s p (book e)")
  case True
  then show ?thesis using emit_rejected_goes [OF inv] by (simp add: process_post_only_def)
next
  case False
  then have none: "no_match s p e" by (simp add: would_cross_iff)
  let ?e1 = "after_emit (\<lambda>meta. OrderAccepted meta oid s p q PostOnly) e"
  have "yields (eng_insert oid s p q PostOnly vis stp ?e1) (goes st ?e1)"
    by (rule eng_insert_goes) (use inv qty win none in \<open>simp_all add: no_match_def\<close>)
  then have "yields (eng_insert oid s p q PostOnly vis stp ?e1) (goes st e)"
    by (rule goes_step [rotated]) (simp add: goes_refl inv)
  then show ?thesis
    using False unfolding process_post_only_def
    by (auto intro!: yields_bind_emit goes_bind yields_emit)
qed

lemma set_insert_at: "set (take i xs @ x # drop i xs) = insert x (set xs)"
  by (metis append_take_drop_id insert_is_Un list.simps(15) set_append sup_left_commute)

lemma stop_entries_queued:
  assumes "queue_stop px entry e = Inr e'"
  shows "stop_entries e' = insert entry (stop_entries e)" "book e' = book e" "eng_arena e' = eng_arena e"
    "config e' = config e"
proof -
  have "(\<exists>xs. e' = e\<lparr>stop_bids := xs\<rparr> \<and> set xs = insert (px, entry) (set (stop_bids e))) \<or>
      (\<exists>xs. e' = e\<lparr>stop_asks := xs\<rparr> \<and> set xs = insert (px, entry) (set (stop_asks e)))"
    using assms by (cases "s_side entry") (auto simp: queue_stop_def Let_def set_insert_at simp del: set_append)
  then show "stop_entries e' = insert entry (stop_entries e)" "book e' = book e" "eng_arena e' = eng_arena e"
    "config e' = config e"
    by (elim disjE exE conjE; simp add: stop_entries_def)+
qed

lemma process_stop_limit_goes:
  assumes inv: "einv st e" and win: "st \<Longrightarrow> in_window (book e) p"
  shows "yields (process_stop_limit oid s p q tif vis stop stp e) (goes st e)"
proof -
  have "yields (queue_stop px (entry :: stop_entry) e1) (goes st e)"
    if e1: "e1 = after_emit f e" and entry: "s_qty entry = q" "s_limit_price entry = p" and q: "q \<noteq> 0" for px entry e1 f
  proof -
    obtain e2 where e2: "queue_stop px entry e1 = Inr e2"
      by (cases "s_side entry") (auto simp: queue_stop_def Let_def)
    note sq = stop_entries_queued [OF e2]
    have "einv st e1" using inv by (simp add: e1)
    then have "einv st e2" using q entry win
      by (auto simp: einv_def orderly_def book_ok_def sq e1)
    then show ?thesis using e2 sq by (simp add: goes_def same_setting_def e1)
  qed
  then show ?thesis using emit_goes [OF inv] unfolding process_stop_limit_def
    by (auto split: option.splits intro!: yields_bind_emit)
qed

lemma handle_remainder_goes:
  assumes inv: "einv st e"
    and win: "st \<Longrightarrow> ot = Limit \<or> ot = Iceberg \<Longrightarrow> 0 < q \<Longrightarrow>
        in_window (book e) p \<and> (cfg_stp_mode (config e) \<noteq> CancelNewest \<longrightarrow> no_match s p e)"
  shows "yields (handle_remainder oid s p q ot tif vis stp e) (goes st e)"
proof -
  have "yields (rbind (eng_insert oid s p q ot vis stp e) (emit (\<lambda>meta. BookUpdate meta s p q))) (goes st e)"
    if "(ot = Limit \<or> ot = Iceberg) \<and> tif = GTC \<and> 0 < q"
    by (rule goes_bind [OF eng_insert_goes [OF inv]]) (use that win in \<open>auto intro: yields_emit\<close>)
  then show ?thesis using emit_goes [OF inv] goes_refl [OF inv] by (simp add: handle_remainder_def)
qed

lemma acceptable_fun: "is_price_acceptable Bid px = (\<lambda>p. p \<le> px)" "is_price_acceptable Ask px = (\<lambda>p. px \<le> p)"
  by (simp_all add: is_price_acceptable_def fun_eq_iff)

lemma fok_short_yields:
  assumes "book_ok e Q"
  shows "yields (fok_short tif sd px q e)
    (\<lambda>short. short \<longrightarrow> tif = FOK \<and> resting_qty (opposite sd) (is_price_acceptable sd px) (eng_arena e) < q)"
proof -
  note rel = book_okD(1) [OF assms]
  have "yields (check_available_liquidity sd px e)
      (\<lambda>v. resting_qty (opposite sd) (is_price_acceptable sd px) (eng_arena e) \<le> v)"
    using ask_available_spec [OF rel, of px] bid_available_spec [OF rel, of px]
    by (cases sd) (simp_all add: check_available_liquidity_def acceptable_fun)
  then show ?thesis unfolding fok_short_def
    by (auto intro: yields_bind [where Q = "\<lambda>v. resting_qty (opposite sd) (is_price_acceptable sd px) (eng_arena e) \<le> v"])
qed

lemma stp_newest_hit_yields:
  assumes "book_ok e Q"
  shows "yields (stp_newest_hit stp sd px e) (\<lambda>_. True)"
proof -
  have "yields (stp_first_maker_matches sd px g e) (\<lambda>_. True)" for g
  proof (cases "best_opposing sd (book e)")
    case (Some rp)
    show ?thesis
    proof (rule best_maker [OF assms Some])
      fix level i maker assume "opposing_level sd rp (book e) = Inr level" "head level = Some i"
        "arena_get (eng_arena e) i = Inr maker"
      then show ?thesis using Some by (simp add: stp_first_maker_matches_def)
    qed
  qed (simp add: stp_first_maker_matches_def)
  then show ?thesis by (simp add: stp_newest_hit_def split: option.splits)
qed

lemma process_new_order_goes:
  assumes inv: "einv st e" and qty: "ot = PostOnly \<Longrightarrow> 0 < q" and win: "st \<Longrightarrow> in_window (book e) p"
  shows "yields (process_new_order oid s p q ot tif vis stop stp e) (goes st e)"
proof -
  obtain Q where ok: "book_ok e Q" using inv by (auto simp: einv_def)
  define px where "px = effective_price ot s p"
  let ?e1 = "after_emit (\<lambda>meta. OrderAccepted meta oid s p q ot) e"
  have inv1: "einv st ?e1" and ok1: "book_ok ?e1 Q" using inv ok by simp_all
  have rest: "yields (rbind (match_against_book oid s px stp q ?e1) (\<lambda>(cancel_incoming, qty', e2).
          if cancel_incoming then emit (\<lambda>meta. OrderCancelled meta oid qty') e2
          else handle_remainder oid s p qty' ot tif vis stp e2)) (goes st e)"
  proof (rule yields_bind [OF match_kept [OF ok1]], clarify)
    fix c r e2 assume k: "kept ?e1 e2" and stopped: "match_stopped s px stp c r e2"
    have g: "goes st e e2" and inv2: "einv st e2" using kept_goes [OF inv1 k] by (auto simp: goes_def)
    have "yields (handle_remainder oid s p r ot tif vis stp e2) (goes st e)" if "\<not> c"
    proof (rule goes_step [OF g handle_remainder_goes [OF inv2]])
      assume "st" "ot = Limit \<or> ot = Iceberg" "0 < r"
      then show "in_window (book e2) p \<and> (cfg_stp_mode (config e2) \<noteq> CancelNewest \<longrightarrow> no_match s p e2)"
        using stopped that win in_window_same [OF goes_window [OF g], of p]
        by (auto simp: match_stopped_def px_def effective_price_def)
    qed
    then show "yields (if c then emit (\<lambda>meta. OrderCancelled meta oid r) e2
        else handle_remainder oid s p r ot tif vis stp e2) (goes st e)"
      using goes_step [OF g emit_goes [OF inv2]] by simp
  qed
  show ?thesis
    unfolding process_new_order_def Let_def px_def [symmetric]
    using process_post_only_goes [OF inv, of q p] process_stop_limit_goes [OF inv, of p] qty win
      emit_goes [OF inv] emit_rejected_goes [OF inv] rest
    by (auto intro!: yields_bind [OF fok_short_yields [OF ok]] yields_bind [OF stp_newest_hit_yields [OF ok]] yields_bind_emit)
qed

subsection \<open>Stops\<close>

lemma einv_fewer_stops:
  assumes "einv st e" "book e' = book e" "eng_arena e' = eng_arena e" "config e' = config e"
    "stop_entries e' \<subseteq> stop_entries e"
  shows "einv st e'"
  using assms unfolding einv_def orderly_def book_ok_def by auto

lemma trigger_stop_goes:
  assumes inv: "einv st e" and entry: "st \<Longrightarrow> in_window (book e) (s_limit_price entry)"
  shows "yields (trigger_stop entry e) (goes st e)"
  unfolding trigger_stop_def
proof (rule yields_bind_emit)
  let ?e1 = "after_emit (\<lambda>meta. StopTriggered meta (s_id entry) (s_id entry)) e"
  have "yields (process_new_order (s_id entry) (s_side entry) (s_limit_price entry) (s_qty entry) Limit
      (s_time_in_force entry) (s_visible_qty entry) None (s_stp_group entry) ?e1) (goes st ?e1)"
    by (rule process_new_order_goes) (use inv entry in simp_all)
  then show "yields (process_new_order (s_id entry) (s_side entry) (s_limit_price entry) (s_qty entry) Limit
      (s_time_in_force entry) (s_visible_qty entry) None (s_stp_group entry) ?e1) (goes st e)"
    by (rule goes_step [rotated]) (use inv in \<open>simp add: goes_refl\<close>)
qed

lemma trigger_next:
  assumes inv: "einv st e" and e1: "stop_entries e1 \<subseteq> stop_entries e" "book e1 = book e" "eng_arena e1 = eng_arena e"
      "config e1 = config e" and entry: "entry \<in> stop_entries e"
  shows "yields (trigger_stop entry e1) (goes st e)"
proof -
  have inv1: "einv st e1" by (rule einv_fewer_stops [OF inv e1(2-4,1)])
  have "st \<Longrightarrow> in_window (book e1) (s_limit_price entry)" using inv entry e1(2) by (simp add: einv_def orderly_def)
  then have "yields (trigger_stop entry e1) (goes st e1)" by (rule trigger_stop_goes [OF inv1])
  moreover have "goes st e e1" using inv1 e1(2-4) by (simp add: goes_def same_setting_def)
  ultimately show ?thesis by (rule goes_step [rotated])
qed

lemma drain_buy_goes: "einv st e \<Longrightarrow> yields (drain_buy_stops p e) (goes st e)"
proof (induction p e rule: drain_buy_stops.induct)
  case (1 p e)
  show ?case
  proof (cases "stop_bids e")
    case Nil
    then show ?thesis using "1.prems" by (simp add: drain_buy_stops.simps goes_refl)
  next
    case (Cons a rest)
    obtain px entry where a: "a = (px, entry)" by (cases a)
    show ?thesis
    proof (cases "p < px")
      case True
      then show ?thesis using "1.prems" Cons a by (simp add: drain_buy_stops.simps goes_refl)
    next
      case False
      have y: "yields (trigger_stop entry (e\<lparr>stop_bids := rest\<rparr>)) (goes st e)"
        by (rule trigger_next [OF "1.prems"]) (use Cons a in \<open>auto simp: stop_entries_def\<close>)
      have "yields (rbind (trigger_stop entry (e\<lparr>stop_bids := rest\<rparr>)) (drain_buy_stops p)) (goes st e)"
      proof (rule goes_bind [OF y])
        fix e1 assume e1: "trigger_stop entry (e\<lparr>stop_bids := rest\<rparr>) = Inr e1" "goes st e e1" "einv st e1"
        show "yields (drain_buy_stops p e1) (goes st e)"
          by (rule goes_step [OF e1(2) "1.IH" [OF Cons a [symmetric] False e1(1,3)]])
      qed
      then show ?thesis using Cons a False by (subst drain_buy_stops.simps) simp
    qed
  qed
qed

lemma drain_sell_goes: "einv st e \<Longrightarrow> yields (drain_sell_stops p e) (goes st e)"
proof (induction p e rule: drain_sell_stops.induct)
  case (1 p e)
  show ?case
  proof (cases "stop_asks e")
    case Nil
    then show ?thesis using "1.prems" by (simp add: drain_sell_stops.simps goes_refl)
  next
    case (Cons a rest)
    obtain px entry where a: "a = (px, entry)" by (cases a)
    show ?thesis
    proof (cases "px < p")
      case True
      then show ?thesis using "1.prems" Cons a by (simp add: drain_sell_stops.simps goes_refl)
    next
      case False
      have y: "yields (trigger_stop entry (e\<lparr>stop_asks := rest\<rparr>)) (goes st e)"
        by (rule trigger_next [OF "1.prems"]) (use Cons a in \<open>auto simp: stop_entries_def\<close>)
      have "yields (rbind (trigger_stop entry (e\<lparr>stop_asks := rest\<rparr>)) (drain_sell_stops p)) (goes st e)"
      proof (rule goes_bind [OF y])
        fix e1 assume e1: "trigger_stop entry (e\<lparr>stop_asks := rest\<rparr>) = Inr e1" "goes st e e1" "einv st e1"
        show "yields (drain_sell_stops p e1) (goes st e)"
          by (rule goes_step [OF e1(2) "1.IH" [OF Cons a [symmetric] False e1(1,3)]])
      qed
      then show ?thesis using Cons a False by (subst drain_sell_stops.simps) simp
    qed
  qed
qed

lemma drain_goes: "einv st e \<Longrightarrow> yields (drain_stop_triggers e) (goes st e)"
proof (induction e rule: drain_stop_triggers.induct)
  case (1 e)
  show ?case
  proof (cases "last_trade_price e")
    case None
    then show ?thesis using "1.prems" by (simp add: drain_stop_triggers.simps goes_refl)
  next
    case (Some p)
    have "yields (rbind (drain_buy_stops p e) (\<lambda>e1. rbind (drain_sell_stops p e1) (\<lambda>e2.
        if last_trade_price e2 = Some p then Inr e2 else drain_stop_triggers e2))) (goes st e)"
    proof (rule goes_bind [OF drain_buy_goes [OF "1.prems"]])
      fix e1 assume e1: "drain_buy_stops p e = Inr e1" "goes st e e1" "einv st e1"
      have "yields (drain_sell_stops p e1) (goes st e)" by (rule goes_step [OF e1(2) drain_sell_goes [OF e1(3)]])
      then show "yields (rbind (drain_sell_stops p e1) (\<lambda>e2.
        if last_trade_price e2 = Some p then Inr e2 else drain_stop_triggers e2)) (goes st e)"
      proof (rule goes_bind)
        fix e2 assume e2: "drain_sell_stops p e1 = Inr e2" "goes st e e2" "einv st e2"
        show "yields (if last_trade_price e2 = Some p then Inr e2 else drain_stop_triggers e2) (goes st e)"
          using "1.IH" [OF Some e1(1) e2(1) _ e2(3)] e2(2) by (auto intro: goes_step)
      qed
    qed
    then show ?thesis using Some by (subst drain_stop_triggers.simps) simp
  qed
qed

subsection \<open>The entry point and runs\<close>

lemma lookup_slot:
  assumes "book_ok e Q" "lookup oid (book e) = Some i"
  obtains ord where "heap_of (eng_arena e) i = Some ord" "o_id ord = oid" "arena_get (eng_arena e) i = Inr ord"
  using book_relD(4) [OF book_okD(1) [OF assms(1)], of oid i] assms(2)
    arena_get_occupied [OF book_relD(1) [OF book_okD(1) [OF assms(1)]], of i]
  by (auto simp: lookup_def)

lemma remove_goes:
  assumes "einv st e" "book_ok e Q" "heap_of (eng_arena e) i = Some ord"
  shows "yields (eng_remove i e) (goes st e)"
  by (rule yields_mono [OF eng_remove_kept [OF assms(2,3)]]) (rule kept_goes [OF assms(1)])

lemma process_cancel_goes:
  assumes inv: "einv st e"
  shows "yields (process_cancel oid e) (goes st e)"
proof (cases "lookup oid (book e)")
  case None
  then show ?thesis using emit_goes [OF inv] by (simp add: process_cancel_def)
next
  case (Some i)
  obtain Q where ok: "book_ok e Q" using inv by (auto simp: einv_def)
  obtain ord where ord: "heap_of (eng_arena e) i = Some ord" "arena_get (eng_arena e) i = Inr ord"
    using lookup_slot [OF ok Some] by blast
  have "yields (rbind (eng_remove i e) (\<lambda>e1.
          rbind (emit (\<lambda>meta. OrderCancelled meta oid (remaining ord)) e1) (\<lambda>e2.
          rbind (get_level_qty (o_side ord) (o_price ord) (book e2)) (\<lambda>level_qty.
            emit (\<lambda>meta. BookUpdate meta (o_side ord) (o_price ord) level_qty) e2)))) (goes st e)"
  proof (rule goes_bind [OF remove_goes [OF inv ok ord(1)]])
    fix e1 assume e1: "goes st e e1" "einv st e1"
    then obtain Q1 where ok1: "book_ok e1 Q1" by (auto simp: einv_def)
    show "yields (rbind (emit (\<lambda>meta. OrderCancelled meta oid (remaining ord)) e1) (\<lambda>e2.
          rbind (get_level_qty (o_side ord) (o_price ord) (book e2)) (\<lambda>level_qty.
            emit (\<lambda>meta. BookUpdate meta (o_side ord) (o_price ord) level_qty) e2))) (goes st e)"
      by (rule yields_bind_emit, rule get_level_qty_bind [where Q = Q1]) (use e1 ok1 in \<open>simp_all add: yields_emit\<close>)
  qed
  then show ?thesis using Some ord(2) by (simp add: process_cancel_def)
qed

lemma process_modify_goes:
  assumes inv: "einv st e" and win: "st \<Longrightarrow> in_window (book e) p"
  shows "yields (process_modify oid p q e) (goes st e)"
proof (cases "lookup oid (book e)")
  case None
  then show ?thesis using emit_goes [OF inv] by (simp add: process_modify_def)
next
  case (Some i)
  obtain Q where ok: "book_ok e Q" using inv by (auto simp: einv_def)
  obtain ord where ord: "heap_of (eng_arena e) i = Some ord" "arena_get (eng_arena e) i = Inr ord"
    using lookup_slot [OF ok Some] by blast
  let ?new = "process_new_order oid (o_side ord) p q Limit GTC None None None"
  have "yields (rbind (eng_remove i e) (\<lambda>e1.
          rbind (emit (\<lambda>meta. OrderModified meta oid p q) e1) (\<lambda>e2.
          rbind (get_level_qty (o_side ord) (o_price ord) (book e2)) (\<lambda>level_qty.
          rbind (emit (\<lambda>meta. BookUpdate meta (o_side ord) (o_price ord) level_qty) e2) ?new)))) (goes st e)"
  proof (rule goes_bind [OF remove_goes [OF inv ok ord(1)]])
    fix e1 assume e1: "goes st e e1" "einv st e1"
    then obtain Q1 where ok1: "book_ok e1 Q1" by (auto simp: einv_def)
    have new: "yields (?new e2) (goes st e)" if "goes st e e2" for e2
    proof (rule goes_step [OF that process_new_order_goes])
      show "einv st e2" using that by (simp add: goes_def)
      show "in_window (book e2) p" if st using win [OF that] in_window_same [OF goes_window [OF \<open>goes st e e2\<close>], of p] by simp
    qed simp
    show "yields (rbind (emit (\<lambda>meta. OrderModified meta oid p q) e1) (\<lambda>e2.
          rbind (get_level_qty (o_side ord) (o_price ord) (book e2)) (\<lambda>level_qty.
          rbind (emit (\<lambda>meta. BookUpdate meta (o_side ord) (o_price ord) level_qty) e2) ?new))) (goes st e)"
      by (rule yields_bind_emit, rule get_level_qty_bind [where Q = Q1])
        (use e1 ok1 new in \<open>auto intro!: yields_bind_emit\<close>)
  qed
  then show ?thesis using Some ord(2) by (simp add: process_modify_def)
qed

lemma process_command_goes:
  assumes "einv st e" "command_fits st (book e) c"
  shows "yields (process_command c e) (goes st e)"
  using assms by (cases c) (auto intro: process_new_order_goes process_cancel_goes process_modify_goes)

lemma process_goes:
  assumes inv: "einv st e" and fits: "command_fits st (book e) c"
  shows "yields (process c e) (goes st e)"
proof -
  let ?e0 = "e\<lparr>events := []\<rparr>"
  have inv0: "einv st ?e0" using inv einv_cong [of ?e0 e st] by (simp add: stop_entries_def)
  have "yields (process_command c ?e0) (goes st ?e0)" by (rule process_command_goes) (use inv0 fits in simp_all)
  then have y: "yields (process_command c ?e0) (goes st e)" by (rule yields_mono) (simp add: goes_def)
  show ?thesis unfolding process_def
    by (rule goes_bind [OF y]) (rule goes_step, assumption, rule drain_goes)
qed

lemma process_all_goes:
  assumes "einv st e" "\<forall>c \<in> set cs. command_fits st (book e) c"
  shows "yields (process_all cs e) (\<lambda>(evs, e'). goes st e e')"
  using assms
proof (induction cs arbitrary: e)
  case (Cons c cs)
  show ?case unfolding process_all.simps
  proof (rule goes_bind [OF process_goes [OF Cons.prems(1)]])
    show "command_fits st (book e) c" using Cons.prems(2) by simp
    fix e1 assume e1: "goes st e e1" "einv st e1"
    have "\<forall>c \<in> set cs. command_fits st (book e1) c"
      using Cons.prems(2) command_fits_same [OF goes_window [OF e1(1)]] by simp
    from Cons.IH [OF e1(2) this]
    show "yields (rbind (process_all cs e1) (\<lambda>(evs, e2). Inr (events e1 # evs, e2))) (\<lambda>(evs, e'). goes st e e')"
      by (rule yields_bind) (use e1(1) in \<open>auto intro: goes_trans\<close>)
  qed
qed (simp add: goes_refl)

subsection \<open>A new engine\<close>

lemma side_rel_new:
  assumes "fenwick_rel t (replicate n 0)" "sparse_inv x" "sparse_map x = Map.empty"
  shows "side_rel base n s \<lparr>v_dense = replicate n EMPTY, v_sparse = [], v_tree = t, v_best = None,
      v_occ = replicate (div_ceil n 64) 0, v_sidx = x\<rparr> Map.empty (\<lambda>p. [])" (is "side_rel _ _ _ ?v _ _")
proof -
  have "n \<le> 64 * div_ceil n 64" unfolding div_ceil_def by presburger
  then have "vshape base n ?v" by (simp add: vshape_def bt_inv_def bt_get_def)
  moreover have "vlevel base n ?v p = EMPTY" for p
    by (auto simp: vlevel_def bt_get_def tick_of_Some split: option.splits)
  moreover have "\<exists>D. depth_rel base n ?v D"
    by (rule exI [of _ "\<lambda>p. if tick_of base n p = None then None else Some 0"])
      (use assms in \<open>auto simp: depth_rel_def intro!: exI [of _ "replicate n 0"]\<close>)
  ultimately show ?thesis
    by (auto simp: side_rel_def sparse_ok_def queue_ok_def ends_ok_def occ_ok_def best_ok_def depth_ok_def bt_get_def)
qed

lemma book_new_spec:
  "yields (book_new cfg) (\<lambda>b. (\<forall>ar. arena_inv ar \<and> heap_of ar = Map.empty \<longrightarrow> book_rel b ar (\<lambda>s p. [])) \<and>
     dense_base_price b = base_price cfg \<and> dense_max_ticks b = max_ticks cfg)"
  unfolding book_new_def Let_def
proof (rule yields_bind [OF fenwick_new_spec], rule yields_bind [OF fenwick_new_spec],
    rule yields_bind [OF sparse_index_new_spec], rule yields_bind [OF sparse_index_new_spec])
  fix bidx aidx bsi asi
  assume t: "fenwick_rel bidx (replicate (max_ticks cfg) 0)" "fenwick_rel aidx (replicate (max_ticks cfg) 0)"
    and x: "sparse_inv bsi \<and> sparse_map bsi = Map.empty" "sparse_inv asi \<and> sparse_map asi = Map.empty"
  let ?b = "\<lparr>instrument_id = ic_id cfg, bids_dense = replicate (max_ticks cfg) EMPTY,
             asks_dense = replicate (max_ticks cfg) EMPTY, dense_base_price = base_price cfg,
             dense_max_ticks = max_ticks cfg, bids_sparse = [], asks_sparse = [],
             bid_depth_index = bidx, ask_depth_index = aidx, best_bid_tick = None, best_ask_tick = None,
             bids_occupied = replicate (div_ceil (max_ticks cfg) 64) 0,
             asks_occupied = replicate (div_ceil (max_ticks cfg) 64) 0, order_index = Map.empty,
             bids_sparse_index = bsi, asks_sparse_index = asi\<rparr>"
  have side: "side_rel (base_price cfg) (max_ticks cfg) s (view s ?b) Map.empty (\<lambda>p. [])" for s
    using side_rel_new [OF t(1), of bsi] side_rel_new [OF t(2), of asi] x by (cases s) auto
  show "yields (Inr ?b) (\<lambda>b. (\<forall>ar. arena_inv ar \<and> heap_of ar = Map.empty \<longrightarrow> book_rel b ar (\<lambda>s p. [])) \<and>
     dense_base_price b = base_price cfg \<and> dense_max_ticks b = max_ticks cfg)"
    using side by (simp add: book_rel_def)
qed

lemma engine_new_spec:
  assumes "capacity \<le> u32_max"
  shows "yields (engine_new cfg capacity) (\<lambda>e. einv st e \<and>
     config e = cfg \<and> dense_base_price (book e) = base_price cfg \<and> dense_max_ticks (book e) = max_ticks cfg)"
  unfolding engine_new_def
proof (rule yields_bind [OF book_new_spec])
  fix b assume b: "(\<forall>ar. arena_inv ar \<and> heap_of ar = Map.empty \<longrightarrow> book_rel b ar (\<lambda>s p. [])) \<and>
     dense_base_price b = base_price cfg \<and> dense_max_ticks b = max_ticks cfg"
  let ?e = "\<lparr>book = b, eng_arena = arena_new capacity, config = cfg, sequence = 0, timestamp_ns = 0, events = [],
    stop_bids = [], stop_asks = [], last_trade_price = None\<rparr>"
  have "book_ok ?e (\<lambda>s p. [])" using b arena_inv_new [OF assms] by (simp add: book_ok_def live_ok_def)
  then show "yields (Inr ?e) (\<lambda>e. einv st e \<and>
     config e = cfg \<and> dense_base_price (book e) = base_price cfg \<and> dense_max_ticks (book e) = max_ticks cfg)"
    using b by (auto simp: einv_def stop_entries_def orderly_def uncrossed_def)
qed

text \<open>A whole session: a new engine and a list of commands.\<close>

definition run_engine :: "instrument_config \<Rightarrow> nat \<Rightarrow> command list \<Rightarrow> (match_event list list \<times> engine) result" where
  "run_engine cfg capacity cs = rbind (engine_new cfg capacity) (process_all cs)"

definition price_in_window :: "instrument_config \<Rightarrow> nat \<Rightarrow> bool" where
  "price_in_window cfg p \<longleftrightarrow> base_price cfg \<le> p \<and> p < base_price cfg + max_ticks cfg"

fun session_command :: "bool \<Rightarrow> instrument_config \<Rightarrow> command \<Rightarrow> bool" where
  "session_command strict cfg (NewOrder i instr sd px q ot tif vis stop stp) \<longleftrightarrow>
     (ot = PostOnly \<longrightarrow> 0 < q) \<and> (strict \<longrightarrow> price_in_window cfg px)"
| "session_command strict cfg (CancelOrder i) \<longleftrightarrow> True"
| "session_command strict cfg (ModifyOrder i px q) \<longleftrightarrow> (strict \<longrightarrow> price_in_window cfg px)"

lemma session_command_fits:
  assumes "session_command st cfg c" "dense_base_price b = base_price cfg" "dense_max_ticks b = max_ticks cfg"
  shows "command_fits st b c"
proof -
  have "in_window b p" if "price_in_window cfg p" for p
    using that assms(2,3) by (auto simp: in_window_def price_in_window_def dense_index_tick tick_of_def)
  then show ?thesis using assms(1) by (cases c) auto
qed

lemma run_engine_spec:
  assumes "capacity \<le> u32_max" "\<forall>c \<in> set cs. session_command st cfg c"
  shows "yields (run_engine cfg capacity cs) (\<lambda>(evs, e). einv st e)"
  unfolding run_engine_def
proof (rule yields_bind [OF engine_new_spec [OF assms(1)]])
  fix e assume e: "einv st e \<and>
     config e = cfg \<and> dense_base_price (book e) = base_price cfg \<and> dense_max_ticks (book e) = max_ticks cfg"
  have "yields (process_all cs e) (\<lambda>(evs, e'). goes st e e')"
  proof (rule process_all_goes)
    show "einv st e" using e by simp
    show "\<forall>c \<in> set cs. command_fits st (book e) c" using assms(2) session_command_fits [of st cfg _ "book e"] e by blast
  qed
  then show "yields (process_all cs e) (\<lambda>(evs, e). einv st e)"
    by (rule yields_mono) (auto simp: goes_def)
qed

end
