(* ===== verification/Mx_Ladder.thy ===== *)
theory Mx_Ladder
  imports Mx_Engine_Runs
begin

text \<open>
  The abstract order book: each side is one list of orders in priority order, best price first and
  oldest first at one price. \<open>ladder\<close> computes it from the engine's structures (levels, links,
  arena), and a reference matcher works on the list alone. The matching loop refines the reference.
\<close>

subsection \<open>The queue at a price\<close>

fun walk :: "nat \<Rightarrow> (arena_index \<rightharpoonup> order) \<Rightarrow> arena_index option \<Rightarrow> arena_index list" where
  "walk 0 h c = []"
| "walk (Suc k) h c =
     (case c of
        None \<Rightarrow> []
      | Some i \<Rightarrow>
          i # (case h i of None \<Rightarrow> [] | Some ord \<Rightarrow>
                 walk k h (if o_next ord \<noteq> ARENA_NULL then Some (o_next ord) else None)))"

definition queue_at :: "side \<Rightarrow> nat \<Rightarrow> order_book \<Rightarrow> arena \<Rightarrow> arena_index list" where
  "queue_at s p b ar =
     walk (a_capacity ar) (heap_of ar) (head (vlevel (dense_base_price b) (dense_max_ticks b) (view s b) p))"

lemma walk_dll:
  assumes "dll h prev q ARENA_NULL" "length q \<le> k" "ARENA_NULL \<notin> set q"
  shows "walk k h (if q = [] then None else Some (hd q)) = q"
  using assms
proof (induction q arbitrary: prev k)
  case Nil
  then show ?case by (cases k) simp_all
next
  case (Cons i q)
  then obtain k' where k: "k = Suc k'" "length q \<le> k'" by (cases k) auto
  obtain ord where ord: "h i = Some ord" "o_next ord = (if q = [] then ARENA_NULL else hd q)" "dll h i q ARENA_NULL"
    using Cons.prems(1) by (cases q) auto
  have "(if o_next ord \<noteq> ARENA_NULL then Some (o_next ord) else None) = (if q = [] then None else Some (hd q))"
    using ord(2) Cons.prems(3) by (cases q) auto
  then show ?case using Cons.IH [OF ord(3) k(2)] Cons.prems(3) ord(1) k(1) by simp
qed

lemma queue_slots:
  assumes rel: "book_rel b ar Q" and mem: "i \<in> set (Q s p)"
  shows "i < a_capacity ar" "i \<noteq> ARENA_NULL"
proof -
  from book_rel_slot [OF rel mem] obtain ord where "heap_of ar i = Some ord" by blast
  then show "i < a_capacity ar" by (rule heap_of_Some_less [OF book_relD(1) [OF rel]])
  then show "i \<noteq> ARENA_NULL" using arena_slot(5) [OF book_relD(1) [OF rel]] by (fastforce simp: ARENA_NULL_def)
qed

lemma queue_at_eq:
  assumes rel: "book_rel b ar Q"
  shows "queue_at s p b ar = Q s p"
proof -
  let ?l = "vlevel (dense_base_price b) (dense_max_ticks b) (view s b) p"
  have q: "distinct (Q s p)" "dll (heap_of ar) ARENA_NULL (Q s p) ARENA_NULL" "ends_ok ?l (Q s p)"
    using side_relD(3) [OF book_relD(2) [OF rel, of s], of p] by (simp_all add: queue_ok_def)
  have "set (Q s p) \<subseteq> {..<a_capacity ar}" using queue_slots(1) [OF rel] by blast
  from card_mono [OF _ this] have "length (Q s p) \<le> a_capacity ar"
    using distinct_card [OF q(1)] by simp
  moreover have "head ?l = (if Q s p = [] then None else Some (hd (Q s p)))" using q(3) by (simp add: ends_ok_def)
  moreover have "ARENA_NULL \<notin> set (Q s p)" using queue_slots(2) [OF rel] by blast
  ultimately show ?thesis using walk_dll [OF q(2)] by (simp add: queue_at_def)
qed

subsection \<open>The ladder of a side\<close>

definition window_prices :: "side \<Rightarrow> order_book \<Rightarrow> nat list" where
  "window_prices s b = (let ps = [dense_base_price b..<dense_base_price b + dense_max_ticks b] in
     case s of Bid \<Rightarrow> rev ps | Ask \<Rightarrow> ps)"

definition ladder :: "side \<Rightarrow> engine \<Rightarrow> order list" where
  "ladder s e = concat (map (\<lambda>p. map (\<lambda>i. core (the (heap_of (eng_arena e) i))) (queue_at s p (book e) (eng_arena e)))
     (window_prices s (book e)))"

definition rungs :: "nat list \<Rightarrow> (nat \<Rightarrow> arena_index list) \<Rightarrow> (arena_index \<rightharpoonup> order) \<Rightarrow> order list" where
  "rungs ps f ch = concat (map (\<lambda>p. map (\<lambda>i. the (ch i)) (f p)) ps)"

lemma rungs_simps [simp]:
  "rungs [] f ch = []" "rungs (p # ps) f ch = map (\<lambda>i. the (ch i)) (f p) @ rungs ps f ch"
  "rungs (ps @ ps') f ch = rungs ps f ch @ rungs ps' f ch"
  by (simp_all add: rungs_def)

lemma rungs_cong:
  assumes "\<And>p. p \<in> set ps \<Longrightarrow> f p = g p" "\<And>p i. p \<in> set ps \<Longrightarrow> i \<in> set (f p) \<Longrightarrow> ch i = ch' i"
  shows "rungs ps f ch = rungs ps g ch'"
  using assms
proof (induction ps)
  case (Cons a ps)
  have "map (\<lambda>i. the (ch i)) (f a) = map (\<lambda>i. the (ch' i)) (g a)"
    using Cons.prems(1) [of a] Cons.prems(2) [of a] by simp
  moreover have "rungs ps f ch = rungs ps g ch'"
  proof (rule Cons.IH)
    show "f p = g p" if "p \<in> set ps" for p using Cons.prems(1) [of p] that by simp
    show "ch i = ch' i" if "p \<in> set ps" "i \<in> set (f p)" for p i using Cons.prems(2) [of p i] that by simp
  qed
  ultimately show ?case by simp
qed simp

lemma rungs_empty: "(\<And>p. p \<in> set ps \<Longrightarrow> f p = []) \<Longrightarrow> rungs ps f ch = []"
  by (induction ps) auto

lemma ladder_rungs:
  assumes "book_ok e Q"
  shows "ladder s e = rungs (window_prices s (book e)) (Q s) (core_heap (heap_of (eng_arena e)))"
proof -
  note rel = book_okD(1) [OF assms]
  have "core (the (heap_of (eng_arena e) i)) = the (core_heap (heap_of (eng_arena e)) i)" if "i \<in> set (Q s p)" for i p
    using book_rel_slot [OF rel that] by (auto simp: core_heap_def)
  then show ?thesis
    unfolding ladder_def rungs_def queue_at_eq [OF rel] by (auto intro!: arg_cong [of _ _ concat])
qed

lemma ladder_frame:
  "book e' = book e \<Longrightarrow> eng_arena e' = eng_arena e \<Longrightarrow> ladder s e' = ladder s e"
  by (simp add: ladder_def)

lemma window_prices_same: "same_window b b' \<Longrightarrow> window_prices s b' = window_prices s b"
  by (simp add: window_prices_def same_window_def)

lemma window_prices_in: "in_window b p \<longleftrightarrow> p \<in> set (window_prices s b)"
  by (cases s) (auto simp: in_window_def dense_index_tick tick_of_def window_prices_def)

lemma window_prices_order: "sorted_wrt (\<lambda>p q. better s p q \<and> p \<noteq> q) (window_prices s b)"
proof -
  have "sorted_wrt (<) [m..<n]" for m n :: nat by simp
  then have "sorted_wrt (\<lambda>x y. x \<le> y \<and> x \<noteq> y) [m..<n]" for m n :: nat by (rule sorted_wrt_mono_rel [rotated]) simp
  moreover from this have "sorted_wrt (\<lambda>x y. y \<le> x \<and> x \<noteq> y) (rev [m..<n])" for m n :: nat
    unfolding sorted_wrt_rev by (rule sorted_wrt_mono_rel [rotated]) simp
  ultimately show ?thesis by (cases s) (simp_all add: window_prices_def better_def)
qed

lemma ladder_orders:
  assumes "book_ok e Q" "x \<in> set (ladder s e)"
  obtains i ord where "heap_of (eng_arena e) i = Some ord" "x = core ord" "o_side ord = s" "in_window (book e) (o_price ord)"
proof -
  from assms(2) obtain p i where p: "p \<in> set (window_prices s (book e))" "i \<in> set (Q s p)"
    "x = the (core_heap (heap_of (eng_arena e)) i)"
    unfolding ladder_rungs [OF assms(1)] rungs_def by auto
  obtain ord where ord: "heap_of (eng_arena e) i = Some ord" "o_side ord = s" "o_price ord = p"
    using book_rel_slot [OF book_okD(1) [OF assms(1)] p(2)] by blast
  show thesis
    by (rule that [OF ord(1)]) (use ord p window_prices_in in \<open>auto simp: core_heap_def\<close>)
qed

end
