(* ===== verification/Mx_Reference.thy ===== *)
theory Mx_Reference
  imports Mx_Ladder
begin

text \<open>
  A reference matcher on one list of resting orders in priority order, and that the engine's
  matching loop computes exactly it on the ladder of the opposing side: the same fills in the same
  order, the same rest of the taker, the same decision to cancel it, and the same ladder afterwards.
\<close>

subsection \<open>The reference\<close>

definition reduced :: "nat \<Rightarrow> order \<Rightarrow> order" where
  "reduced d x = x\<lparr>o_filled := o_filled x + d\<rparr>"

text \<open>Taking from the first order: it goes when nothing of it remains, and stays first otherwise.\<close>

definition take_first :: "nat \<Rightarrow> order \<Rightarrow> order list \<Rightarrow> order list" where
  "take_first d x xs = (if d = remaining x then xs else reduced d x # xs)"

type_synonym trade = "order_id \<times> order_id \<times> nat \<times> nat"

function ref_match ::
  "stp_mode \<Rightarrow> order_id \<Rightarrow> side \<Rightarrow> nat \<Rightarrow> nat option \<Rightarrow> nat \<Rightarrow> order list \<Rightarrow> trade list \<times> bool \<times> nat \<times> order list" where
  "ref_match mode tid sd px stp rem [] = ([], False, rem, [])"
| "ref_match mode tid sd px stp rem (x # xs) =
     (if rem = 0 \<or> \<not> is_price_acceptable sd px (o_price x) then ([], False, rem, x # xs)
      else if stp_hit stp x then
        (case mode of
           CancelNewest \<Rightarrow> ([], False, rem, x # xs)
         | CancelOldest \<Rightarrow> ref_match mode tid sd px stp rem xs
         | CancelBoth \<Rightarrow> ([], True, rem, xs)
         | DecrementAndCancel \<Rightarrow>
             (let d = min rem (remaining x) in ([], True, rem - d, take_first d x xs)))
      else
        (let d = min rem (matchable_qty x);
             (fs, res) = ref_match mode tid sd px stp (rem - d) (take_first d x xs)
         in ((o_id x, tid, o_price x, d) # fs, res)))"
  by pat_completeness auto
termination
proof (relation "measure (\<lambda>(mode, tid, sd, px, stp, rem, xs). rem + length xs)", goal_cases)
  case (3 mode tid sd px stp rem x xs d)
  then show ?case
    using matchable_pos [of x] matchable_le_remaining [of x] by (cases "matchable_qty x = 0") (auto simp: take_first_def)
qed auto

declare ref_match.simps(2) [simp del]

definition prepend :: "trade list \<Rightarrow> trade list \<times> 'a \<Rightarrow> trade list \<times> 'a" where
  "prepend fs r = (fs @ fst r, snd r)"

lemma prepend_simps [simp]: "prepend [] r = r" "prepend fs (gs, x) = (fs @ gs, x)"
  "prepend fs (prepend gs r) = prepend (fs @ gs) r"
  by (simp_all add: prepend_def)

lemma core_reduced: "core (ord\<lparr>o_filled := o_filled ord + d\<rparr>) = reduced d (core ord)"
  by (simp add: core_def reduced_def)

lemma stp_hit_core [simp]: "stp_hit stp (core x) = stp_hit stp x"
  by (simp add: stp_hit_def)

subsection \<open>The first rung\<close>

definition inside :: "side \<Rightarrow> engine \<Rightarrow> bool" where
  "inside s e \<longleftrightarrow> (\<forall>i ord. heap_of (eng_arena e) i = Some ord \<and> o_side ord = s \<longrightarrow> in_window (book e) (o_price ord))"

lemma inside_kept:
  assumes "inside s e" "kept e e'"
  shows "inside s e'"
proof -
  have sh: "shrinks (heap_of (eng_arena e)) (heap_of (eng_arena e'))" and win: "same_window (book e) (book e')"
    using assms(2) by (simp_all add: kept_def same_setting_def)
  show ?thesis unfolding inside_def
  proof (intro allI impI, elim conjE)
    fix i ord assume ord: "heap_of (eng_arena e') i = Some ord" "o_side ord = s"
    show "in_window (book e') (o_price ord)"
      by (rule shrinksD [OF sh ord(1)]) (use assms(1) ord(2) in_window_same [OF win] in \<open>auto simp: inside_def\<close>)
  qed
qed

text \<open>If every order of a side is inside the window, the best price is the first with a queue.\<close>

lemma best_first:
  assumes ok: "book_ok e Q" and ins: "inside s e" and best: "v_best (view s (book e)) = Some rp"
  obtains ps ps' where "window_prices s (book e) = ps @ rp # ps'" "\<And>p. p \<in> set ps \<Longrightarrow> Q s p = []"
    "rp \<notin> set ps" "rp \<notin> set ps'"
proof -
  note rel = book_okD(1) [OF ok]
  let ?base = "dense_base_price (book e)" and ?n = "dense_max_ticks (book e)"
  have bo: "best_ok ?base ?n s (view s (book e)) (Q s)" by (rule side_relD(5) [OF book_relD(2) [OF rel]])
  then have ne: "Q s rp \<noteq> []" using best by (simp add: best_ok_def)
  obtain ord where "heap_of (eng_arena e) (hd (Q s rp)) = Some ord" "o_side ord = s" "o_price ord = rp"
    using book_rel_slot [OF rel hd_in_set [OF ne]] by blast
  then have "in_window (book e) rp" using ins by (auto simp: inside_def)
  then obtain ps ps' where split: "window_prices s (book e) = ps @ rp # ps'"
    using split_list [of rp] window_prices_in by blast
  have ord: "\<And>p. p \<in> set ps \<Longrightarrow> better s p rp \<and> p \<noteq> rp" "\<And>p. p \<in> set ps' \<Longrightarrow> better s rp p \<and> rp \<noteq> p"
    using window_prices_order [of s "book e"] by (auto simp: split sorted_wrt_append)
  have "Q s p = []" if "p \<in> set ps" for p
  proof (rule ccontr)
    assume "Q s p \<noteq> []"
    moreover have "in_window (book e) p" using that split window_prices_in [of "book e" p s] by simp
    then obtain i where "i < ?n" "p = ?base + i" by (auto simp: in_window_def dense_index_tick tick_of_Some)
    ultimately have "better s rp p" using bo best by (auto simp: best_ok_def)
    then show False using ord(1) [OF that] by (cases s) (auto simp: better_def)
  qed
  then show thesis using that [OF split] ord by blast
qed

lemma ladder_first:
  assumes ok: "book_ok e Q" and ins: "inside s e" and best: "v_best (view s (book e)) = Some rp"
    and q: "Q s rp = i # q" and ord: "heap_of (eng_arena e) i = Some ord" "o_side ord = s" "o_price ord = rp"
  shows "\<exists>xs. ladder s e = core ord # xs \<and>
    (\<forall>d e'. took i ord d Q e e' \<longrightarrow> ladder s e' = take_first d (core ord) xs \<and> ladder (opposite s) e' = ladder (opposite s) e)"
proof -
  note rel = book_okD(1) [OF ok]
  let ?ch = "core_heap (heap_of (eng_arena e))"
  obtain ps ps' where split: "window_prices s (book e) = ps @ rp # ps'" "\<And>p. p \<in> set ps \<Longrightarrow> Q s p = []"
    "rp \<notin> set ps" "rp \<notin> set ps'" using best_first [OF ok ins best] by blast
  have chi: "?ch i = Some (core ord)" using ord(1) by (simp add: core_heap_def)
  define xs where "xs = map (\<lambda>j. the (?ch j)) q @ rungs ps' (Q s) ?ch"
  have lad: "ladder s e = core ord # xs"
    using rungs_empty [OF split(2)] by (simp add: ladder_rungs [OF ok] split(1) q chi xs_def)
  have "ladder s e' = take_first d (core ord) xs \<and> ladder (opposite s) e' = ladder (opposite s) e"
    if t: "took i ord d Q e e'" for d e'
  proof -
    let ?ch' = "core_heap (heap_of (eng_arena e'))"
    define Q' where "Q' = (if d = remaining ord then upd_queue Q s rp q else Q)"
    have ok': "book_ok e' Q'" using t q ord(2,3) by (simp add: took_def Q'_def split: if_splits)
    have ch': "?ch' = ?ch(i := if d = remaining ord then None else Some (reduced d (core ord)))"
      using t by (simp add: took_def core_reduced)
    have win: "window_prices s' (book e') = window_prices s' (book e)" for s'
      using t by (simp add: took_def window_prices_same same_setting_def)
    have i: "i \<in> set (Q s rp)" using q by simp
    have dist: "i \<notin> set q" using side_relD(3) [OF book_relD(2) [OF rel, of s], of rp] q by (simp add: queue_ok_def)
    have other: "?ch' j = ?ch j" if "j \<in> set (Q s' p)" "(s', p) \<noteq> (s, rp)" for s' p j
    proof -
      have "j \<noteq> i" using book_rel_disjoint [OF rel i, of s' p] that by auto
      then show ?thesis using ch' by simp
    qed
    have here: "?ch' j = ?ch j" if "j \<in> set q" for j using that dist ch' by auto
    have empty: "rungs ps (Q' s) ?ch' = []" by (rule rungs_empty) (use split(2,3) in \<open>auto simp: Q'_def\<close>)
    have rest: "rungs ps' (Q' s) ?ch' = rungs ps' (Q s) ?ch"
    proof (rule rungs_cong)
      show "Q' s p = Q s p" if "p \<in> set ps'" for p using that split(4) by (auto simp: Q'_def)
      show "?ch' j = ?ch j" if "p \<in> set ps'" "j \<in> set (Q' s p)" for p j
        using that split(4) other [of j s p] by (auto simp: Q'_def split: if_splits)
    qed
    have "map (\<lambda>j. the (?ch' j)) q = map (\<lambda>j. the (?ch j)) q" using here by simp
    then have "ladder s e' = take_first d (core ord) xs"
      unfolding ladder_rungs [OF ok'] win split(1) rungs_simps empty rest
      by (simp add: Q'_def q ch' xs_def take_first_def)
    moreover have "ladder (opposite s) e' = ladder (opposite s) e"
      unfolding ladder_rungs [OF ok'] ladder_rungs [OF ok] win
      by (rule rungs_cong) (use other [of _ "opposite s"] in \<open>auto simp: Q'_def split: if_splits\<close>)
    ultimately show ?thesis by simp
  qed
  then show ?thesis using lad by blast
qed

subsection \<open>The matching loop refines the reference\<close>

definition refines ::
  "order_id \<Rightarrow> side \<Rightarrow> nat \<Rightarrow> nat option \<Rightarrow> nat \<Rightarrow> engine \<Rightarrow> nat \<Rightarrow> engine \<Rightarrow> bool" where
  "refines tid sd px stp rem0 e0 rem e \<longleftrightarrow> (\<exists>Q. book_ok e Q) \<and> inside (opposite sd) e \<and> same_stops e0 e \<and>
     ladder sd e = ladder sd e0 \<and>
     (\<exists>fs. fills_in (events e) = fills_in (events e0) @ fs \<and>
        ref_match (cfg_stp_mode (config e0)) tid sd px stp rem0 (ladder (opposite sd) e0) =
          prepend fs (ref_match (cfg_stp_mode (config e0)) tid sd px stp rem (ladder (opposite sd) e)))"

definition refined ::
  "order_id \<Rightarrow> side \<Rightarrow> nat \<Rightarrow> nat option \<Rightarrow> nat \<Rightarrow> engine \<Rightarrow> bool \<times> nat \<times> engine \<Rightarrow> bool" where
  "refined tid sd px stp rem0 e0 res \<longleftrightarrow> (case res of (c, r, e) \<Rightarrow>
     ladder sd e = ladder sd e0 \<and>
     (\<exists>fs. fills_in (events e) = fills_in (events e0) @ fs \<and>
        ref_match (cfg_stp_mode (config e0)) tid sd px stp rem0 (ladder (opposite sd) e0) =
          (fs, c, r, ladder (opposite sd) e)))"

lemma ref_match_stop:
  assumes "rem = 0 \<or> (case xs of [] \<Rightarrow> True | x # _ \<Rightarrow> \<not> is_price_acceptable sd px (o_price x))"
  shows "ref_match mode tid sd px stp rem xs = ([], False, rem, xs)"
  using assms by (cases xs) (auto simp: ref_match.simps(2))

lemma refines_stop:
  assumes "refines tid sd px stp rem0 e0 rem e"
    "ref_match (cfg_stp_mode (config e0)) tid sd px stp rem (ladder (opposite sd) e) = ([], c, rem, ladder (opposite sd) e)"
  shows "refined tid sd px stp rem0 e0 (c, rem, e)"
  using assms by (auto simp: refines_def refined_def)

text \<open>One turn against the first order of the ladder.\<close>

lemma refines_first:
  assumes r: "refines tid sd px stp rem0 e0 rem e" and pos: "0 < rem"
    and best: "best_opposing sd (book e) = Some rp" "is_price_acceptable sd px rp"
  shows "yields (match_step tid sd px stp rem e)
    (\<lambda>out. case out of Continue rem' e1 \<Rightarrow> refines tid sd px stp rem0 e0 rem' e1
       | Finish c rem' e1 \<Rightarrow> refined tid sd px stp rem0 e0 (c, rem', e1))"
proof -
  let ?mode = "cfg_stp_mode (config e0)" and ?s = "opposite sd"
  obtain Q fs where ok: "book_ok e Q" and ins: "inside ?s e" and same: "same_stops e0 e"
    and lad: "ladder sd e = ladder sd e0" and fs: "fills_in (events e) = fills_in (events e0) @ fs"
    "ref_match ?mode tid sd px stp rem0 (ladder ?s e0) = prepend fs (ref_match ?mode tid sd px stp rem (ladder ?s e))"
    using r by (auto simp: refines_def)
  have mode: "cfg_stp_mode (config e) = ?mode" using same by (simp add: same_stops_def)
  have vbest: "v_best (view ?s (book e)) = Some rp" using best(1) by (simp add: best_opposing_view)
  show ?thesis
  proof (rule match_step_eq [OF ok best, of tid stp rem])
    fix maker assume maker: "heap_of (eng_arena e) (hd (Q ?s rp)) = Some maker" "Q ?s rp \<noteq> []"
      "o_side maker = ?s" "o_price maker = rp"
      and run: "match_step tid sd px stp rem e =
       (if stp_hit stp maker then stp_step (cfg_stp_mode (config e)) (hd (Q ?s rp)) maker rp rem e
        else fill_step tid sd (hd (Q ?s rp)) maker rp rem e)"
    let ?i = "hd (Q ?s rp)"
    have q: "Q ?s rp = ?i # tl (Q ?s rp)" using maker(2) by simp
    obtain xs where xs: "ladder ?s e = core maker # xs"
      "\<And>d e1. took ?i maker d Q e e1 \<Longrightarrow> ladder ?s e1 = take_first d (core maker) xs \<and> ladder sd e1 = ladder sd e"
      using ladder_first [OF ok ins vbest q maker(1,3,4)] by auto
    have after: "refines tid sd px stp rem0 e0 rem' e1"
      if t: "took ?i maker d Q e e1" and ev: "fills_in (events e1) = fills_in (events e) @ gs"
        and ref: "ref_match ?mode tid sd px stp rem (core maker # xs) =
          prepend gs (ref_match ?mode tid sd px stp rem' (take_first d (core maker) xs))" for d e1 gs rem'
    proof -
      have k: "kept e e1" by (rule took_kept [OF t maker(1)])
      then have "inside ?s e1" "\<exists>Q. book_ok e1 Q" "same_stops e e1" using inside_kept [OF ins] by (simp_all add: kept_def)
      then show ?thesis
        using fs xs(2) [OF t] ev ref same_stops_trans [OF same] lad unfolding refines_def by (auto simp: xs(1))
    qed
    have final: "refined tid sd px stp rem0 e0 (c, rem', e1)"
      if t: "took ?i maker d Q e e1" and ev: "fills_in (events e1) = fills_in (events e)"
        and ref: "ref_match ?mode tid sd px stp rem (core maker # xs) =
          ([], c, rem', take_first d (core maker) xs)" for d e1 c rem'
      using fs xs(2) [OF t] ev ref lad by (auto simp: refined_def xs(1))
    show ?thesis
    proof (cases "stp_hit stp maker")
      case False
      let ?d = "min rem (matchable_qty maker)"
      have ref: "ref_match ?mode tid sd px stp rem (core maker # xs) =
          prepend [(o_id maker, tid, rp, ?d)] (ref_match ?mode tid sd px stp (rem - ?d) (take_first ?d (core maker) xs))"
        using False pos best(2) maker(4) by (simp add: ref_match.simps(2) Let_def prepend_def split_beta)
      show ?thesis unfolding run using False
        by (auto intro!: yields_mono [OF fill_step_spec [OF ok maker(1,3,4)]] after [OF _ _ ref]
            simp: fill_post_def Let_def)
    next
      case True
      have live: "0 < remaining maker" by (rule book_okD(2) [OF ok maker(1)])
      have "case out of Continue rem' e1 \<Rightarrow> refines tid sd px stp rem0 e0 rem' e1
          | Finish c rem' e1 \<Rightarrow> refined tid sd px stp rem0 e0 (c, rem', e1)"
        if post: "stp_post ?mode ?i maker rem e Q out" for out
      proof (cases ?mode)
        case CancelNewest
        then have "refined tid sd px stp rem0 e0 (False, rem, e)"
          using True pos best(2) maker(4) by (intro refines_stop [OF r]) (simp add: ref_match.simps(2) xs(1))
        then show ?thesis using post CancelNewest by (simp add: stp_post_def)
      next
        case CancelOldest
        obtain e1 where e1: "out = Continue rem e1" "took ?i maker (remaining maker) Q e e1" "no_fills e e1"
          using post CancelOldest by (auto simp: stp_post_def)
        have "refines tid sd px stp rem0 e0 rem e1"
          by (rule after [OF e1(2), of "[]"]) (use True pos best(2) maker(4) CancelOldest e1(3) in \<open>simp_all add: ref_match.simps(2) take_first_def\<close>)
        then show ?thesis using e1(1) by simp
      next
        case CancelBoth
        obtain e1 where e1: "out = Finish True rem e1" "took ?i maker (remaining maker) Q e e1" "no_fills e e1"
          using post CancelBoth by (auto simp: stp_post_def)
        have "refined tid sd px stp rem0 e0 (True, rem, e1)"
          by (rule final [OF e1(2,3)]) (use True pos best(2) maker(4) CancelBoth in \<open>simp add: ref_match.simps(2) take_first_def\<close>)
        then show ?thesis using e1(1) by simp
      next
        case DecrementAndCancel
        let ?d = "min rem (remaining maker)"
        obtain e1 where e1: "out = Finish True (rem - ?d) e1" "took ?i maker ?d Q e e1" "no_fills e e1"
          using post DecrementAndCancel by (auto simp: stp_post_def Let_def)
        have "refined tid sd px stp rem0 e0 (True, rem - ?d, e1)"
          by (rule final [OF e1(2,3)]) (use True pos best(2) maker(4) DecrementAndCancel in \<open>simp add: ref_match.simps(2) Let_def\<close>)
        then show ?thesis using e1(1) by simp
      qed
      then show ?thesis unfolding run using True mode
        by (auto intro: yields_mono [OF stp_step_spec [OF ok maker(1)]])
    qed
  qed
qed

text \<open>The whole loop.\<close>

lemma ladder_none:
  assumes ok: "book_ok e Q" and none: "no_match sd px e"
  shows "case ladder (opposite sd) e of [] \<Rightarrow> True | x # _ \<Rightarrow> \<not> is_price_acceptable sd px (o_price x)"
proof (cases "ladder (opposite sd) e")
  case (Cons x xs)
  show ?thesis
    by (rule ladder_orders [OF ok, of x "opposite sd"]) (use Cons no_match_all [OF ok none] in auto)
qed simp

theorem match_refines:
  assumes ok: "book_ok e Q" and ins: "inside (opposite sd) e"
  shows "yields (match_against_book tid sd px stp rem e) (refined tid sd px stp rem e)"
proof (rule match_loop_rule [where P = "refines tid sd px stp rem e"])
  have "\<exists>fs. fs = [] \<and> ref_match (cfg_stp_mode (config e)) tid sd px stp rem (ladder (opposite sd) e) =
      prepend fs (ref_match (cfg_stp_mode (config e)) tid sd px stp rem (ladder (opposite sd) e))" by simp
  then show "refines tid sd px stp rem e rem e" using ok ins unfolding refines_def by (auto intro!: exI [of _ "[]"])
next
  fix r e1 assume pos: "0 < r" and ref: "refines tid sd px stp rem e r e1"
  then obtain Q1 where ok1: "book_ok e1 Q1" by (auto simp: refines_def)
  show "yields (match_step tid sd px stp r e1) (\<lambda>out. case out of
      Continue r e2 \<Rightarrow> refines tid sd px stp rem e r e2 | Finish c r e2 \<Rightarrow> refined tid sd px stp rem e (c, r, e2))"
  proof (rule no_match_cases [of sd px e1])
    assume none: "no_match sd px e1"
    have "refined tid sd px stp rem e (False, r, e1)"
      by (rule refines_stop [OF ref], rule ref_match_stop) (use ladder_none [OF ok1 none] in simp)
    then show ?thesis using match_step_none [OF none] by simp
  next
    fix rp assume "best_opposing sd (book e1) = Some rp" "is_price_acceptable sd px rp"
    then show ?thesis by (rule refines_first [OF ref pos])
  qed
next
  fix e1 assume "refines tid sd px stp rem e 0 e1"
  then show "refined tid sd px stp rem e (False, 0, e1)" by (rule refines_stop) (simp add: ref_match_stop)
qed

end
