(* ===== verification/Mx_Ref_Book.thy ===== *)
theory Mx_Ref_Book
  imports Mx_Reference
begin

text \<open>
  The abstract limit order book: two ladders. The facts that connect its queries and its insertion
  with the engine's structures: an order is known, the book is full, the best opposing order, where a
  new order goes, and what a cancellation leaves; and the order of a ladder.
\<close>

record lob =
  lob_bids :: "order list"
  lob_asks :: "order list"

fun lob_side :: "side \<Rightarrow> lob \<Rightarrow> order list" where
  "lob_side Bid L = lob_bids L"
| "lob_side Ask L = lob_asks L"

fun lob_put :: "side \<Rightarrow> order list \<Rightarrow> lob \<Rightarrow> lob" where
  "lob_put Bid xs L = L\<lparr>lob_bids := xs\<rparr>"
| "lob_put Ask xs L = L\<lparr>lob_asks := xs\<rparr>"

definition lob_of :: "engine \<Rightarrow> lob" where
  "lob_of e = \<lparr>lob_bids = ladder Bid e, lob_asks = ladder Ask e\<rparr>"

lemma lob_side_of [simp]: "lob_side s (lob_of e) = ladder s e"
  by (cases s) (simp_all add: lob_of_def)

lemma lob_eqI:
  assumes "\<And>s. lob_side s L = lob_side s M"
  shows "L = (M :: lob)"
  using assms [of Bid] assms [of Ask] by (cases L; cases M) simp

lemma lob_side_put [simp]: "lob_side s (lob_put s' xs L) = (if s = s' then xs else lob_side s L)"
  by (cases s; cases s') simp_all

lemma lob_of_frame: "book e' = book e \<Longrightarrow> eng_arena e' = eng_arena e \<Longrightarrow> lob_of e' = lob_of e"
  by (simp add: lob_of_def ladder_def)

lemma lob_of_emit [simp]: "lob_of (after_emit f e) = lob_of e"
  by (rule lob_of_frame) simp_all

lemma side_ex: "(\<exists>s. P s) \<longleftrightarrow> P Bid \<or> P Ask"
  by (metis (full_types) side.exhaust)

lemma side_cases: "s' = s \<or> s' = opposite s"
  by (cases s; cases s') simp_all

subsection \<open>The order of a ladder\<close>

lemma sorted_rungs:
  assumes "sorted_wrt (\<lambda>p q. better s p q \<and> p \<noteq> q) ps" "\<And>p i. i \<in> set (f p) \<Longrightarrow> o_price (the (ch i)) = p"
  shows "sorted_wrt (\<lambda>x y. better s (o_price x) (o_price y)) (rungs ps f ch)"
  using assms(1)
proof (induction ps)
  case (Cons p ps)
  have "sorted_wrt (\<lambda>x y. better s (o_price x) (o_price y)) (map (\<lambda>i. the (ch i)) (f p))"
    unfolding sorted_wrt_iff_nth_less using assms(2) [OF nth_mem] by simp
  moreover have "better s (o_price x) (o_price y)"
    if x: "x \<in> set (map (\<lambda>i. the (ch i)) (f p))" and y: "y \<in> set (rungs ps f ch)" for x y
  proof -
    have "o_price x = p" using x assms(2) by auto
    moreover obtain p' where "p' \<in> set ps" "o_price y = p'" using y assms(2) by (auto simp: rungs_def)
    ultimately show ?thesis using Cons.prems by simp
  qed
  ultimately show ?case using Cons by (simp add: sorted_wrt_append)
qed simp

lemma ladder_sorted:
  assumes "book_ok e Q"
  shows "sorted_wrt (\<lambda>x y. better s (o_price x) (o_price y)) (ladder s e)"
  unfolding ladder_rungs [OF assms]
proof (rule sorted_rungs [OF window_prices_order])
  fix p i assume "i \<in> set (Q s p)"
  from book_rel_slot [OF book_okD(1) [OF assms] this]
  show "o_price (the (core_heap (heap_of (eng_arena e)) i)) = p" by (auto simp: core_heap_def)
qed

lemma distinct_rungs:
  assumes "distinct ps" "\<And>p. distinct (f p)" "\<And>p p'. p \<noteq> p' \<Longrightarrow> set (f p) \<inter> set (f p') = {}"
    "inj_on g (\<Union>p. set (f p))"
  shows "distinct (map g (concat (map f ps)))"
  using assms(1)
proof (induction ps)
  case (Cons p ps)
  have "g i \<noteq> g j" if "i \<in> set (f p)" "p' \<in> set ps" "j \<in> set (f p')" for i j p'
  proof -
    have "p \<noteq> p'" using that(2) Cons.prems by auto
    then have "i \<noteq> j" using assms(3) that by blast
    then show ?thesis using inj_onD [OF assms(4), of i j] that by blast
  qed
  moreover have "distinct (map g (f p))"
    unfolding distinct_map using assms(2,4) by (auto intro: inj_on_subset)
  ultimately show ?case using Cons by fastforce
qed simp

lemma ladder_distinct:
  assumes "book_ok e Q"
  shows "distinct (map o_id (ladder s e))"
proof -
  note rel = book_okD(1) [OF assms]
  let ?g = "\<lambda>i. o_id (the (core_heap (heap_of (eng_arena e)) i))"
  have eq: "map o_id (ladder s e) = map ?g (concat (map (Q s) (window_prices s (book e))))"
    unfolding ladder_rungs [OF assms] rungs_def by (simp add: map_concat comp_def)
  show ?thesis unfolding eq
  proof (rule distinct_rungs)
    show "distinct (window_prices s (book e))" by (cases s) (simp_all add: window_prices_def)
    show "distinct (Q s p)" for p
      using side_relD(3) [OF book_relD(2) [OF rel, of s], of p] by (simp add: queue_ok_def)
    show "set (Q s p) \<inter> set (Q s p') = {}" if "p \<noteq> p'" for p p'
      using book_rel_disjoint [OF rel, of _ s p s p'] that by blast
    show "inj_on ?g (\<Union>p. set (Q s p))"
    proof (rule inj_onI, elim UN_E)
      fix i j p p' assume i: "i \<in> set (Q s p)" and j: "j \<in> set (Q s p')" and eq: "?g i = ?g j"
      obtain a where a: "heap_of (eng_arena e) i = Some a" using book_rel_slot [OF rel i] by blast
      obtain b where b: "heap_of (eng_arena e) j = Some b" using book_rel_slot [OF rel j] by blast
      have "o_id a = o_id b" using eq a b by (simp add: core_heap_def)
      then show "i = j" using book_relD(4) [OF rel, of "o_id a" i] book_relD(4) [OF rel, of "o_id a" j] a b by auto
    qed
  qed
qed

lemma ladder_live:
  assumes "book_ok e Q" "x \<in> set (ladder s e)"
  shows "0 < remaining x" "o_side x = s"
proof -
  show "0 < remaining x"
    by (rule ladder_orders [OF assms]) (use book_okD(2) [OF assms(1)] in auto)
  show "o_side x = s" by (rule ladder_orders [OF assms]) auto
qed

subsection \<open>What the simulation keeps\<close>

definition sim :: "engine \<Rightarrow> queues \<Rightarrow> bool" where
  "sim e Q \<longleftrightarrow> book_ok e Q \<and> (\<forall>s. inside s e)"

lemma sim_frame: "book e' = book e \<Longrightarrow> eng_arena e' = eng_arena e \<Longrightarrow> sim e' Q = sim e Q"
  by (simp add: sim_def book_ok_def inside_def)

lemma sim_emit [simp]: "sim (after_emit f e) Q = sim e Q"
  by (rule sim_frame) simp_all

lemma kept_sim:
  assumes "sim e Q" "kept e e'"
  shows "\<exists>Q'. sim e' Q'"
proof -
  have "inside s e'" for s by (rule inside_kept [OF _ assms(2)]) (use assms(1) in \<open>simp add: sim_def\<close>)
  then show ?thesis using assms(2) by (auto simp: sim_def kept_def)
qed

lemma live_in_ladder:
  assumes sim: "sim e Q" and ord: "heap_of (eng_arena e) i = Some ord"
  shows "core ord \<in> set (ladder (o_side ord) e)"
proof -
  have ok: "book_ok e Q" and win: "in_window (book e) (o_price ord)" using sim ord by (auto simp: sim_def inside_def)
  have "i \<in> set (Q (o_side ord) (o_price ord))" by (rule book_relD(3) [OF book_okD(1) [OF ok] ord])
  moreover have "o_price ord \<in> set (window_prices (o_side ord) (book e))" using win window_prices_in by blast
  moreover have "the (core_heap (heap_of (eng_arena e)) i) = core ord" using ord by (simp add: core_heap_def)
  ultimately show ?thesis unfolding ladder_rungs [OF ok] rungs_def by force
qed

definition known :: "order_id \<Rightarrow> lob \<Rightarrow> bool" where
  "known oid L \<longleftrightarrow> oid \<in> o_id ` (set (lob_bids L) \<union> set (lob_asks L))"

lemma known_side: "known oid L \<longleftrightarrow> (\<exists>s. oid \<in> o_id ` set (lob_side s L))"
  by (simp add: known_def side_ex image_Un)

lemma ladder_ids:
  assumes sim: "sim e Q"
  shows "oid \<in> o_id ` set (ladder s e) \<longleftrightarrow> (\<exists>i ord. heap_of (eng_arena e) i = Some ord \<and> o_side ord = s \<and> o_id ord = oid)"
proof
  assume "oid \<in> o_id ` set (ladder s e)"
  then obtain x where x: "x \<in> set (ladder s e)" "o_id x = oid" by blast
  have ok: "book_ok e Q" using sim by (simp add: sim_def)
  show "\<exists>i ord. heap_of (eng_arena e) i = Some ord \<and> o_side ord = s \<and> o_id ord = oid"
    by (rule ladder_orders [OF ok x(1)]) (use x(2) in auto)
next
  assume "\<exists>i ord. heap_of (eng_arena e) i = Some ord \<and> o_side ord = s \<and> o_id ord = oid"
  then obtain i ord where ord: "heap_of (eng_arena e) i = Some ord" "o_side ord = s" "o_id ord = oid" by blast
  then have "core ord \<in> set (ladder s e)" using live_in_ladder [OF sim ord(1)] by simp
  then show "oid \<in> o_id ` set (ladder s e)" using ord(3) by (intro image_eqI [of _ _ "core ord"]) simp_all
qed

lemma lookup_index: "sim e Q \<Longrightarrow> lookup oid (book e) = Some i \<longleftrightarrow> (\<exists>ord. heap_of (eng_arena e) i = Some ord \<and> o_id ord = oid)"
  using book_relD(4) [OF book_okD(1), of e Q oid i] by (simp add: sim_def lookup_def)

lemma lookup_known: "sim e Q \<Longrightarrow> lookup oid (book e) \<noteq> None \<longleftrightarrow> known oid (lob_of e)"
  unfolding known_side lob_side_of ladder_ids using lookup_index by (metis option.exhaust_sel option.simps(3))

subsection \<open>The best opposing order\<close>

lemma best_ladder:
  assumes sim: "sim e Q"
  shows "case ladder s e of
      [] \<Rightarrow> v_best (view s (book e)) = None
    | x # xs \<Rightarrow> v_best (view s (book e)) = Some (o_price x) \<and> Q s (o_price x) \<noteq> [] \<and>
        (\<exists>ord. heap_of (eng_arena e) (hd (Q s (o_price x))) = Some ord \<and> x = core ord)"
proof (cases "v_best (view s (book e))")
  case (Some rp)
  have ok: "book_ok e Q" and ins: "inside s e" using sim by (simp_all add: sim_def)
  have "Q s rp \<noteq> []"
    using side_relD(5) [OF book_relD(2) [OF book_okD(1) [OF ok], of s]] Some by (simp add: best_ok_def)
  then obtain i q where q: "Q s rp = i # q" by (cases "Q s rp") auto
  obtain ord where ord: "heap_of (eng_arena e) i = Some ord" "o_side ord = s" "o_price ord = rp"
    using book_rel_slot [OF book_okD(1) [OF ok], of i s rp] q by auto
  then show ?thesis using ladder_first [OF ok ins Some q ord] Some q by auto
next
  case None
  have ok: "book_ok e Q" using sim by (simp add: sim_def)
  have "Q s p = []" for p
    using side_relD(5) [OF book_relD(2) [OF book_okD(1) [OF ok], of s]] None by (simp add: best_ok_def)
  then have "ladder s e = []" unfolding ladder_rungs [OF ok] by (simp add: rungs_empty)
  then show ?thesis using None by simp
qed

subsection \<open>How many orders rest\<close>

lemma arena_len_card:
  assumes "arena_inv ar"
  shows "a_len ar = card (dom (heap_of ar))" "dom (heap_of ar) \<subseteq> {..<a_capacity ar}"
proof -
  obtain fl where sh: "arena_shape ar" and fl: "free_list_of ar fl" using assms by (elim arena_invE)
  show sub: "dom (heap_of ar) \<subseteq> {..<a_capacity ar}" using heap_of_Some_less [OF assms] by auto
  have dom: "dom (heap_of ar) = {..<a_capacity ar} - set fl"
  proof -
    have "i \<in> dom (heap_of ar) \<longleftrightarrow> i \<in> {..<a_capacity ar} - set fl" for i
      using fl sub arena_slot_data [OF assms, of i] by (auto simp: free_list_of_def)
    then show ?thesis by blast
  qed
  have "set fl \<subseteq> {..<a_capacity ar}" "card (set fl) = length fl" "a_len ar + length fl = a_capacity ar"
    using fl by (auto simp: free_list_of_def distinct_card)
  then show "a_len ar = card (dom (heap_of ar))" unfolding dom by (subst card_Diff_subset) auto
qed

lemma length_rungs:
  assumes "distinct ps" "\<And>p. distinct (f p)" "\<And>p p'. p \<noteq> p' \<Longrightarrow> set (f p) \<inter> set (f p') = {}"
  shows "length (rungs ps f ch) = card (\<Union>p \<in> set ps. set (f p))"
  using assms(1)
proof (induction ps)
  case (Cons p ps)
  have "p \<noteq> p'" if "p' \<in> set ps" for p' using Cons.prems that by auto
  then have "set (f p) \<inter> (\<Union>p \<in> set ps. set (f p)) = {}" using assms(3) [of p] by blast
  then have "card (set (f p) \<union> (\<Union>p \<in> set ps. set (f p))) = card (set (f p)) + card (\<Union>p \<in> set ps. set (f p))"
    by (intro card_Un_disjoint) simp_all
  then show ?case using Cons assms(2) by (simp add: distinct_card)
qed simp

lemma length_ladder:
  assumes sim: "sim e Q"
  shows "length (ladder s e) = card {i. \<exists>ord. heap_of (eng_arena e) i = Some ord \<and> o_side ord = s}"
proof -
  have ok: "book_ok e Q" and ins: "inside s e" using sim by (simp_all add: sim_def)
  note rel = book_okD(1) [OF ok]
  have set: "(\<Union>p \<in> set (window_prices s (book e)). set (Q s p)) =
      {i. \<exists>ord. heap_of (eng_arena e) i = Some ord \<and> o_side ord = s}"
  proof (intro subset_antisym subsetI)
    fix i assume "i \<in> (\<Union>p \<in> set (window_prices s (book e)). set (Q s p))"
    then show "i \<in> {i. \<exists>ord. heap_of (eng_arena e) i = Some ord \<and> o_side ord = s}"
      using book_rel_slot [OF rel] by blast
  next
    fix i assume "i \<in> {i. \<exists>ord. heap_of (eng_arena e) i = Some ord \<and> o_side ord = s}"
    then obtain ord where ord: "heap_of (eng_arena e) i = Some ord" "o_side ord = s" by blast
    then have "i \<in> set (Q s (o_price ord))" "in_window (book e) (o_price ord)"
      using book_relD(3) [OF rel ord(1)] ins by (auto simp: inside_def)
    then show "i \<in> (\<Union>p \<in> set (window_prices s (book e)). set (Q s p))" using window_prices_in by blast
  qed
  have "distinct (window_prices s (book e))" by (cases s) (simp_all add: window_prices_def)
  moreover have "distinct (Q s p)" for p
    using side_relD(3) [OF book_relD(2) [OF rel, of s], of p] by (simp add: queue_ok_def)
  moreover have "set (Q s p) \<inter> set (Q s p') = {}" if "p \<noteq> p'" for p p'
    using book_rel_disjoint [OF rel, of _ s p s p'] that by blast
  ultimately show ?thesis unfolding ladder_rungs [OF ok] using length_rungs set by metis
qed

lemma resting_count:
  assumes sim: "sim e Q"
  shows "a_len (eng_arena e) = length (ladder Bid e) + length (ladder Ask e)"
proof -
  let ?S = "\<lambda>s. {i. \<exists>ord. heap_of (eng_arena e) i = Some ord \<and> o_side ord = s}"
  have inv: "arena_inv (eng_arena e)" using book_relD(1) [OF book_okD(1), of e Q] sim by (simp add: sim_def)
  have fin: "finite (dom (heap_of (eng_arena e)))" using arena_len_card(2) [OF inv] finite_subset by blast
  have dom: "dom (heap_of (eng_arena e)) = ?S Bid \<union> ?S Ask"
  proof (intro subset_antisym subsetI)
    fix i assume "i \<in> dom (heap_of (eng_arena e))"
    then obtain ord where "heap_of (eng_arena e) i = Some ord" by blast
    then show "i \<in> ?S Bid \<union> ?S Ask" by (cases "o_side ord") auto
  qed auto
  have "card (?S Bid \<union> ?S Ask) = card (?S Bid) + card (?S Ask)"
    by (rule card_Un_disjoint) (use fin in \<open>auto simp: dom\<close>)
  then have "card (dom (heap_of (eng_arena e))) = card (?S Bid) + card (?S Ask)" by (simp only: dom)
  then show ?thesis using arena_len_card(1) [OF inv] length_ladder [OF sim] by simp
qed

subsection \<open>A new order\<close>

definition ref_insert :: "side \<Rightarrow> order \<Rightarrow> order list \<Rightarrow> order list" where
  "ref_insert s x xs = takeWhile (\<lambda>y. better s (o_price y) (o_price x)) xs @ x #
     dropWhile (\<lambda>y. better s (o_price y) (o_price x)) xs"

lemma while_split:
  assumes "\<forall>x \<in> set xs. P x" "\<forall>y \<in> set ys. \<not> P y"
  shows "takeWhile P (xs @ ys) = xs" "dropWhile P (xs @ ys) = ys"
  using assms by (auto simp: takeWhile_append dropWhile_append takeWhile_eq_Nil_iff dropWhile_eq_self_iff)

lemma better_antisym: "better s p q \<Longrightarrow> better s q p \<Longrightarrow> p = q"
  by (cases s) (simp_all add: better_def)

lemma ladder_insert:
  assumes ok: "book_ok e Q" and ok': "book_ok e' (upd_queue Q s p (Q s p @ [i]))"
    and free: "heap_of (eng_arena e) i = None" and win: "in_window (book e) p" and same: "same_window (book e) (book e')"
    and core: "core_heap (heap_of (eng_arena e')) = (core_heap (heap_of (eng_arena e)))(i \<mapsto> core new)"
    and new: "o_price new = p"
  shows "ladder s e' = ref_insert s (core new) (ladder s e)" "ladder (opposite s) e' = ladder (opposite s) e"
proof -
  note rel = book_okD(1) [OF ok]
  let ?ch = "core_heap (heap_of (eng_arena e))" and ?ch' = "core_heap (heap_of (eng_arena e'))"
  let ?Q = "upd_queue Q s p (Q s p @ [i])"
  have notin: "i \<notin> set (Q s' p')" for s' p' using book_rel_slot [OF rel] free by fastforce
  have frame: "?ch' j = ?ch j" if "j \<in> set (Q s' p')" for s' p' j using notin that core by auto
  note wp = window_prices_same [OF same]
  show "ladder (opposite s) e' = ladder (opposite s) e"
    unfolding ladder_rungs [OF ok'] ladder_rungs [OF ok] wp by (rule rungs_cong) (use frame in auto)
  obtain ps ps' where split: "window_prices s (book e) = ps @ p # ps'"
    using split_list [of p] win window_prices_in by blast
  have ord: "better s q p \<and> q \<noteq> p" if "q \<in> set ps" for q
    using window_prices_order [of s "book e"] that by (auto simp: split sorted_wrt_append)
  have ord': "better s p q \<and> p \<noteq> q" if "q \<in> set ps'" for q
    using window_prices_order [of s "book e"] that by (auto simp: split sorted_wrt_append)
  have p: "p \<notin> set ps" "p \<notin> set ps'" using ord ord' by blast+
  let ?A = "rungs ps (Q s) ?ch @ map (\<lambda>j. the (?ch j)) (Q s p)" and ?B = "rungs ps' (Q s) ?ch"
  have prices: "o_price (the (?ch j)) = q" if "j \<in> set (Q s q)" for j q
    using book_rel_slot [OF rel that] by (auto simp: core_heap_def)
  have before: "\<forall>x \<in> set ?A. better s (o_price x) (o_price (core new))"
    using prices ord new by (auto simp: rungs_def)
  have after: "\<forall>x \<in> set ?B. \<not> better s (o_price x) (o_price (core new))"
    using prices ord' new better_antisym by (fastforce simp: rungs_def)
  have lad: "ladder s e = ?A @ ?B" by (simp add: ladder_rungs [OF ok] split)
  have parts: "rungs ps (?Q s) ?ch' = rungs ps (Q s) ?ch" "rungs ps' (?Q s) ?ch' = rungs ps' (Q s) ?ch"
  proof -
    show "rungs ps (?Q s) ?ch' = rungs ps (Q s) ?ch"
    proof (rule rungs_cong)
      show "?Q s q = Q s q" if "q \<in> set ps" for q using that p(1) by auto
      show "?ch' j = ?ch j" if "q \<in> set ps" "j \<in> set (?Q s q)" for q j
        using that p(1) frame [of j s q] by (cases "q = p") auto
    qed
    show "rungs ps' (?Q s) ?ch' = rungs ps' (Q s) ?ch"
    proof (rule rungs_cong)
      show "?Q s q = Q s q" if "q \<in> set ps'" for q using that p(2) by auto
      show "?ch' j = ?ch j" if "q \<in> set ps'" "j \<in> set (?Q s q)" for q j
        using that p(2) frame [of j s q] by (cases "q = p") auto
    qed
  qed
  have mid: "map (\<lambda>j. the (?ch' j)) (Q s p) = map (\<lambda>j. the (?ch j)) (Q s p)" using frame by simp
  have "ladder s e' = ?A @ core new # ?B"
    unfolding ladder_rungs [OF ok'] wp split rungs_simps parts using mid core by simp
  then show "ladder s e' = ref_insert s (core new) (ladder s e)"
    unfolding lad ref_insert_def while_split [OF before after] .
qed

lemma dom_core_heap: "dom (core_heap h) = dom h"
  by (auto simp: core_heap_def)

definition ref_rest :: "nat \<Rightarrow> side \<Rightarrow> order \<Rightarrow> lob \<Rightarrow> lob" where
  "ref_rest capacity s x L =
     (if length (lob_bids L) + length (lob_asks L) = capacity \<or> known (o_id x) L then L
      else lob_put s (ref_insert s x (lob_side s L)) L)"

lemma room_for_one:
  assumes ok: "book_ok e Q" "book_ok e' Q'" and set: "same_setting e e'" and free: "heap_of (eng_arena e) i = None"
    and core: "core_heap (heap_of (eng_arena e')) = (core_heap (heap_of (eng_arena e)))(i \<mapsto> x)"
  shows "a_len (eng_arena e) \<noteq> a_capacity (eng_arena e)"
proof -
  have "dom (core_heap (heap_of (eng_arena e'))) = insert i (dom (core_heap (heap_of (eng_arena e))))"
    unfolding core by simp
  then have "insert i (dom (heap_of (eng_arena e))) = dom (heap_of (eng_arena e'))" by (simp add: dom_core_heap)
  then have "insert i (dom (heap_of (eng_arena e))) \<subseteq> {..<a_capacity (eng_arena e)}"
    using arena_len_card(2) [OF book_relD(1) [OF book_okD(1) [OF ok(2)]]] set by (simp add: same_setting_def)
  from card_mono [OF _ this] have "card (insert i (dom (heap_of (eng_arena e)))) \<le> a_capacity (eng_arena e)" by simp
  moreover have "i \<notin> dom (heap_of (eng_arena e))" "finite (dom (heap_of (eng_arena e)))"
    using free arena_len_card(2) [OF book_relD(1) [OF book_okD(1) [OF ok(1)]]] finite_subset by auto
  ultimately show ?thesis using arena_len_card(1) [OF book_relD(1) [OF book_okD(1) [OF ok(1)]]] by simp
qed

lemma rested_sim:
  assumes sim: "sim e Q" and win: "in_window (book e) p" and set: "same_setting e e'"
    and rested: "rested oid s p qty ot vis stp Q e e'"
  shows "lob_of e' = ref_rest (a_capacity (eng_arena e)) s (core (new_order_record oid s p qty ot vis stp)) (lob_of e)"
    and "\<exists>Q'. sim e' Q'"
proof -
  let ?new = "new_order_record oid s p qty ot vis stp"
  have count: "length (lob_bids (lob_of e)) + length (lob_asks (lob_of e)) = a_len (eng_arena e)"
    using resting_count [OF sim] by (simp add: lob_of_def)
  have known: "known oid (lob_of e) \<longleftrightarrow> order_index (book e) oid \<noteq> None"
    using lookup_known [OF sim] by (simp add: lookup_def)
  have ok: "book_ok e Q" using sim by (simp add: sim_def)
  have same: "same_window (book e) (book e')" using set by (simp add: same_setting_def)
  consider "e' = e" "order_index (book e) oid \<noteq> None \<or> a_len (eng_arena e) = a_capacity (eng_arena e)"
    | i where "order_index (book e) oid = None" "heap_of (eng_arena e) i = None"
      "book_ok e' (upd_queue Q s p (Q s p @ [i]))"
      "core_heap (heap_of (eng_arena e')) = (core_heap (heap_of (eng_arena e)))(i \<mapsto> core ?new)"
    using rested unfolding rested_def by auto
  then have "lob_of e' = ref_rest (a_capacity (eng_arena e)) s (core ?new) (lob_of e) \<and> (\<exists>Q'. sim e' Q')"
  proof cases
    case 1
    then show ?thesis using count known sim by (auto simp: ref_rest_def)
  next
    case (2 i)
    have room: "a_len (eng_arena e) \<noteq> a_capacity (eng_arena e)" by (rule room_for_one [OF ok 2(3) set 2(2,4)])
    note ins = ladder_insert [OF ok 2(3,2) win same 2(4)]
    have "lob_of e' = lob_put s (ref_insert s (core ?new) (ladder s e)) (lob_of e)"
    proof (rule lob_eqI)
      fix s' show "lob_side s' (lob_of e') = lob_side s' (lob_put s (ref_insert s (core ?new) (ladder s e)) (lob_of e))"
        using side_cases [of s' s] ins by auto
    qed
    moreover have "inside s' e'" for s'
      unfolding inside_def
    proof (intro allI impI, elim conjE)
      fix j ord assume ord: "heap_of (eng_arena e') j = Some ord" "o_side ord = s'"
      show "in_window (book e') (o_price ord)"
        using heap_insert_cases [OF 2(4) ord(1)]
      proof cases
        case 1
        then show ?thesis using core_eqD(2) [of ord ?new] win in_window_same [OF same] by simp
      next
        case (2 a)
        then have "in_window (book e) (o_price a)" using sim by (auto simp: sim_def inside_def)
        then show ?thesis using core_eqD(2) [OF 2(3)] in_window_same [OF same] by simp
      qed
    qed
    ultimately show ?thesis using 2(1,3) room count known by (auto simp: ref_rest_def sim_def)
  qed
  then show "lob_of e' = ref_rest (a_capacity (eng_arena e)) s (core ?new) (lob_of e)" "\<exists>Q'. sim e' Q'" by simp_all
qed

subsection \<open>A cancelled order\<close>

definition ref_cancel :: "order_id \<Rightarrow> lob \<Rightarrow> lob" where
  "ref_cancel oid L = \<lparr>lob_bids = filter (\<lambda>x. o_id x \<noteq> oid) (lob_bids L),
     lob_asks = filter (\<lambda>x. o_id x \<noteq> oid) (lob_asks L)\<rparr>"

lemma lob_side_cancel [simp]: "lob_side s (ref_cancel oid L) = filter (\<lambda>x. o_id x \<noteq> oid) (lob_side s L)"
  by (cases s) (simp_all add: ref_cancel_def)

lemma took_all_sim:
  assumes sim: "sim e Q" and ord: "heap_of (eng_arena e) i = Some ord" and t: "took i ord (remaining ord) Q e e'"
  shows "lob_of e' = ref_cancel (o_id ord) (lob_of e)"
proof (rule lob_eqI)
  fix s
  let ?Q = "upd_queue Q (o_side ord) (o_price ord) (remove1 i (Q (o_side ord) (o_price ord)))"
  let ?ch = "core_heap (heap_of (eng_arena e))" and ?ch' = "core_heap (heap_of (eng_arena e'))"
  have ok: "book_ok e Q" using sim by (simp add: sim_def)
  have ok': "book_ok e' ?Q" and core: "?ch' = ?ch(i := None)" and same: "same_window (book e) (book e')"
    using t by (simp_all add: took_def same_setting_def)
  note rel = book_okD(1) [OF ok]
  have Q: "?Q s p = filter (\<lambda>j. j \<noteq> i) (Q s p)" for p
  proof -
    have dist: "distinct (Q s p)" using side_relD(3) [OF book_relD(2) [OF rel, of s], of p] by (simp add: queue_ok_def)
    show ?thesis
    proof (cases "s = o_side ord \<and> p = o_price ord")
      case True
      then show ?thesis using dist by (auto simp: distinct_remove1_removeAll removeAll_filter_not_eq intro: filter_cong)
    next
      case False
      then have "i \<notin> set (Q s p)" using book_rel_slot [OF rel, of i s p] ord by auto
      then have "filter (\<lambda>j. j \<noteq> i) (Q s p) = Q s p" by (auto intro: filter_True)
      then show ?thesis using False by auto
    qed
  qed
  have ids: "o_id (the (?ch j)) \<noteq> o_id ord \<longleftrightarrow> j \<noteq> i" if "j \<in> set (Q s p)" for p j
  proof -
    from book_rel_slot [OF rel that] obtain a where a: "heap_of (eng_arena e) j = Some a" by blast
    have "o_id a = o_id ord \<longleftrightarrow> j = i"
      using book_relD(4) [OF rel, of "o_id a" j] book_relD(4) [OF rel, of "o_id ord" i] a ord by auto
    then show ?thesis using a by (simp add: core_heap_def)
  qed
  have "map (\<lambda>j. the (?ch' j)) (?Q s p) = filter (\<lambda>x. o_id x \<noteq> o_id ord) (map (\<lambda>j. the (?ch j)) (Q s p))" for p
    unfolding Q filter_map o_def using ids core by (auto intro!: map_cong filter_cong)
  then have "rungs ps (?Q s) ?ch' = filter (\<lambda>x. o_id x \<noteq> o_id ord) (rungs ps (Q s) ?ch)" for ps
    by (induction ps) simp_all
  then show "lob_side s (lob_of e') = lob_side s (ref_cancel (o_id ord) (lob_of e))"
    unfolding lob_side_cancel lob_side_of ladder_rungs [OF ok'] ladder_rungs [OF ok] window_prices_same [OF same] .
qed

end
