(* ===== verification/Mx_Depth_Exact.thy ===== *)
theory Mx_Depth_Exact
  imports Mx_Ref_Book
begin

text \<open>
  What the depth indices hold, exactly, as long as every price lies in the window: at each price the
  quantity that rests and, as fills never leave the indices, everything that has traded there with a
  resting order of that side. So the check of a fill-or-kill order counts both.
\<close>

subsection \<open>What the operations of the book do to the depth\<close>

text \<open>A table gives the depth of each price of the window, on both sides; outside there is none.\<close>

definition depth_table :: "order_book \<Rightarrow> (side \<Rightarrow> nat \<Rightarrow> nat) \<Rightarrow> bool" where
  "depth_table b T \<longleftrightarrow> (\<forall>s. depth_rel (dense_base_price b) (dense_max_ticks b) (view s b)
     (\<lambda>p. if in_window b p then Some (T s p) else None))"

definition put_depth :: "(side \<Rightarrow> nat \<Rightarrow> nat) \<Rightarrow> side \<Rightarrow> nat \<Rightarrow> nat \<Rightarrow> side \<Rightarrow> nat \<Rightarrow> nat" where
  "put_depth T s p q = T(s := (T s)(p := q))"

lemma put_depth_apply [simp]: "put_depth T s p q s' p' = (if s' = s \<and> p' = p then q else T s' p')"
  by (simp add: put_depth_def)

lemma put_depth_same [simp]: "put_depth T s p (T s p) = T"
  by (simp add: put_depth_def)

definition same_depth :: "order_book \<Rightarrow> order_book \<Rightarrow> bool" where
  "same_depth b b' \<longleftrightarrow> same_window b b' \<and> (\<forall>s. v_tree (view s b') = v_tree (view s b) \<and> v_sidx (view s b') = v_sidx (view s b))"

lemma same_depth_refl [simp]: "same_depth b b"
  by (simp add: same_depth_def)

lemma same_depth_trans: "same_depth b c \<Longrightarrow> same_depth c d \<Longrightarrow> same_depth b d"
  by (auto simp: same_depth_def intro: same_window_trans)

lemma depth_table_same:
  assumes "same_depth b b'"
  shows "depth_table b' T = depth_table b T"
proof -
  have "dense_base_price b' = dense_base_price b" "dense_max_ticks b' = dense_max_ticks b" "in_window b' = in_window b"
    using assms in_window_same [of b b'] by (auto simp: same_depth_def same_window_def)
  then show ?thesis using assms by (simp add: depth_table_def depth_rel_def same_depth_def)
qed

lemma side_all: "(\<forall>s. P s) \<longleftrightarrow> P Bid \<and> P Ask"
  using side_ex [of "\<lambda>s. \<not> P s"] by blast

lemma same_depth_fields:
  "same_depth b b' \<longleftrightarrow> same_window b b' \<and> bid_depth_index b' = bid_depth_index b \<and> ask_depth_index b' = ask_depth_index b \<and>
     bids_sparse_index b' = bids_sparse_index b \<and> asks_sparse_index b' = asks_sparse_index b"
  unfolding same_depth_def side_all by (simp add: conj_ac)

named_theorems depth_frames \<open>operations that leave the depth alone\<close>

lemma same_depth_put [simp]:
  "same_depth b (put_dense s ls b') \<longleftrightarrow> same_depth b b'" "same_depth b (put_sparse s m b') \<longleftrightarrow> same_depth b b'"
  "same_depth b (b'\<lparr>order_index := idx\<rparr>) \<longleftrightarrow> same_depth b b'"
  "same_depth (b\<lparr>order_index := idx\<rparr>) b' \<longleftrightarrow> same_depth b b'"
  by (cases s; simp add: same_depth_fields same_window_def; fail)+

lemma level_mut_depth [depth_frames]: "level_mut s p b = Inr (l, b') \<Longrightarrow> same_depth b b'"
  by (auto simp: level_mut_def rbind_eq_Inr split: option.splits)

lemma level_store_depth [depth_frames]: "level_store s p l b = Inr b' \<Longrightarrow> same_depth b b'"
  by (auto simp: level_store_def rbind_eq_Inr split: option.splits)

lemma set_occupied_depth [depth_frames]: "set_occupied s i b = Inr b' \<Longrightarrow> same_depth b b'"
  by (cases s) (auto simp: rbind_eq_Inr same_depth_fields same_window_def)

lemma clear_occupied_depth [depth_frames]: "clear_occupied s i b = Inr b' \<Longrightarrow> same_depth b b'"
  by (cases s) (auto simp: rbind_eq_Inr same_depth_fields same_window_def)

lemma improve_best_depth [simp]: "same_depth b (improve_best s p b') \<longleftrightarrow> same_depth b b'"
  by (auto simp: improve_best_def same_depth_fields same_window_def split: side.splits option.splits)

lemma prune_depth [simp]: "same_depth (prune_if_sparse_empty s p b) b' \<longleftrightarrow> same_depth b b'"
  by (cases s) (auto simp: prune_if_sparse_empty_def same_depth_fields same_window_def split: option.splits)

lemma refresh_depth [depth_frames]:
  assumes "refresh_best_after_level_empty s p b = Inr b'"
  shows "same_depth b b'"
proof -
  from assms obtain b1 where b1: "(case dense_index b p of Some di \<Rightarrow> clear_occupied s di b | None \<Rightarrow> Inr b) = Inr b1"
    and rest: "(case s of
         Bid \<Rightarrow> if best_bid_tick b1 = Some p
                then rbind (next_best_bid b1) (\<lambda>best. Inr (b1\<lparr>best_bid_tick := best\<rparr>)) else Inr b1
       | Ask \<Rightarrow> if best_ask_tick b1 = Some p
                then rbind (next_best_ask b1) (\<lambda>best. Inr (b1\<lparr>best_ask_tick := best\<rparr>)) else Inr b1) = Inr b'"
    unfolding refresh_best_after_level_empty_def by (rule rbind_InrE)
  have "same_depth b b1" using b1 by (auto split: option.splits dest: depth_frames)
  moreover have "same_depth b1 b'"
    using rest by (cases s) (auto simp: rbind_eq_Inr same_depth_fields same_window_def split: if_splits)
  ultimately show ?thesis by (rule same_depth_trans)
qed

text \<open>The two operations that change the table.\<close>

lemma in_window_tick: "in_window b p \<longleftrightarrow> tick_of (dense_base_price b) (dense_max_ticks b) p \<noteq> None"
  by (simp add: in_window_def dense_index_tick)

lemma depth_table_put:
  assumes T: "depth_table b T" and rel: "depth_rel (dense_base_price b) (dense_max_ticks b) v'
      ((\<lambda>p. if in_window b p then Some (T s p) else None)(p \<mapsto> q))" and win: "in_window b p"
  shows "depth_table (put_view s v' b) (put_depth T s p q)"
proof -
  have "(\<lambda>p. if in_window b p then Some (T s p) else None)(p \<mapsto> q) =
      (\<lambda>p'. if in_window b p' then Some (put_depth T s p q s p') else None)"
    using win by auto
  moreover have "in_window (put_view s v' b) = in_window b"
    by (rule ext) (simp add: in_window_tick)
  ultimately show ?thesis using T rel by (simp add: depth_table_def cong: if_cong)
qed

lemma depth_add_table:
  assumes "depth_add s p q b = Inr b'" "depth_table b T" "in_window b p"
  shows "depth_table b' (put_depth T s p (T s p + q))"
proof -
  have "depth_rel (dense_base_price b) (dense_max_ticks b) (view s b) (\<lambda>p. if in_window b p then Some (T s p) else None)"
    using assms(2) by (simp add: depth_table_def)
  from yields_Inr [OF assms(1) depth_add_spec [OF this]] obtain v' where v': "b' = put_view s v' b"
    "depth_rel (dense_base_price b) (dense_max_ticks b) v' ((\<lambda>p. if in_window b p then Some (T s p) else None)
      (p \<mapsto> plus_opt (if in_window b p then Some (T s p) else None) q))" by blast
  then show ?thesis using depth_table_put [OF assms(2), of v' s p "T s p + q"] assms(3) by (simp add: plus_opt_def)
qed

lemma depth_remove_table:
  assumes "depth_remove s p q b = Inr b'" "depth_table b T" "in_window b p" "q \<le> T s p"
  shows "depth_table b' (put_depth T s p (T s p - q))"
proof -
  have "depth_rel (dense_base_price b) (dense_max_ticks b) (view s b) (\<lambda>p. if in_window b p then Some (T s p) else None)"
    using assms(2) by (simp add: depth_table_def)
  from yields_Inr [OF assms(1) depth_remove_exact [OF this _ assms(4)]] obtain v' where v': "b' = put_view s v' b"
    "depth_rel (dense_base_price b) (dense_max_ticks b) v' ((\<lambda>p. if in_window b p then Some (T s p) else None)
      (p \<mapsto> T s p - q))" using assms(3) by (auto simp: in_window_tick)
  then show ?thesis using depth_table_put [OF assms(2), of v' s p "T s p - q"] assms(3) by simp
qed

subsection \<open>The calls of the engine on the book\<close>

lemma insert_order_table:
  assumes run: "insert_order oid s p q ot vis stp b ar = Inr (r, b', ar')" and T: "depth_table b T" and win: "in_window b p"
  shows "if r = None then b' = b else depth_table b' (put_depth T s p (T s p + q))"
proof (cases r)
  case None
  then show ?thesis using run unfolding insert_order_def
    by (auto simp: rbind_eq_Inr split: if_splits option.splits)
next
  case (Some i)
  from run obtain idx level b1 l b2 b3 b4 where
    b1: "level_mut s p (b\<lparr>order_index := idx\<rparr>) = Inr (level, b1)" and b2: "level_store s p l b1 = Inr b2"
    and b3: "depth_add s p q b2 = Inr b3" and b4: "b' = improve_best s p b4"
      "(case dense_index b3 p of Some di \<Rightarrow> set_occupied s di b3 | None \<Rightarrow> Inr b3) = Inr b4"
    unfolding insert_order_def Some
    by (simp split: if_split_asm) (elim rbind_InrE; simp split: prod.split_asm option.split_asm; elim rbind_InrE; simp split: prod.split_asm;
      elim rbind_InrE; simp split: prod.split_asm; elim rbind_InrE; blast)
  have "same_depth b b2" using level_mut_depth [OF b1] level_store_depth [OF b2] same_depth_trans by auto
  then have T2: "depth_table b2 T" "in_window b2 p" using T win depth_table_same in_window_same
    by (auto simp: same_depth_def)
  have "same_depth b3 b'" using b4 by (auto split: option.splits dest: depth_frames)
  then show ?thesis using depth_add_table [OF b3 T2] depth_table_same [of b3 b'] Some by simp
qed

lemma reduce_order_table:
  assumes run: "reduce_order_qty i d b ar = Inr (b', ar')" and inv: "arena_inv ar" and ord: "heap_of ar i = Some ord"
    and T: "depth_table b T" and win: "in_window b (o_price ord)" and le: "d \<le> T (o_side ord) (o_price ord)"
  shows "depth_table b' (put_depth T (o_side ord) (o_price ord) (T (o_side ord) (o_price ord) - d))"
proof -
  from run obtain f ar1 ord1 level b1 tq b2 where
    ar1: "arena_get_mut i (\<lambda>x. x\<lparr>o_filled := f\<rparr>) ar = Inr ar1" "arena_get ar1 i = Inr ord1"
    and b1: "level_mut (o_side ord1) (o_price ord1) b = Inr (level, b1)"
    and b2: "level_store (o_side ord1) (o_price ord1) (level\<lparr>total_quantity := tq\<rparr>) b1 = Inr b2"
    and b3: "depth_remove (o_side ord1) (o_price ord1) d b2 = Inr b'"
    unfolding reduce_order_qty_def by (auto simp: rbind_eq_Inr)
  obtain ar2 where "arena_get_mut i (\<lambda>x. x\<lparr>o_filled := f\<rparr>) ar = Inr ar2" "arena_inv ar2"
    "heap_of ar2 = (heap_of ar)(i \<mapsto> ord\<lparr>o_filled := f\<rparr>)" using slots.mut_ok [OF inv ord] by blast
  then have "ord1 = ord\<lparr>o_filled := f\<rparr>" using ar1 arena_get_eq_Inr by auto
  then have at: "o_side ord1 = o_side ord" "o_price ord1 = o_price ord" by simp_all
  have "same_depth b b2" using level_mut_depth [OF b1] level_store_depth [OF b2] same_depth_trans by blast
  then have "depth_table b2 T" "in_window b2 (o_price ord)" using T win depth_table_same in_window_same
    by (auto simp: same_depth_def)
  then show ?thesis using depth_remove_table [OF b3] le at by simp
qed

lemma remove_order_table:
  assumes run: "remove_order i b ar = Inr (r, b', ar')" and inv: "arena_inv ar" and ord: "heap_of ar i = Some ord"
    and T: "depth_table b T" and win: "in_window b (o_price ord)" and le: "remaining ord \<le> T (o_side ord) (o_price ord)"
  shows "depth_table b' (put_depth T (o_side ord) (o_price ord) (T (o_side ord) (o_price ord) - remaining ord))"
proof -
  let ?s = "o_side ord" and ?p = "o_price ord"
  have get: "arena_get ar i = Inr ord" by (rule arena_get_occupied [OF inv ord])
  from run obtain level b1 ls b2 b3 m e where b1: "level_mut ?s ?p b = Inr (level, b1)"
    and b2: "level_store ?s ?p ls b1 = Inr b2" and b3: "depth_remove ?s ?p (remaining ord) b2 = Inr b3"
    and b5: "(if e then refresh_best_after_level_empty ?s ?p (prune_if_sparse_empty ?s ?p (b3\<lparr>order_index := m\<rparr>))
            else Inr (b3\<lparr>order_index := m\<rparr>)) = Inr b'"
    unfolding remove_order_def Let_def get by (auto simp: rbind_eq_Inr)
  have "same_depth b b2" using level_mut_depth [OF b1] level_store_depth [OF b2] same_depth_trans by blast
  then have T2: "depth_table b2 T" "in_window b2 ?p" using T win depth_table_same in_window_same
    by (auto simp: same_depth_def)
  have "same_depth b3 b'" using b5 refresh_depth by (fastforce split: if_splits)
  then show ?thesis using depth_remove_table [OF b3 T2 le] depth_table_same by blast
qed

subsection \<open>Quantities by price\<close>

text \<open>Lists of prices with quantities, and the total at the prices that satisfy a predicate.\<close>

definition volume :: "(nat \<Rightarrow> bool) \<Rightarrow> (nat \<times> nat) list \<Rightarrow> nat" where
  "volume P ys = sum_list (map snd (filter (\<lambda>y. P (fst y)) ys))"

lemma volume_simps [simp]:
  "volume P [] = 0" "volume P (y # ys) = (if P (fst y) then snd y else 0) + volume P ys"
  "volume P (xs @ ys) = volume P xs + volume P ys"
  by (simp_all add: volume_def)

lemma volume_cong: "(\<And>p q. (p, q) \<in> set ys \<Longrightarrow> P p = P' p) \<Longrightarrow> volume P ys = volume P' ys"
  unfolding volume_def by (rule arg_cong [where f = "\<lambda>zs. sum_list (map snd zs)"]) (auto intro: filter_cong)

lemma volume_none: "(\<And>p q. (p, q) \<in> set ys \<Longrightarrow> \<not> P p) \<Longrightarrow> volume P ys = 0"
  unfolding volume_def by (subst filter_empty_conv [THEN iffD2]) auto

definition resting :: "order list \<Rightarrow> (nat \<times> nat) list" where
  "resting xs = map (\<lambda>x. (o_price x, remaining x)) xs"

lemma resting_simps [simp]:
  "resting [] = []" "resting (x # xs) = (o_price x, remaining x) # resting xs" "resting (xs @ ys) = resting xs @ resting ys"
  by (simp_all add: resting_def)

lemma resting_take_first:
  assumes "d \<le> remaining x"
  shows "volume P (resting (take_first d x xs)) + (if P (o_price x) then d else 0) = volume P (resting (x # xs))"
  using assms by (simp add: take_first_def reduced_def remaining_def)

lemma resting_insert: "volume P (resting (ref_insert s x xs)) = volume P (resting (x # xs))"
proof -
  let ?b = "\<lambda>y. better s (o_price y) (o_price x)"
  have "volume P (resting xs) = volume P (resting (takeWhile ?b xs)) + volume P (resting (dropWhile ?b xs))"
    by (metis takeWhile_dropWhile_id resting_simps(3) volume_simps(3))
  then show ?thesis by (simp add: ref_insert_def)
qed

lemma resting_cancel:
  assumes "distinct (map o_id xs)" "x \<in> set xs"
  shows "volume P (resting (filter (\<lambda>y. o_id y \<noteq> o_id x) xs)) + (if P (o_price x) then remaining x else 0) = volume P (resting xs)"
  using assms
proof (induction xs)
  case (Cons y ys)
  show ?case
  proof (cases "o_id y = o_id x")
    case True
    then have "x = y" using Cons.prems by force
    moreover have "filter (\<lambda>z. o_id z \<noteq> o_id y) ys = ys"
      using Cons.prems by (simp add: filter_id_conv image_iff) metis
    ultimately show ?thesis by simp
  next
    case False
    then show ?thesis using Cons by auto
  qed
qed simp

text \<open>The trades of the past, by the side of their makers.\<close>

type_synonym past = "side \<Rightarrow> (nat \<times> nat) list"

definition add_past :: "side \<Rightarrow> trade list \<Rightarrow> past \<Rightarrow> past" where
  "add_past s fs past = past(s := past s @ map (\<lambda>(maker, taker, p, q). (p, q)) fs)"

lemma add_past_simps [simp]: "add_past s [] past = past" "add_past s gs (add_past s fs past) = add_past s (fs @ gs) past"
  by (simp_all add: add_past_def)

definition held :: "engine \<Rightarrow> past \<Rightarrow> side \<Rightarrow> (nat \<times> nat) list" where
  "held e past s = resting (ladder s e) @ past s"

text \<open>The indices count what rests and what has traded.\<close>

definition counted :: "engine \<Rightarrow> past \<Rightarrow> bool" where
  "counted e past \<longleftrightarrow> depth_table (book e) (\<lambda>s p. volume (\<lambda>x. x = p) (held e past s)) \<and>
     (\<forall>s. \<forall>(p, q) \<in> set (past s). in_window (book e) p \<and> p \<le> u64_max) \<and>
     (\<forall>i ord. heap_of (eng_arena e) i = Some ord \<longrightarrow> o_price ord \<le> u64_max)"

lemma counted_frame: "book e' = book e \<Longrightarrow> eng_arena e' = eng_arena e \<Longrightarrow> counted e' past = counted e past"
  by (simp add: counted_def held_def ladder_def)

lemma counted_emit [simp]: "counted (after_emit f e) past = counted e past"
  by (rule counted_frame) simp_all

subsection \<open>One order less\<close>

text \<open>A side that has lost a quantity at a price, the other as it was.\<close>

definition lowered :: "side \<Rightarrow> nat \<Rightarrow> nat \<Rightarrow> engine \<Rightarrow> engine \<Rightarrow> bool" where
  "lowered s p d e e' \<longleftrightarrow> kept e e' \<and> ladder (opposite s) e' = ladder (opposite s) e \<and>
     (\<forall>P. volume P (resting (ladder s e')) + (if P p then d else 0) = volume P (resting (ladder s e)))"

lemma lowered_frame:
  assumes "book e2 = book e'" "eng_arena e2 = eng_arena e'" "same_stops e' e2"
  shows "lowered s p d e e' \<Longrightarrow> lowered s p d e e2"
  using assms
  by (auto simp: lowered_def kept_def ladder_def book_ok_def same_setting_def intro: same_stops_trans)

lemma lowered_all:
  assumes sim: "sim e Q" and ord: "heap_of (eng_arena e) i = Some ord" and t: "took i ord (remaining ord) Q e e'"
  shows "lowered (o_side ord) (o_price ord) (remaining ord) e e'"
proof -
  have ok: "book_ok e Q" using sim by (simp add: sim_def)
  have lad: "ladder s e' = filter (\<lambda>x. o_id x \<noteq> o_id ord) (ladder s e)" for s
    using arg_cong [OF took_all_sim [OF sim ord t], of "lob_side s"] by simp
  have mem: "core ord \<in> set (ladder (o_side ord) e)" by (rule live_in_ladder [OF sim ord])
  have "o_id x \<noteq> o_id ord" if x: "x \<in> set (ladder (opposite (o_side ord)) e)" for x
  proof -
    have "o_id ord \<in> o_id ` set (ladder (opposite (o_side ord)) e) \<Longrightarrow> False"
      unfolding ladder_ids [OF sim] using ord book_relD(4) [OF book_okD(1) [OF ok], of "o_id ord"]
      by (cases "o_side ord") (metis option.inject side.distinct opposite.simps)+
    then show ?thesis using x by (metis imageI)
  qed
  then have "ladder (opposite (o_side ord)) e' = ladder (opposite (o_side ord)) e" unfolding lad by (simp add: filter_id_conv)
  moreover have "volume P (resting (ladder (o_side ord) e')) + (if P (o_price ord) then remaining ord else 0) =
      volume P (resting (ladder (o_side ord) e))" for P
    using resting_cancel [OF ladder_distinct [OF ok] mem, of P] by (cases "P (o_price ord)") (simp_all add: lad)
  ultimately show ?thesis using took_kept [OF t ord] by (simp add: lowered_def)
qed

text \<open>The first maker of the book, at the best price.\<close>

definition first_maker :: "engine \<Rightarrow> queues \<Rightarrow> side \<Rightarrow> nat \<Rightarrow> arena_index \<Rightarrow> order \<Rightarrow> bool" where
  "first_maker e Q s p i ord \<longleftrightarrow> v_best (view s (book e)) = Some p \<and> Q s p \<noteq> [] \<and> i = hd (Q s p) \<and>
     heap_of (eng_arena e) i = Some ord \<and> o_side ord = s \<and> o_price ord = p"

lemma lowered_first:
  assumes sim: "sim e Q" and m: "first_maker e Q s p i ord" and t: "took i ord d Q e e'" and d: "d \<le> remaining ord"
  shows "lowered s p d e e'"
proof -
  have ok: "book_ok e Q" and ins: "inside s e" using sim by (simp_all add: sim_def)
  have best: "v_best (view s (book e)) = Some p" "Q s p = i # tl (Q s p)"
    and ord: "heap_of (eng_arena e) i = Some ord" "o_side ord = s" "o_price ord = p" using m by (auto simp: first_maker_def)
  from ladder_first [OF ok ins best ord] obtain xs where xs: "ladder s e = core ord # xs"
    "ladder s e' = take_first d (core ord) xs" "ladder (opposite s) e' = ladder (opposite s) e" using t by blast
  have "volume P (resting (ladder s e')) + (if P p then d else 0) = volume P (resting (ladder s e))" for P
    using resting_take_first [of d "core ord" P xs] d xs ord(3) by simp
  then show ?thesis using xs(3) took_kept [OF t ord(1)] by (simp add: lowered_def)
qed

text \<open>The table of a counted engine, and what it is after a quantity has gone.\<close>

abbreviation table :: "engine \<Rightarrow> past \<Rightarrow> side \<Rightarrow> nat \<Rightarrow> nat" where
  "table e past \<equiv> \<lambda>s p. volume (\<lambda>x. x = p) (held e past s)"

lemma counted_kept:
  assumes "counted e past" "kept e e'" "depth_table (book e') (table e' past')"
    "\<forall>s. \<forall>(p, q) \<in> set (past' s). in_window (book e) p \<and> p \<le> u64_max"
  shows "counted e' past'"
proof -
  have "o_price ord \<le> u64_max" if "heap_of (eng_arena e') i = Some ord" for i ord
  proof -
    have "shrinks (heap_of (eng_arena e)) (heap_of (eng_arena e'))" using assms(2) by (simp add: kept_def)
    from shrinksD [OF this that] show ?thesis using assms(1) by (metis counted_def)
  qed
  moreover have "in_window (book e') = in_window (book e)"
    using assms(2) in_window_same by (auto simp: kept_def same_setting_def)
  ultimately show ?thesis using assms(3,4) by (simp add: counted_def)
qed

lemma lowered_le: "lowered s p d e e' \<Longrightarrow> d \<le> table e past s p"
  by (auto simp: lowered_def held_def dest!: spec [of _ "\<lambda>x. x = p"])

lemma lowered_table:
  assumes "lowered s p d e e'"
  shows "put_depth (table e past) s p (table e past s p - d) = table e' past"
    "table e' (add_past s [(m, t, p, d)] past) = table e past"
proof -
  have v: "volume P (resting (ladder s e')) + (if P p then d else 0) = volume P (resting (ladder s e))" for P
    using assms by (simp add: lowered_def)
  have o: "ladder s' e' = ladder s' e" if "s' \<noteq> s" for s'
    using assms that by (cases s; cases s') (simp_all add: lowered_def)
  have "put_depth (table e past) s p (table e past s p - d) s' p' = table e' past s' p'" for s' p'
  proof (cases "s' = s")
    case True
    then show ?thesis using v [of "\<lambda>x. x = p'"] by (cases "p = p'") (auto simp: held_def)
  next
    case False
    then show ?thesis using o [of s'] by (simp add: held_def)
  qed
  then show "put_depth (table e past) s p (table e past s p - d) = table e' past" by blast
  have "table e' (add_past s [(m, t, p, d)] past) s' p' = table e past s' p'" for s' p'
  proof (cases "s' = s")
    case True
    then show ?thesis using v [of "\<lambda>x. x = p'"] by (cases "p = p'") (auto simp: held_def add_past_def)
  next
    case False
    then show ?thesis using o [of s'] by (simp add: held_def add_past_def)
  qed
  then show "table e' (add_past s [(m, t, p, d)] past) = table e past" by blast
qed

lemma counted_cancelled:
  assumes c: "counted e past" and low: "lowered s p d e e'"
    and tab: "depth_table (book e') (put_depth (table e past) s p (table e past s p - d))"
  shows "counted e' past"
proof (rule counted_kept [OF c])
  show "kept e e'" using low by (simp add: lowered_def)
  show "depth_table (book e') (table e' past)" using tab unfolding lowered_table(1) [OF low] .
qed (use c in \<open>simp add: counted_def\<close>)

lemma counted_traded:
  assumes c: "counted e past" and low: "lowered s p d e e'" and tab: "depth_table (book e') (table e past)"
    and p: "in_window (book e) p" "p \<le> u64_max"
  shows "counted e' (add_past s [(m, t, p, d)] past)"
proof (rule counted_kept [OF c])
  show "kept e e'" using low by (simp add: lowered_def)
  show "depth_table (book e') (table e' (add_past s [(m, t, p, d)] past))" using tab unfolding lowered_table(2) [OF low] .
qed (use c p in \<open>simp add: counted_def add_past_def\<close>)

subsection \<open>Matching\<close>

lemma eng_remove_table:
  assumes run: "eng_remove i e = Inr e'" and inv: "arena_inv (eng_arena e)" and ord: "heap_of (eng_arena e) i = Some ord"
    and T: "depth_table (book e) T" and win: "in_window (book e) (o_price ord)" and le: "remaining ord \<le> T (o_side ord) (o_price ord)"
  shows "depth_table (book e') (put_depth T (o_side ord) (o_price ord) (T (o_side ord) (o_price ord) - remaining ord))"
proof -
  obtain r b ar where rm: "remove_order i (book e) (eng_arena e) = Inr (r, b, ar)" and b: "book e' = b"
    using run by (auto simp: eng_remove_def rbind_eq_Inr)
  show ?thesis unfolding b by (rule remove_order_table [OF rm inv ord T win le])
qed

lemma sim_slot:
  assumes "sim e Q" "heap_of (eng_arena e) i = Some ord"
  shows "in_window (book e) (o_price ord)" "arena_inv (eng_arena e)" "book_ok e Q"
  using assms book_relD(1) [OF book_okD(1), of e Q] by (auto simp: sim_def inside_def)

lemma eng_remove_counted:
  assumes sim: "sim e Q" and ord: "heap_of (eng_arena e) i = Some ord" and run: "eng_remove i e = Inr e'" and c: "counted e past"
  shows "counted e' past"
proof -
  note slot = sim_slot [OF sim ord]
  have "took i ord (remaining ord) Q e e'" using eng_remove_took [OF slot(3) ord] run by simp
  from lowered_all [OF sim ord this] have low: "lowered (o_side ord) (o_price ord) (remaining ord) e e'" .
  have "depth_table (book e) (table e past)" using c by (simp add: counted_def)
  from eng_remove_table [OF run slot(2) ord this slot(1) lowered_le [OF low]] show ?thesis
    by (rule counted_cancelled [OF c low])
qed

lemma cancel_maker_counted:
  assumes "sim e Q" "heap_of (eng_arena e) i = Some ord" "cancel_maker i oid s r p e = Inr e'" "counted e past"
  shows "counted e' past"
proof -
  obtain e1 f g where "eng_remove i e = Inr e1" "e' = after_emit f (after_emit g e1)"
    using assms(3) by (auto simp: cancel_maker_def rbind_eq_Inr emit_Inr)
  then show ?thesis using eng_remove_counted [OF assms(1,2) _ assms(4)] by simp
qed

lemma stp_step_counted:
  assumes sim: "sim e Q" and m: "first_maker e Q s p i ord" and run: "stp_step mode i ord p rem e = Inr out"
    and c: "counted e past"
  shows "counted (outcome_engine out) past"
proof -
  have ord: "heap_of (eng_arena e) i = Some ord" "o_side ord = s" "o_price ord = p" using m by (auto simp: first_maker_def)
  note slot = sim_slot [OF sim ord(1)]
  show ?thesis
  proof (cases mode)
    case DecrementAndCancel
    let ?d = "min rem (remaining ord)"
    obtain e1 f where e1: "(if remaining ord = ?d then eng_remove i e else eng_reduce i ?d e) = Inr e1"
      and out: "outcome_engine out = after_emit f e1"
      using run DecrementAndCancel by (auto simp: stp_step_def Let_def rbind_eq_Inr emit_Inr)
    have "counted e1 past"
    proof (cases "remaining ord = ?d")
      case True
      then show ?thesis using e1 eng_remove_counted [OF sim ord(1) _ c] by (simp del: min_less_iff_conj)
    next
      case False
      then have d: "?d < remaining ord" by simp
      have red: "eng_reduce i ?d e = Inr e1" using e1 False by (simp split: if_splits)
      have t: "took i ord ?d Q e e1" using eng_reduce_took [OF slot(3) ord(1) d] red by simp
      have low: "lowered s p ?d e e1" using lowered_first [OF sim m t] by simp
      obtain b ar where "reduce_order_qty i ?d (book e) (eng_arena e) = Inr (b, ar)" "book e1 = b"
        using red by (auto simp: eng_reduce_def rbind_eq_Inr)
      moreover have T: "depth_table (book e) (table e past)" using c by (simp add: counted_def)
      have "?d \<le> table e past (o_side ord) (o_price ord)" using lowered_le [OF low] by (simp only: ord)
      ultimately have "depth_table (book e1) (put_depth (table e past) s p (table e past s p - ?d))"
        using reduce_order_table [OF _ slot(2) ord(1) T slot(1)] by (simp only: ord)
      then show ?thesis by (rule counted_cancelled [OF c low])
    qed
    then show ?thesis by (simp add: out)
  qed (use run c in \<open>auto simp: stp_step_def Let_def rbind_eq_Inr dest: cancel_maker_counted [OF sim ord(1)]\<close>)
qed

lemma fill_step_counted:
  assumes sim: "sim e Q" and m: "first_maker e Q (opposite sd) p i ord" and run: "fill_step tid sd i ord p rem e = Inr out"
    and c: "counted e past"
  shows "\<exists>fs. fills_in (events (outcome_engine out)) = fills_in (events e) @ fs \<and>
    counted (outcome_engine out) (add_past (opposite sd) fs past)"
proof -
  have ord: "heap_of (eng_arena e) i = Some ord" "o_side ord = opposite sd" "o_price ord = p" using m by (auto simp: first_maker_def)
  note slot = sim_slot [OF sim ord(1)]
  let ?d = "min rem (matchable_qty ord)" and ?s = "opposite sd"
  obtain e' m1 m2 where e': "out = Continue (rem - ?d) e'" "took i ord ?d Q e e'" "events e' = events e @
      [FillEvent m1 (o_id ord) tid p ?d (remaining ord - ?d) (rem - ?d),
       BookUpdate m2 ?s p (sum_rem (heap_of (eng_arena e)) (Q ?s p) - ?d)]"
    using fill_step_spec [OF slot(3) ord, of tid rem] run by (auto simp: fill_post_def Let_def)
  have low: "lowered ?s p ?d e e'"
    using lowered_first [OF sim m e'(2)] matchable_le_remaining [of ord] by simp
  have T: "depth_table (book e) (table e past)" using c by (simp add: counted_def)
  have "depth_table (book e') (table e past)"
    using run
  proof (rule fill_step_run)
    fix f ar1 level b1 b2 maker' e2 q e4 e5 fill_qty
    assume ar1: "arena_get_mut i (\<lambda>x. x\<lparr>o_filled := f\<rparr>) (eng_arena e) = Inr ar1" "arena_get ar1 i = Inr maker'"
      and b1: "level_mut_opposing sd p (book e) = Inr (level, b1)"
      and b2: "level_store ?s p (level\<lparr>total_quantity := total_quantity level - fill_qty\<rparr>) b1 = Inr b2"
      and e2: "emit (\<lambda>meta. FillEvent meta (o_id ord) tid p fill_qty (remaining maker') (rem - fill_qty))
         (e\<lparr>book := b2, eng_arena := ar1\<rparr>) = Inr e2"
      and e4: "emit (\<lambda>meta. BookUpdate meta (o_side ord) p q) (e2\<lparr>last_trade_price := Some p\<rparr>) = Inr e4"
      and e5: "(if remaining maker' = 0 then eng_remove i e4 else Inr e4) = Inr e5"
      and out: "out = Continue (rem - fill_qty) e5"
    have at4: "book e4 = b2" "eng_arena e4 = ar1" using e2 e4 by (simp_all add: emit_Inr)
    obtain ar2 where "arena_get_mut i (\<lambda>x. x\<lparr>o_filled := f\<rparr>) (eng_arena e) = Inr ar2" "arena_inv ar2"
      "heap_of ar2 = (heap_of (eng_arena e))(i \<mapsto> ord\<lparr>o_filled := f\<rparr>)" using slots.mut_ok [OF slot(2) ord(1)] by blast
    then have inv1: "arena_inv ar1" "heap_of ar1 i = Some (ord\<lparr>o_filled := f\<rparr>)" "maker' = ord\<lparr>o_filled := f\<rparr>"
      using ar1 arena_get_eq_Inr by auto
    have same: "same_depth (book e) b2"
      using level_mut_depth [OF b1 [unfolded level_mut_opposing]] level_store_depth [OF b2] same_depth_trans by blast
    then have T4: "depth_table (book e4) (table e past)" "in_window (book e4) p"
      using T depth_table_same slot(1) in_window_same ord(3) by (auto simp: at4 same_depth_def)
    have "depth_table (book e5) (table e past)"
    proof (cases "remaining maker' = 0")
      case True
      then have rm: "eng_remove i e4 = Inr e5" using e5 by simp
      have h: "heap_of (eng_arena e4) i = Some maker'" using inv1 by (simp add: at4)
      have "in_window (book e4) (o_price maker')" using T4(2) inv1(3) ord(3) by simp
      from eng_remove_table [OF rm _ h T4(1) this] show ?thesis
        using inv1(1) True put_depth_same [of "table e past" "o_side maker'" "o_price maker'"] by (simp add: at4)
    qed (use e5 T4 in simp)
    then show ?thesis using out e'(1) by simp
  qed
  moreover have "in_window (book e) p" "p \<le> u64_max" using slot(1) ord c by (auto simp: counted_def)
  ultimately have "counted e' (add_past ?s [(o_id ord, tid, p, ?d)] past)" by (rule counted_traded [OF c low])
  then show ?thesis using e'(1,3) by (intro exI [of _ "[(o_id ord, tid, p, ?d)]"]) simp
qed

lemma match_step_counted:
  assumes sim: "sim e Q" and run: "match_step tid sd px stp rem e = Inr out" and c: "counted e past"
  shows "\<exists>fs. fills_in (events (outcome_engine out)) = fills_in (events e) @ fs \<and>
    counted (outcome_engine out) (add_past (opposite sd) fs past)"
proof -
  have ok: "book_ok e Q" using sim by (simp add: sim_def)
  show ?thesis
  proof (rule no_match_cases [of sd px e])
    assume "no_match sd px e"
    then have "out = Finish False rem e" using run match_step_none by simp
    then show ?thesis using c by (intro exI [of _ "[]"]) simp
  next
    fix rp assume best: "best_opposing sd (book e) = Some rp" "is_price_acceptable sd px rp"
    show ?thesis
    proof (rule match_step_eq [OF ok best, of tid stp rem])
      fix maker
      let ?i = "hd (Q (opposite sd) rp)"
      assume maker: "heap_of (eng_arena e) ?i = Some maker" "Q (opposite sd) rp \<noteq> []"
        "o_side maker = opposite sd" "o_price maker = rp" "0 < remaining maker"
        and eq: "match_step tid sd px stp rem e =
          (if stp_hit stp maker then stp_step (cfg_stp_mode (config e)) ?i maker rp rem e
           else fill_step tid sd ?i maker rp rem e)"
      have m: "first_maker e Q (opposite sd) rp ?i maker"
        using maker best(1) by (simp add: first_maker_def best_opposing_view)
      show ?thesis
      proof (cases "stp_hit stp maker")
        case True
        then have step: "stp_step (cfg_stp_mode (config e)) ?i maker rp rem e = Inr out" using run eq by simp
        have "no_fills e (outcome_engine out)"
          using yields_Inr [OF step stp_step_spec [OF ok maker(1)]] by (auto simp: stp_post_def Let_def split: stp_mode.splits)
        then show ?thesis using stp_step_counted [OF sim m step c] by (intro exI [of _ "[]"]) simp
      next
        case False
        then show ?thesis using fill_step_counted [OF sim m _ c] run eq by simp
      qed
    qed
  qed
qed

lemma match_counted:
  "match_against_book tid sd px stp rem e = Inr (c, r, e') \<Longrightarrow> sim e Q \<Longrightarrow> counted e past \<Longrightarrow>
   \<exists>fs. fills_in (events e') = fills_in (events e) @ fs \<and> counted e' (add_past (opposite sd) fs past)"
proof (induction tid sd px stp rem e arbitrary: Q past rule: match_against_book.induct)
  case (1 tid sd px stp rem e)
  show ?case
  proof (cases "0 < rem")
    case False
    then show ?thesis using "1.prems" by (intro exI [of _ "[]"]) (simp add: match_against_book.simps)
  next
    case True
    then obtain out where out: "match_step tid sd px stp rem e = Inr out"
      and rest: "(case out of Finish cancel rem' e' \<Rightarrow> Inr (cancel, rem', e')
          | Continue rem' e' \<Rightarrow> match_against_book tid sd px stp rem' e') = Inr (c, r, e')"
      using "1.prems"(1) by (subst (asm) match_against_book.simps) (auto elim: rbind_InrE)
    obtain fs where fs: "fills_in (events (outcome_engine out)) = fills_in (events e) @ fs"
      "counted (outcome_engine out) (add_past (opposite sd) fs past)"
      using match_step_counted [OF "1.prems"(2) out "1.prems"(3)] by blast
    show ?thesis
    proof (cases out)
      case (Finish c1 r1 e1)
      then show ?thesis using fs rest by auto
    next
      case (Continue r1 e1)
      have ok: "book_ok e Q" using "1.prems"(2) by (simp add: sim_def)
      have "kept e e1" using yields_Inr [OF out match_step_post [OF ok]] Continue by (simp add: step_post_def)
      then obtain Q1 where sim1: "sim e1 Q1" using kept_sim [OF "1.prems"(2)] by blast
      have "match_against_book tid sd px stp r1 e1 = Inr (c, r, e')" "counted e1 (add_past (opposite sd) fs past)"
        using rest fs(2) Continue by simp_all
      from "1.IH" [OF True out Continue this(1) sim1 this(2)] obtain gs where "fills_in (events e') = fills_in (events e1) @ gs"
        "counted e' (add_past (opposite sd) gs (add_past (opposite sd) fs past))" by blast
      then show ?thesis using fs(1) Continue by (intro exI [of _ "fs @ gs"]) simp
    qed
  qed
qed

subsection \<open>Commands\<close>

lemma eng_insert_counted:
  assumes sim: "sim e Q" and qty: "0 < q" and win: "in_window (book e) p" "p \<le> u64_max"
    and run: "eng_insert oid s p q ot vis stp e = Inr e'" and c: "counted e past"
  shows "counted e' past"
proof -
  have ok: "book_ok e Q" using sim by (simp add: sim_def)
  obtain r b ar where ins: "insert_order oid s p q ot vis stp (book e) (eng_arena e) = Inr (r, b, ar)"
    and e': "e' = e\<lparr>book := b, eng_arena := ar\<rparr>" using run by (auto simp: eng_insert_def rbind_eq_Inr)
  have post: "insert_post oid s p q ot vis stp (book e) (eng_arena e) Q (r, b, ar)"
    by (rule yields_Inr [OF ins insert_order_spec [OF book_okD(1) [OF ok] qty]])
  have T: "depth_table (book e) (table e past)" using c by (simp add: counted_def)
  note tab = insert_order_table [OF ins T win(1)]
  show ?thesis
  proof (cases r)
    case None
    then have "e' = e" using post by (simp add: insert_post_def e')
    then show ?thesis using c by simp
  next
    case (Some i)
    let ?new = "new_order_record oid s p q ot vis stp"
    from post Some have free: "heap_of (eng_arena e) i = None"
      and core: "core_heap (heap_of (eng_arena e')) = (core_heap (heap_of (eng_arena e)))(i \<mapsto> core ?new)"
      by (simp_all add: insert_post_def e')
    have "rested oid s p q ot vis stp Q e e'" by (rule yields_Inr [OF run eng_insert_spec [OF ok qty]])
    moreover have "e' \<noteq> e"
    proof
      assume "e' = e"
      then have "core_heap (heap_of (eng_arena e)) i = Some (core ?new)" using core by (metis fun_upd_same)
      then show False using free by (simp add: core_heap_def)
    qed
    ultimately obtain j where j: "heap_of (eng_arena e) j = None" "book_ok e' (upd_queue Q s p (Q s p @ [j]))"
      "core_heap (heap_of (eng_arena e')) = (core_heap (heap_of (eng_arena e)))(j \<mapsto> core ?new)"
      by (auto simp: rested_def)
    have same: "same_window (book e) (book e')" using insert_order_window [OF ins] by (simp add: e')
    have lad: "ladder s e' = ref_insert s (core ?new) (ladder s e)" "ladder (opposite s) e' = ladder (opposite s) e"
      using ladder_insert [OF ok j(2,1) win(1) same j(3)] by simp_all
    have "put_depth (table e past) s p (table e past s p + q) s' p' = table e' past s' p'" for s' p'
      using lad side_cases [of s' s] by (auto simp: held_def resting_insert remaining_def new_order_record_def)
    then have "put_depth (table e past) s p (table e past s p + q) = table e' past" by blast
    then have "depth_table (book e') (table e' past)" using tab Some by (simp add: e')
    moreover have "o_price ord \<le> u64_max" if "heap_of (eng_arena e') k = Some ord" for k ord
      using heap_insert_cases [OF core that]
    proof cases
      case 1
      then show ?thesis using core_eqD(2) [of ord ?new] win(2) by simp
    next
      case (2 a)
      then show ?thesis using core_eqD(2) [OF 2(3)] c by (auto simp: counted_def)
    qed
    ultimately show ?thesis using c in_window_same [OF same] by (simp add: counted_def)
  qed
qed

lemma eng_insert_events: "eng_insert oid s p q ot vis stp e = Inr e' \<Longrightarrow> events e' = events e"
  by (auto simp: eng_insert_def rbind_eq_Inr)

lemma remainder_events: "handle_remainder oid s p q ot tif vis stp e = Inr e' \<Longrightarrow> no_fills e e'"
  by (auto simp: handle_remainder_def rbind_eq_Inr emit_Inr split: if_splits dest!: eng_insert_events)

lemma insert_emit_counted:
  assumes "sim e Q" "0 < q" "in_window (book e) p" "p \<le> u64_max"
    "rbind (eng_insert oid s p q ot vis stp e) (emit f) = Inr e'" "counted e past"
  shows "counted e' past"
proof -
  obtain e1 where "eng_insert oid s p q ot vis stp e = Inr e1" "e' = after_emit f e1"
    using assms(5) by (auto simp: rbind_eq_Inr emit_Inr)
  then show ?thesis using eng_insert_counted [OF assms(1-4) _ assms(6)] by simp
qed

lemma remainder_counted:
  assumes "sim e Q" "handle_remainder oid s p q ot tif vis stp e = Inr e'" "counted e past"
    "ot \<noteq> Market \<Longrightarrow> in_window (book e) p \<and> p \<le> u64_max"
  shows "counted e' past"
  using assms by (auto simp: handle_remainder_def emit_Inr split: if_splits dest: insert_emit_counted [OF assms(1)])

lemma new_order_counted:
  assumes sim: "sim e Q" and run: "process_new_order oid s p q ot tif vis stop stp e = Inr e'" and c: "counted e past"
    and plain: "ot \<noteq> StopLimit" "ot = PostOnly \<Longrightarrow> 0 < q" and win: "ot \<noteq> Market \<Longrightarrow> in_window (book e) p \<and> p \<le> u64_max"
    and fills: "fills_in (events e') = fills_in (events e) @ fs"
  shows "counted e' (add_past (opposite s) fs past)"
proof (cases "ot = PostOnly")
  case True
  let ?e1 = "after_emit (\<lambda>meta. OrderAccepted meta oid s p q PostOnly) e"
  have run': "process_post_only oid s p q vis stp e = Inr e'" using run True by (simp add: process_new_order_def)
  have "no_fills e e'"
    using run' by (auto simp: process_post_only_def emit_rejected_def rbind_eq_Inr emit_Inr split: if_splits
        dest!: eng_insert_events)
  moreover have "counted e' past"
    using run' c insert_emit_counted [of ?e1 Q q p oid s PostOnly vis stp _ e' past] sim plain(2) win True
    by (auto simp: process_post_only_def emit_rejected_def rbind_eq_Inr emit_Inr split: if_splits)
  ultimately show ?thesis using fills by simp
next
  case notpo: False
  define px where "px = effective_price ot s p"
  show ?thesis
  proof (cases "\<exists>f. (\<forall>m. fill_of (f m) = []) \<and> emit f e = Inr e'")
    case True
    then show ?thesis using fills c by (auto simp: emit_Inr)
  next
    case False
    then have no: "emit (\<lambda>meta. OrderRejected meta oid reason) e \<noteq> Inr e'" for reason
      by (auto dest: spec [of _ "\<lambda>meta. OrderRejected meta oid reason"])
    then obtain e1 c1 r e2 where e1: "emit (\<lambda>meta. OrderAccepted meta oid s p q ot) e = Inr e1"
      and e2: "match_against_book oid s px stp q e1 = Inr (c1, r, e2)"
      and rest: "(if c1 then emit (\<lambda>meta. OrderCancelled meta oid r) e2 else handle_remainder oid s p r ot tif vis stp e2) = Inr e'"
      using run notpo plain(1) unfolding process_new_order_def Let_def px_def [symmetric] emit_rejected_def
      by (auto simp: rbind_eq_Inr split: if_splits)
    have sim1: "sim e1 Q" and c1: "counted e1 past" and ev1: "no_fills e e1" using e1 sim c by (simp_all add: emit_Inr)
    obtain gs where gs: "fills_in (events e2) = fills_in (events e1) @ gs" "counted e2 (add_past (opposite s) gs past)"
      using match_counted [OF e2 sim1 c1] by blast
    have k: "kept e1 e2" using match_kept [of e1 Q oid s px stp q] sim1 e2 by (simp add: sim_def)
    obtain Q2 where sim2: "sim e2 Q2" using kept_sim [OF sim1 k] by blast
    have win2: "ot \<noteq> Market \<Longrightarrow> in_window (book e2) p \<and> p \<le> u64_max"
      using win in_window_same [of "book e1" "book e2"] k e1 by (simp add: kept_def same_setting_def emit_Inr)
    have "no_fills e2 e'" "counted e' (add_past (opposite s) gs past)"
      using rest remainder_counted [OF sim2 _ gs(2) win2] remainder_events gs(2) by (auto simp: emit_Inr split: if_splits)
    then show ?thesis using gs(1) ev1 fills by simp
  qed
qed

subsection \<open>The check of a fill-or-kill order\<close>

lemma volume_window:
  assumes "\<forall>y \<in> set ys. base \<le> fst y"
  shows "(\<Sum>i | i < n \<and> P i. volume (\<lambda>x. x = base + i) ys) = volume (\<lambda>p. p - base < n \<and> P (p - base)) ys"
  using assms
proof (induction ys)
  case (Cons y ys)
  then have "base \<le> fst y" by simp
  then have "(\<Sum>i | i < n \<and> P i. if fst y = base + i then snd y else 0) = (\<Sum>i | i < n \<and> P i. if i = fst y - base then snd y else 0)"
    by (intro sum.cong) auto
  also have "\<dots> = (if fst y - base < n \<and> P (fst y - base) then snd y else 0)" by (simp add: sum.delta)
  finally show ?case using Cons by (simp add: sum.distrib)
qed simp

text \<open>The exact answers: the volume on offer at acceptable prices.\<close>

lemma table_side:
  assumes T: "depth_table b (\<lambda>s p. volume (\<lambda>x. x = p) (ys s))"
  obtains A where "fenwick_rel (v_tree (view s b)) A" "length A = dense_max_ticks b"
    "\<And>i. i < length A \<Longrightarrow> A ! i = volume (\<lambda>x. x = dense_base_price b + i) (ys s)" "sparse_inv (v_sidx (view s b))"
    "\<And>P. sparse_sum P (v_sidx (view s b)) = 0"
proof -
  let ?D = "\<lambda>p. if in_window b p then Some (volume (\<lambda>x. x = p) (ys s)) else None"
  have rel: "depth_rel (dense_base_price b) (dense_max_ticks b) (view s b) ?D" using T by (simp add: depth_table_def)
  then obtain A where A: "fenwick_rel (v_tree (view s b)) A" "length A = dense_max_ticks b"
      "\<And>i. i < dense_max_ticks b \<Longrightarrow> ?D (dense_base_price b + i) = Some (A ! i)"
    and sp: "sparse_inv (v_sidx (view s b))"
      "\<And>p. tick_of (dense_base_price b) (dense_max_ticks b) p = None \<Longrightarrow> ?D p = sparse_map (v_sidx (view s b)) p"
      "\<And>p. tick_of (dense_base_price b) (dense_max_ticks b) p \<noteq> None \<Longrightarrow> sparse_map (v_sidx (view s b)) p = None"
    unfolding depth_rel_def by blast
  have "sparse_map (v_sidx (view s b)) p = None" for p
    using sp(2,3) [of p] by (cases "tick_of (dense_base_price b) (dense_max_ticks b) p") (auto simp: in_window_tick)
  then have "si_prices (v_sidx (view s b)) = []" using sparse_map_None [OF sp(1)] by (cases "si_prices (v_sidx (view s b))") auto
  then have "sparse_sum P (v_sidx (view s b)) = 0" for P by (simp add: sparse_sum_def entries_def)
  moreover have "A ! i = volume (\<lambda>x. x = dense_base_price b + i) (ys s)" if "i < length A" for i
    using A(2) A(3) [of i] that by (simp split: if_splits)
  ultimately show thesis using that A(1,2) sp(1) by blast
qed

text \<open>Every price in the window, and no greater than a price can be.\<close>

definition offered :: "order_book \<Rightarrow> (nat \<times> nat) list \<Rightarrow> bool" where
  "offered b ys \<longleftrightarrow> (\<forall>(p, q) \<in> set ys. in_window b p \<and> p \<le> u64_max)"

lemma offeredD:
  assumes "offered b ys" "(p, q) \<in> set ys"
  shows "dense_base_price b \<le> p" "p - dense_base_price b < dense_max_ticks b" "p \<le> u64_max"
  using assms by (auto simp: offered_def in_window_def dense_index_tick tick_of_Some split: option.splits)

lemma window_volume:
  assumes "offered b ys" "length A = dense_max_ticks b"
    and A: "\<And>i. i < length A \<Longrightarrow> A ! i = volume (\<lambda>x. x = dense_base_price b + i) ys"
  shows "(\<Sum>i | i < length A \<and> P i. A ! i) = volume (\<lambda>p. P (p - dense_base_price b)) ys"
proof -
  have "(\<Sum>i | i < length A \<and> P i. A ! i) = (\<Sum>i | i < length A \<and> P i. volume (\<lambda>x. x = dense_base_price b + i) ys)"
    using A by (intro sum.cong) auto
  also have "\<dots> = volume (\<lambda>p. p - dense_base_price b < length A \<and> P (p - dense_base_price b)) ys"
    using offeredD(1) [OF assms(1)] by (intro volume_window) auto
  also have "\<dots> = volume (\<lambda>p. P (p - dense_base_price b)) ys"
    using offeredD(2) [OF assms(1)] assms(2) by (intro volume_cong) auto
  finally show ?thesis .
qed

lemma ask_available_exact:
  assumes T: "depth_table b (\<lambda>s p. volume (\<lambda>x. x = p) (ys s))" and off: "offered b (ys Ask)"
  shows "yields (ask_available_at_or_below px b) (\<lambda>v. v = volume (\<lambda>p. p \<le> px) (ys Ask))"
proof -
  let ?base = "dense_base_price b" and ?n = "dense_max_ticks b"
  obtain A where A: "fenwick_rel (ask_depth_index b) A" "length A = ?n"
    "\<And>i. i < length A \<Longrightarrow> A ! i = volume (\<lambda>x. x = ?base + i) (ys Ask)"
    and sp: "sparse_inv (asks_sparse_index b)" "\<And>P. sparse_sum P (asks_sparse_index b) = 0"
    using table_side [OF T, of Ask] by auto
  note window = window_volume [OF off A(2,3)]
  note none = yields_sum_at_or_below [OF sp(1), unfolded sp(2)]
  show ?thesis
  proof (cases "dense_index b px")
    case (Some i)
    then have i: "i < ?n" "px = ?base + i" by (simp_all add: dense_index_tick tick_of_Some)
    have pre: "yields (prefix_sum_le i (ask_depth_index b)) (\<lambda>v. v = sum_list (take (Suc i) A))"
      using fw.sum_eq [OF A(1), of i] i(1) A(2) by (simp add: prefix_sum_le_def)
    have "{j. j < length A \<and> j \<le> i} = {..<Suc i}" using i(1) A(2) by auto
    then have "sum_list (take (Suc i) A) = (\<Sum>j | j < length A \<and> j \<le> i. A ! j)"
      using i(1) A(2) sum_list_take_sum [of "Suc i" A] by simp
    also have "\<dots> = volume (\<lambda>p. p - ?base \<le> i) (ys Ask)" by (rule window)
    also have "\<dots> = volume (\<lambda>p. p \<le> px) (ys Ask)"
      using offeredD(1) [OF off] i(2) by (intro volume_cong) fastforce
    finally have dense: "sum_list (take (Suc i) A) = volume (\<lambda>p. p \<le> px) (ys Ask)" .
    show ?thesis
      unfolding ask_available_at_or_below_def Some option.case Let_def
      by (rule yields_bind [OF pre], rule yields_bind [OF none]) (use dense in simp)
  next
    case None
    then have out: "\<And>i. i < ?n \<Longrightarrow> px \<noteq> ?base + i" by (simp add: dense_index_tick tick_of_None)
    show ?thesis
    proof (cases "saturating_add_u64 ?base ?n \<le> px")
      case True
      have "p \<le> px" if "(p, q) \<in> set (ys Ask)" for p q
        using offeredD [OF off that] True by (auto simp: saturating_add_u64_def min_def split: if_splits)
      then have "volume (\<lambda>p. True) (ys Ask) = volume (\<lambda>p. p \<le> px) (ys Ask)" by (intro volume_cong) blast
      then have dense: "sum_list A = volume (\<lambda>p. p \<le> px) (ys Ask)"
        using window [of "\<lambda>j. True"] sum_list_sum [of A] by (simp add: lessThan_def)
      show ?thesis
        unfolding ask_available_at_or_below_def None option.case Let_def if_P [OF True]
        by (rule yields_bind [OF yields_dense_total [OF A(1,2)]], rule yields_bind [OF none]) (use dense in simp)
    next
      case False
      have "volume (\<lambda>p. p \<le> px) (ys Ask) = 0"
      proof (rule volume_none)
        fix p q assume "(p, q) \<in> set (ys Ask)"
        note in_range = offeredD [OF off this]
        have "px < ?base + ?n" using False by (auto simp: saturating_add_u64_def)
        show "\<not> p \<le> px"
        proof
          assume "p \<le> px"
          then have "px - ?base < ?n" "px = ?base + (px - ?base)" using in_range(1) \<open>px < ?base + ?n\<close> by linarith+
          then show False using out by blast
        qed
      qed
      then show ?thesis
        unfolding ask_available_at_or_below_def None option.case Let_def if_not_P [OF False] using none by simp
    qed
  qed
qed

lemma bid_available_exact:
  assumes T: "depth_table b (\<lambda>s p. volume (\<lambda>x. x = p) (ys s))" and off: "offered b (ys Bid)"
  shows "yields (bid_available_at_or_above px b) (\<lambda>v. v = volume (\<lambda>p. px \<le> p) (ys Bid))"
proof -
  let ?base = "dense_base_price b" and ?n = "dense_max_ticks b"
  obtain A where A: "fenwick_rel (bid_depth_index b) A" "length A = ?n"
    "\<And>i. i < length A \<Longrightarrow> A ! i = volume (\<lambda>x. x = ?base + i) (ys Bid)"
    and sp: "sparse_inv (bids_sparse_index b)" "\<And>P. sparse_sum P (bids_sparse_index b) = 0"
    using table_side [OF T, of Bid] by auto
  note window = window_volume [OF off A(2,3)]
  note none = yields_sum_at_or_above [OF sp(1), unfolded sp(2)]
  show ?thesis
  proof (cases "dense_index b px")
    case (Some i)
    then have i: "i < ?n" "px = ?base + i" by (simp_all add: dense_index_tick tick_of_Some)
    have suf: "yields (suffix_sum_ge i (bid_depth_index b)) (\<lambda>v. v = sum_list (drop i A))"
      using suffix_sum_ge_eq [OF A(1), of i] i(1) A(2) by simp
    have "sum_list (drop i A) = (\<Sum>j | j < length A \<and> i \<le> j. A ! j)"
      by (simp add: sum_list_drop_sum conj_commute)
    also have "\<dots> = volume (\<lambda>p. i \<le> p - ?base) (ys Bid)" by (rule window)
    also have "\<dots> = volume (\<lambda>p. px \<le> p) (ys Bid)"
      using offeredD(1) [OF off] i(2) by (intro volume_cong) fastforce
    finally have dense: "sum_list (drop i A) = volume (\<lambda>p. px \<le> p) (ys Bid)" .
    show ?thesis
      unfolding bid_available_at_or_above_def Some option.case Let_def
      by (rule yields_bind [OF suf], rule yields_bind [OF none]) (use dense in simp)
  next
    case None
    then have out: "\<And>i. i < ?n \<Longrightarrow> px \<noteq> ?base + i" by (simp add: dense_index_tick tick_of_None)
    show ?thesis
    proof (cases "px < ?base")
      case True
      have "volume (\<lambda>p. True) (ys Bid) = volume (\<lambda>p. px \<le> p) (ys Bid)"
        using offeredD(1) [OF off] True by (intro volume_cong) fastforce
      then have dense: "sum_list A = volume (\<lambda>p. px \<le> p) (ys Bid)"
        using window [of "\<lambda>j. True"] sum_list_sum [of A] by (simp add: lessThan_def)
      show ?thesis
        unfolding bid_available_at_or_above_def None option.case Let_def if_P [OF True]
        by (rule yields_bind [OF yields_dense_total [OF A(1,2)]], rule yields_bind [OF none]) (use dense in simp)
    next
      case False
      have "volume (\<lambda>p. px \<le> p) (ys Bid) = 0"
      proof (rule volume_none)
        fix p q assume "(p, q) \<in> set (ys Bid)"
        note in_range = offeredD [OF off this]
        show "\<not> px \<le> p"
        proof
          assume "px \<le> p"
          then have "px - ?base < ?n" "px = ?base + (px - ?base)" using in_range False by linarith+
          then show False using out by blast
        qed
      qed
      then show ?thesis
        unfolding bid_available_at_or_above_def None option.case Let_def if_not_P [OF False] using none by simp
    qed
  qed
qed

text \<open>What a fill-or-kill order is checked against: what rests at acceptable prices and what ever traded there.\<close>

definition on_offer :: "past \<Rightarrow> side \<Rightarrow> nat \<Rightarrow> lob \<Rightarrow> nat" where
  "on_offer past s px L =
     volume (is_price_acceptable s px) (resting (lob_side (opposite s) L) @ past (opposite s))"

lemma fok_short_exact:
  assumes sim: "sim e Q" and c: "counted e past"
  shows "yields (fok_short tif s px q e) (\<lambda>short. short \<longleftrightarrow> tif = FOK \<and> on_offer past s px (lob_of e) < q)"
proof -
  have ok: "book_ok e Q" using sim by (simp add: sim_def)
  have off: "offered (book e) (held e past s)" for s
  proof -
    have "in_window (book e) (o_price x) \<and> o_price x \<le> u64_max" if x: "x \<in> set (ladder s e)" for x
      by (rule ladder_orders [OF ok x]) (use sim c in \<open>auto simp: sim_def inside_def counted_def\<close>)
    then show ?thesis using c by (auto simp: offered_def held_def resting_def counted_def)
  qed
  have T: "depth_table (book e) (table e past)" using c by (simp add: counted_def)
  have "yields (check_available_liquidity s px e) (\<lambda>v. v = on_offer past s px (lob_of e))"
  proof (cases s)
    case Bid
    have "is_price_acceptable Bid px = (\<lambda>p. p \<le> px)" by (auto simp: fun_eq_iff is_price_acceptable_def)
    then show ?thesis using ask_available_exact [OF T off] Bid by (simp add: check_available_liquidity_def on_offer_def held_def)
  next
    case Ask
    have "is_price_acceptable Ask px = (\<lambda>p. px \<le> p)" by (auto simp: fun_eq_iff is_price_acceptable_def)
    then show ?thesis using bid_available_exact [OF T off] Ask by (simp add: check_available_liquidity_def on_offer_def held_def)
  qed
  then show ?thesis unfolding fok_short_def by (auto intro: yields_bind)
qed

end
