(* ===== verification/Mx_Ref_Engine.thy ===== *)
theory Mx_Ref_Engine
  imports Mx_Depth_Exact
begin

text \<open>
  The commands of the reference on the abstract book: new orders that do not wait for a trigger, with
  every time in force, cancellations and modifications, in every mode of self-trade prevention and with a
  store of any capacity. A fill-or-kill order is checked as the engine does it: against what rests at
  acceptable prices and, as fills stay in the depth indices, all that ever traded there. The handling of
  each command, before stops are triggered, refines them.
\<close>

subsection \<open>The reference engine\<close>

definition crosses :: "side \<Rightarrow> nat \<Rightarrow> lob \<Rightarrow> bool" where
  "crosses s p L = (case lob_side (opposite s) L of [] \<Rightarrow> False | x # _ \<Rightarrow> is_price_acceptable s p (o_price x))"

definition newest_hit :: "stp_mode \<Rightarrow> side \<Rightarrow> nat \<Rightarrow> nat option \<Rightarrow> lob \<Rightarrow> bool" where
  "newest_hit mode s px stp L = (mode = CancelNewest \<and>
     (case lob_side (opposite s) L of [] \<Rightarrow> False | x # _ \<Rightarrow> is_price_acceptable s px (o_price x) \<and> stp_hit stp x))"

definition ref_order ::
  "stp_mode \<Rightarrow> nat \<Rightarrow> order_id \<Rightarrow> side \<Rightarrow> nat \<Rightarrow> nat \<Rightarrow> order_type \<Rightarrow> time_in_force \<Rightarrow> nat option \<Rightarrow> nat option \<Rightarrow>
   past \<Rightarrow> lob \<Rightarrow> trade list \<times> lob" where
  "ref_order mode capacity oid s p q ot tif vis stp past L =
     (let rest = (\<lambda>r. ref_rest capacity s (core (new_order_record oid s p r ot vis stp)));
          px = effective_price ot s p in
      if ot = PostOnly then ([], if crosses s p L then L else rest q L)
      else if q = 0 \<or> known oid L \<or> (tif = FOK \<and> on_offer past s px L < q) \<or> newest_hit mode s px stp L then ([], L)
      else case ref_match mode oid s px stp q (lob_side (opposite s) L) of (fs, c, r, xs) \<Rightarrow>
        (fs, (if \<not> c \<and> (ot = Limit \<or> ot = Iceberg) \<and> tif = GTC \<and> 0 < r then rest r else id)
           (lob_put (opposite s) xs L)))"

definition side_of_id :: "order_id \<Rightarrow> lob \<Rightarrow> side" where
  "side_of_id oid L = (if oid \<in> o_id ` set (lob_bids L) then Bid else Ask)"

fun ref_command :: "stp_mode \<Rightarrow> nat \<Rightarrow> command \<Rightarrow> past \<Rightarrow> lob \<Rightarrow> trade list \<times> lob" where
  "ref_command mode capacity (NewOrder oid instr s p q ot tif vis stop stp) past L =
     ref_order mode capacity oid s p q ot tif vis stp past L"
| "ref_command mode capacity (CancelOrder oid) past L = ([], ref_cancel oid L)"
| "ref_command mode capacity (ModifyOrder oid p q) past L =
     (if known oid L
      then ref_order mode capacity oid (side_of_id oid L) p q Limit GTC None None past (ref_cancel oid L)
      else ([], L))"

text \<open>The side of a command's order, for the trades it causes.\<close>

fun taker_side :: "command \<Rightarrow> lob \<Rightarrow> side" where
  "taker_side (NewOrder oid instr s p q ot tif vis stop stp) L = s"
| "taker_side (CancelOrder oid) L = Bid"
| "taker_side (ModifyOrder oid p q) L = side_of_id oid L"

text \<open>The commands it covers.\<close>

fun plain_command :: "(nat \<Rightarrow> bool) \<Rightarrow> command \<Rightarrow> bool" where
  "plain_command inside_p (NewOrder oid instr s p q ot tif vis stop stp) \<longleftrightarrow>
     (ot = PostOnly \<longrightarrow> 0 < q) \<and> (ot \<noteq> Market \<longrightarrow> inside_p p \<and> p \<le> u64_max)"
| "plain_command inside_p (CancelOrder oid) \<longleftrightarrow> True"
| "plain_command inside_p (ModifyOrder oid p q) \<longleftrightarrow> inside_p p \<and> p \<le> u64_max"

fun is_stop :: "command \<Rightarrow> bool" where
  "is_stop (NewOrder oid instr s p q ot tif vis stop stp) \<longleftrightarrow> ot = StopLimit"
| "is_stop (CancelOrder oid) \<longleftrightarrow> False"
| "is_stop (ModifyOrder oid p q) \<longleftrightarrow> False"

lemma plain_command_same: "same_window b b' \<Longrightarrow> plain_command (in_window b') c = plain_command (in_window b) c"
  by (cases c) (simp_all add: in_window_same)

subsection \<open>The engine's queries\<close>

lemma no_match_ladder:
  assumes "sim e Q"
  shows "no_match s p e \<longleftrightarrow> \<not> crosses s p (lob_of e)"
  using best_ladder [OF assms, of "opposite s"]
  by (auto simp: no_match_def crosses_def best_opposing_view split: list.splits)

lemma would_cross_ladder: "sim e Q \<Longrightarrow> would_cross s p (book e) \<longleftrightarrow> crosses s p (lob_of e)"
  using no_match_ladder would_cross_iff by blast

lemma stp_newest_hit_ladder:
  assumes sim: "sim e Q"
  shows "stp_newest_hit stp s px e = Inr (newest_hit (cfg_stp_mode (config e)) s px stp (lob_of e))"
proof -
  let ?L = "ladder (opposite s) e"
  have ok: "book_ok e Q" using sim by (simp add: sim_def)
  have first: "stp_first_maker_matches s px g e = Inr (case ?L of [] \<Rightarrow> False
      | x # _ \<Rightarrow> is_price_acceptable s px (o_price x) \<and> stp_hit (Some g) x)" for g
  proof (cases ?L)
    case Nil
    then show ?thesis using best_ladder [OF sim, of "opposite s"]
      by (simp add: stp_first_maker_matches_def best_opposing_view)
  next
    case (Cons x xs)
    then obtain ord where x: "best_opposing s (book e) = Some (o_price x)" "Q (opposite s) (o_price x) \<noteq> []"
      "heap_of (eng_arena e) (hd (Q (opposite s) (o_price x))) = Some ord" "x = core ord"
      using best_ladder [OF sim, of "opposite s"] by (auto simp: best_opposing_view)
    obtain l where "opposing_level s (o_price x) (book e) = Inr l" "head l = Some (hd (Q (opposite s) (o_price x)))"
      using opposing_level_ok [OF book_okD(1) [OF ok] x(2)] by blast
    moreover have "arena_get (eng_arena e) (hd (Q (opposite s) (o_price x))) = Inr ord"
      by (rule arena_get_occupied [OF book_relD(1) [OF book_okD(1) [OF ok]] x(3)])
    ultimately show ?thesis using x(1,4) Cons by (auto simp: stp_first_maker_matches_def stp_hit_def)
  qed
  show ?thesis
    by (auto simp: stp_newest_hit_def newest_hit_def first stp_hit_def split: option.splits list.splits)
qed

subsection \<open>New orders\<close>

text \<open>What one part of a command does: fills and a new abstract book, with the rest unchanged.\<close>

definition simulates :: "engine \<Rightarrow> trade list \<times> lob \<Rightarrow> engine \<Rightarrow> bool" where
  "simulates e r e' \<longleftrightarrow> (\<exists>Q. sim e' Q) \<and> lob_of e' = snd r \<and> fills_in (events e') = fills_in (events e) @ fst r \<and>
     same_stops e e' \<and> same_setting e e'"

lemma simulates_emit [simp]:
  assumes "\<And>m. fill_of (f m) = []"
  shows "simulates e r (after_emit f e') \<longleftrightarrow> simulates e r e'" "simulates (after_emit f e) r e' \<longleftrightarrow> simulates e r e'"
  using assms by (simp_all add: simulates_def same_stops_def)

lemma simulates_refl: "sim e Q \<Longrightarrow> simulates e ([], lob_of e) e"
  by (auto simp: simulates_def)

lemma simulates_step:
  assumes "simulates e (fs, L) e1" "simulates e1 (gs, M) e2"
  shows "simulates e (fs @ gs, M) e2"
  using assms by (auto simp: simulates_def intro: same_stops_trans same_setting_trans)

lemma insert_simulates:
  assumes sim: "sim e Q" and qty: "0 < qty" and win: "in_window (book e) p"
  shows "yields (eng_insert oid s p qty ot vis stp e)
    (simulates e ([], ref_rest (a_capacity (eng_arena e)) s (core (new_order_record oid s p qty ot vis stp)) (lob_of e)))"
proof -
  have ok: "book_ok e Q" using sim by (simp add: sim_def)
  show ?thesis
  proof (rule yields_mono [OF eng_insert_spec [OF ok qty]])
    fix e' assume run: "eng_insert oid s p qty ot vis stp e = Inr e'" and r: "rested oid s p qty ot vis stp Q e e'"
    have "events e' = events e" using r by (auto simp: rested_def)
    then show "simulates e ([], ref_rest (a_capacity (eng_arena e)) s (core (new_order_record oid s p qty ot vis stp)) (lob_of e)) e'"
      using rested_sim [OF sim win eng_insert_setting [OF run] r] eng_insert_stops [OF run] eng_insert_setting [OF run]
      by (simp add: simulates_def)
  qed
qed

lemma match_simulates:
  assumes sim: "sim e Q"
  shows "yields (match_against_book oid s px stp q e) (\<lambda>(c, r, e').
    \<exists>fs xs. ref_match (cfg_stp_mode (config e)) oid s px stp q (ladder (opposite s) e) = (fs, c, r, xs) \<and>
      simulates e (fs, lob_put (opposite s) xs (lob_of e)) e')"
proof -
  have ok: "book_ok e Q" and ins: "inside (opposite s) e" using sim by (simp_all add: sim_def)
  show ?thesis
  proof (rule yields_mono [OF yields_conj [OF match_kept [OF ok] match_refines [OF ok ins]]], clarify)
    fix c r e' assume k: "kept e e'" and ref: "refined oid s px stp q e (c, r, e')"
    from ref obtain fs where fs: "ladder s e' = ladder s e" "fills_in (events e') = fills_in (events e) @ fs"
      "ref_match (cfg_stp_mode (config e)) oid s px stp q (ladder (opposite s) e) = (fs, c, r, ladder (opposite s) e')"
      by (auto simp: refined_def)
    have "lob_of e' = lob_put (opposite s) (ladder (opposite s) e') (lob_of e)"
    proof (rule lob_eqI)
      fix s' show "lob_side s' (lob_of e') = lob_side s' (lob_put (opposite s) (ladder (opposite s) e') (lob_of e))"
        using side_cases [of s' s] fs(1) by auto
    qed
    then have "simulates e (fs, lob_put (opposite s) (ladder (opposite s) e') (lob_of e)) e'"
      using kept_sim [OF sim k] k fs(2) by (simp add: simulates_def kept_def)
    then show "\<exists>fs xs. ref_match (cfg_stp_mode (config e)) oid s px stp q (ladder (opposite s) e) = (fs, c, r, xs) \<and>
      simulates e (fs, lob_put (opposite s) xs (lob_of e)) e'" using fs(3) by blast
  qed
qed

lemma emit_simulates:
  "sim e Q \<Longrightarrow> (\<And>m. fill_of (f m) = []) \<Longrightarrow> yields (emit f e) (simulates e ([], lob_of e))"
  by (rule yields_emit) (simp add: simulates_refl)

lemma insert_emit_simulates:
  assumes sim: "simulates e0 (fs, L) e" and qty: "0 < qty" and win: "in_window (book e) p" and f: "\<And>m. fill_of (f m) = []"
  shows "yields (rbind (eng_insert oid s p qty ot vis stp e) (emit f))
    (simulates e0 (fs, ref_rest (a_capacity (eng_arena e0)) s (core (new_order_record oid s p qty ot vis stp)) L))"
proof -
  obtain Q where Q: "sim e Q" using sim by (auto simp: simulates_def)
  have eq: "lob_of e = L" "a_capacity (eng_arena e) = a_capacity (eng_arena e0)"
    using sim by (simp_all add: simulates_def same_setting_def)
  show ?thesis
  proof (rule yields_bind [OF insert_simulates [OF Q qty win]], rule yields_emit)
    fix e' assume "simulates e ([], ref_rest (a_capacity (eng_arena e)) s (core (new_order_record oid s p qty ot vis stp)) (lob_of e)) e'"
    from simulates_step [OF sim this] f
    show "simulates e0 (fs, ref_rest (a_capacity (eng_arena e0)) s (core (new_order_record oid s p qty ot vis stp)) L) (after_emit f e')"
      by (simp add: eq)
  qed
qed

lemma new_order_simulates:
  assumes sim: "sim e Q" and cnt: "tif = FOK \<Longrightarrow> counted e past" and plain: "ot \<noteq> StopLimit" "ot = PostOnly \<Longrightarrow> 0 < q"
    and win: "ot \<noteq> Market \<Longrightarrow> in_window (book e) p"
  shows "yields (process_new_order oid s p q ot tif vis stop stp e)
    (simulates e (ref_order (cfg_stp_mode (config e)) (a_capacity (eng_arena e)) oid s p q ot tif vis stp past (lob_of e)))"
    (is "yields ?m (simulates e ?r)")
proof -
  define px where "px = effective_price ot s p"
  let ?e1 = "after_emit (\<lambda>meta. OrderAccepted meta oid s p q ot) e"
  let ?mode = "cfg_stp_mode (config e)" and ?rest = "\<lambda>r. ref_rest (a_capacity (eng_arena e)) s (core (new_order_record oid s p r ot vis stp))"
  have sim1: "sim ?e1 Q" and e1: "simulates e ([], lob_of e) ?e1" using sim by (simp_all add: simulates_refl)
  show ?thesis
  proof (cases "ot = PostOnly")
    case True
    have "yields (process_post_only oid s p q vis stp e) (simulates e ?r)"
    proof (cases "would_cross s p (book e)")
      case True
      then have "?r = ([], lob_of e)" using \<open>ot = PostOnly\<close> would_cross_ladder [OF sim] by (simp add: ref_order_def Let_def)
      then show ?thesis using emit_simulates [OF sim] True by (simp add: process_post_only_def emit_rejected_def)
    next
      case False
      then have "?r = ([], ?rest q (lob_of e))" using \<open>ot = PostOnly\<close> would_cross_ladder [OF sim] by (simp add: ref_order_def Let_def)
      then show ?thesis
        using False True plain(2) win unfolding process_post_only_def
        by (auto intro!: yields_bind_emit insert_emit_simulates simp: simulates_refl [OF sim])
    qed
    then show ?thesis using True by (simp add: process_new_order_def)
  next
    case notpo: False
    let ?go = "rbind (emit (\<lambda>meta. OrderAccepted meta oid s p q ot) e) (\<lambda>e1.
          rbind (match_against_book oid s px stp q e1) (\<lambda>(cancel_incoming, qty', e2).
          if cancel_incoming then emit (\<lambda>meta. OrderCancelled meta oid qty') e2
          else handle_remainder oid s p qty' ot tif vis stp e2))"
    have fok: "yields (fok_short tif s px q e) (\<lambda>short. short \<longleftrightarrow> tif = FOK \<and> on_offer past s px (lob_of e) < q)"
    proof (cases "tif = FOK")
      case True
      then show ?thesis by (rule fok_short_exact [OF sim cnt])
    qed (simp add: fok_short_def)
    have run: "?m = (if q = 0 then emit (\<lambda>meta. OrderRejected meta oid InvalidQuantity) e
      else if lookup oid (book e) \<noteq> None then emit_rejected oid DuplicateOrderId e
      else rbind (fok_short tif s px q e) (\<lambda>short.
        if short then emit_rejected oid InsufficientLiquidity e
        else if newest_hit ?mode s px stp (lob_of e) then emit (\<lambda>meta. OrderRejected meta oid SelfTradePreventionTriggered) e
        else ?go))"
      using notpo plain(1)
      by (simp add: process_new_order_def stp_newest_hit_ladder [OF sim] Let_def cong: if_cong flip: px_def)
    show ?thesis
    proof (cases "q = 0 \<or> known oid (lob_of e) \<or> (tif = FOK \<and> on_offer past s px (lob_of e) < q) \<or> newest_hit ?mode s px stp (lob_of e)")
      case True
      then have "?r = ([], lob_of e)" using notpo by (auto simp: ref_order_def Let_def simp flip: px_def)
      note rejected = emit_simulates [OF sim, of "\<lambda>meta. OrderRejected meta oid reason" for reason, simplified]
      have "yields (rbind (fok_short tif s px q e) (\<lambda>short.
        if short then emit_rejected oid InsufficientLiquidity e
        else if newest_hit ?mode s px stp (lob_of e) then emit (\<lambda>meta. OrderRejected meta oid SelfTradePreventionTriggered) e
        else ?go)) (simulates e ([], lob_of e))" if "\<not> (q = 0 \<or> known oid (lob_of e))"
        by (rule yields_bind [OF fok]) (use True that rejected in \<open>auto simp: emit_rejected_def\<close>)
      then show ?thesis unfolding run \<open>?r = ([], lob_of e)\<close> using lookup_known [OF sim, of oid] rejected
        by (simp add: emit_rejected_def)
    next
      case False
      then have run1: "?m = rbind (fok_short tif s px q e) (\<lambda>short. if short then emit_rejected oid InsufficientLiquidity e else ?go)"
        unfolding run using lookup_known [OF sim, of oid] by auto
      have "yields (rbind (match_against_book oid s px stp q ?e1) (\<lambda>(cancel_incoming, qty', e2).
          if cancel_incoming then emit (\<lambda>meta. OrderCancelled meta oid qty') e2
          else handle_remainder oid s p qty' ot tif vis stp e2)) (simulates e ?r)"
      proof (rule yields_bind [OF match_simulates [OF sim1]], clarify)
        fix c r e2 fs xs
        assume ref: "ref_match (cfg_stp_mode (config ?e1)) oid s px stp q (ladder (opposite s) ?e1) = (fs, c, r, xs)"
          and e2: "simulates ?e1 (fs, lob_put (opposite s) xs (lob_of ?e1)) e2"
        have ref': "ref_match ?mode oid s px stp q (lob_side (opposite s) (lob_of e)) = (fs, c, r, xs)"
          using ref by (simp add: ladder_frame [of ?e1 e])
        have r: "?r = (fs, (if \<not> c \<and> (ot = Limit \<or> ot = Iceberg) \<and> tif = GTC \<and> 0 < r then ?rest r else id)
            (lob_put (opposite s) xs (lob_of e)))"
          using False notpo unfolding ref_order_def Let_def px_def [symmetric] ref' by auto
        have s2: "simulates e (fs, lob_put (opposite s) xs (lob_of e)) e2"
          using e2 by simp
        have win2: "ot \<noteq> Market \<Longrightarrow> in_window (book e2) p"
          using win in_window_same [of "book e" "book e2"] s2 by (simp add: simulates_def same_setting_def)
        show "yields (if c then emit (\<lambda>meta. OrderCancelled meta oid r) e2
            else handle_remainder oid s p r ot tif vis stp e2) (simulates e ?r)"
          unfolding r handle_remainder_def
          using s2 win2 by (auto intro!: yields_emit insert_emit_simulates)
      qed
      then have go: "yields ?go (simulates e ?r)" by (rule yields_bind_emit)
      have "yields (rbind (fok_short tif s px q e) (\<lambda>short. if short then emit_rejected oid InsufficientLiquidity e else ?go))
          (simulates e ?r)"
      proof (rule yields_bind [OF fok])
        fix short assume "short \<longleftrightarrow> tif = FOK \<and> on_offer past s px (lob_of e) < q"
        then have "\<not> short" using False by blast
        then show "yields (if short then emit_rejected oid InsufficientLiquidity e else ?go) (simulates e ?r)"
          unfolding if_not_P [OF \<open>\<not> short\<close>] using go by blast
      qed
      then show ?thesis unfolding run1 .
    qed
  qed
qed

subsection \<open>Commands\<close>

lemma remove_simulates:
  assumes sim: "sim e Q" and ord: "heap_of (eng_arena e) i = Some ord"
  shows "yields (eng_remove i e) (simulates e ([], ref_cancel (o_id ord) (lob_of e)))"
proof -
  have ok: "book_ok e Q" using sim by (simp add: sim_def)
  show ?thesis
  proof (rule yields_mono [OF eng_remove_took [OF ok ord]], elim conjE)
    fix e' assume t: "took i ord (remaining ord) Q e e'" and ev: "events e' = events e"
    then show "simulates e ([], ref_cancel (o_id ord) (lob_of e)) e'"
      using took_all_sim [OF sim ord t] kept_sim [OF sim took_kept [OF t ord]] by (simp add: simulates_def took_def)
  qed
qed

lemma ref_cancel_unknown:
  assumes "\<not> known oid L"
  shows "ref_cancel oid L = L"
proof (rule lob_eqI)
  fix s have "filter (\<lambda>x. o_id x \<noteq> oid) (lob_side s L) = lob_side s L"
    using assms unfolding known_side by (auto intro: filter_True)
  then show "lob_side s (ref_cancel oid L) = lob_side s L" by simp
qed

lemma get_level_qty_sim:
  assumes "simulates e0 r e" "\<And>q. yields (f q) P"
  shows "yields (rbind (get_level_qty s p (book e)) f) P"
  using assms get_level_qty_bind unfolding simulates_def sim_def by blast

lemma side_of_id_ladder:
  assumes sim: "sim e Q" and ord: "heap_of (eng_arena e) i = Some ord"
  shows "side_of_id (o_id ord) (lob_of e) = o_side ord"
proof -
  have ok: "book_ok e Q" using sim by (simp add: sim_def)
  have "o_id ord \<in> o_id ` set (ladder Bid e) \<longleftrightarrow> o_side ord = Bid"
    unfolding ladder_ids [OF sim] using ord book_relD(4) [OF book_okD(1) [OF ok], of "o_id ord"] by (metis option.inject)
  then show ?thesis by (cases "o_side ord") (simp_all add: side_of_id_def lob_of_def)
qed

lemma command_simulates:
  assumes sim: "sim e Q" and plain: "plain_command (in_window (book e)) c" "\<not> is_stop c"
    and cnt: "counted e past"
  shows "yields (process_command c e)
    (simulates e (ref_command (cfg_stp_mode (config e)) (a_capacity (eng_arena e)) c past (lob_of e)))"
proof (cases c)
  case (NewOrder oid instr s p q ot tif vis stop stp)
  then show ?thesis using new_order_simulates [OF sim cnt] plain by simp
next
  case (CancelOrder oid)
  show ?thesis
  proof (cases "lookup oid (book e)")
    case None
    then have "\<not> known oid (lob_of e)" using lookup_known [OF sim] by blast
    then show ?thesis using None CancelOrder emit_simulates [OF sim] by (simp add: process_cancel_def ref_cancel_unknown)
  next
    case (Some i)
    have ok: "book_ok e Q" using sim by (simp add: sim_def)
    obtain ord where ord: "heap_of (eng_arena e) i = Some ord" "o_id ord = oid" "arena_get (eng_arena e) i = Inr ord"
      using lookup_slot [OF ok Some] by blast
    have "yields (rbind (eng_remove i e) (\<lambda>e1. rbind (emit (\<lambda>meta. OrderCancelled meta oid (remaining ord)) e1) (\<lambda>e2.
        rbind (get_level_qty (o_side ord) (o_price ord) (book e2)) (\<lambda>level_qty.
          emit (\<lambda>meta. BookUpdate meta (o_side ord) (o_price ord) level_qty) e2)))) (simulates e ([], ref_cancel oid (lob_of e)))"
      by (rule yields_bind [OF remove_simulates [OF sim ord(1)]], rule yields_bind_emit, rule get_level_qty_sim)
        (auto simp: ord(2) intro!: yields_emit)
    then show ?thesis using Some CancelOrder ord(3) by (simp add: process_cancel_def)
  qed
next
  case (ModifyOrder oid p q)
  show ?thesis
  proof (cases "lookup oid (book e)")
    case None
    then have "\<not> known oid (lob_of e)" using lookup_known [OF sim] by blast
    then show ?thesis using None ModifyOrder emit_simulates [OF sim] by (simp add: process_modify_def)
  next
    case (Some i)
    then have known: "known oid (lob_of e)" using lookup_known [OF sim, of oid] by simp
    have ok: "book_ok e Q" using sim by (simp add: sim_def)
    obtain ord where ord: "heap_of (eng_arena e) i = Some ord" "o_id ord = oid" "arena_get (eng_arena e) i = Inr ord"
      using lookup_slot [OF ok Some] by blast
    let ?new = "process_new_order oid (o_side ord) p q Limit GTC None None None"
    let ?r = "ref_order (cfg_stp_mode (config e)) (a_capacity (eng_arena e)) oid (o_side ord) p q Limit GTC None None past (ref_cancel oid (lob_of e))"
    have new: "yields (?new e3) (simulates e ?r)" if e3: "simulates e ([], ref_cancel oid (lob_of e)) e3" for e3
    proof -
      obtain Q3 where Q3: "sim e3 Q3" using e3 by (auto simp: simulates_def)
      have eq: "lob_of e3 = ref_cancel oid (lob_of e)" "config e3 = config e"
        "a_capacity (eng_arena e3) = a_capacity (eng_arena e)" "in_window (book e3) p"
        using e3 plain ModifyOrder in_window_same [of "book e" "book e3"]
        by (simp_all add: simulates_def same_setting_def same_stops_def)
      have "yields (?new e3) (simulates e3 ?r)"
        using new_order_simulates [OF Q3, of GTC past Limit q p oid "o_side ord" None None None] eq by simp
      then show ?thesis
        by (rule yields_mono) (use simulates_step [OF e3, of "fst ?r" "snd ?r"] in simp)
    qed
    have "yields (rbind (eng_remove i e) (\<lambda>e1. rbind (emit (\<lambda>meta. OrderModified meta oid p q) e1) (\<lambda>e2.
        rbind (get_level_qty (o_side ord) (o_price ord) (book e2)) (\<lambda>level_qty.
        rbind (emit (\<lambda>meta. BookUpdate meta (o_side ord) (o_price ord) level_qty) e2) ?new)))) (simulates e ?r)"
      by (rule yields_bind [OF remove_simulates [OF sim ord(1)]], rule yields_bind_emit, rule get_level_qty_sim)
        (auto simp: ord(2) intro!: yields_bind_emit new)
    then show ?thesis
      using Some ModifyOrder ord known side_of_id_ladder [OF sim ord(1)] by (simp add: process_modify_def)
  qed
qed

text \<open>What has traded is counted with what had traded before.\<close>

lemma command_counted:
  assumes sim: "sim e Q" and run: "process_command c e = Inr e'" and plain: "plain_command (in_window (book e)) c" "\<not> is_stop c"
    and cnt: "counted e past" and fills: "fills_in (events e') = fills_in (events e) @ fs"
  shows "counted e' (add_past (opposite (taker_side c (lob_of e))) fs past)"
proof (cases c)
  case (NewOrder oid instr s p q ot tif vis stop stp)
  then show ?thesis using new_order_counted [OF sim _ cnt] run plain fills by simp
next
  case (CancelOrder oid)
  have "no_fills e e' \<and> counted e' past"
    using run CancelOrder cnt sim lookup_index [OF sim, of oid]
    by (fastforce simp: process_cancel_def rbind_eq_Inr emit_Inr split: option.splits dest: eng_remove_counted [OF sim] eng_remove_frame(6))
  then show ?thesis using fills CancelOrder by simp
next
  case (ModifyOrder oid p q)
  show ?thesis
  proof (cases "lookup oid (book e)")
    case None
    then show ?thesis using run fills cnt ModifyOrder by (auto simp: process_modify_def emit_Inr)
  next
    case (Some i)
    have ok: "book_ok e Q" using sim by (simp add: sim_def)
    obtain ord where ord: "heap_of (eng_arena e) i = Some ord" "o_id ord = oid" "arena_get (eng_arena e) i = Inr ord"
      using lookup_slot [OF ok Some] by blast
    obtain e1 v where e1: "eng_remove i e = Inr e1"
      and new: "process_new_order oid (o_side ord) p q Limit GTC None None None
        (after_emit (\<lambda>meta. BookUpdate meta (o_side ord) (o_price ord) v) (after_emit (\<lambda>meta. OrderModified meta oid p q) e1)) = Inr e'"
      using run ModifyOrder Some ord(3) by (auto simp: process_modify_def rbind_eq_Inr emit_Inr)
    let ?e2 = "after_emit (\<lambda>meta. BookUpdate meta (o_side ord) (o_price ord) v) (after_emit (\<lambda>meta. OrderModified meta oid p q) e1)"
    have k: "kept e e1" using eng_remove_kept [OF ok ord(1)] e1 by simp
    obtain Q1 where sim1: "sim e1 Q1" using kept_sim [OF sim k] by blast
    have "counted e' (add_past (opposite (o_side ord)) fs past)"
    proof (rule new_order_counted [OF _ new])
      show "sim ?e2 Q1" using sim1 by simp
      show "counted ?e2 past" using eng_remove_counted [OF sim ord(1) e1 cnt] by simp
      show "in_window (book ?e2) p \<and> p \<le> u64_max"
        using plain(1) ModifyOrder k in_window_same [of "book e" "book e1"] by (simp add: kept_def same_setting_def)
      show "fills_in (events e') = fills_in (events ?e2) @ fs"
        using fills eng_remove_frame(6) [OF e1] by simp
    qed simp_all
    then show ?thesis using ModifyOrder side_of_id_ladder [OF sim ord(1)] ord(2) by simp
  qed
qed

end
