(* ===== verification/Mx_Ref_Laws.thy ===== *)
theory Mx_Ref_Laws
  imports Mx_Ref_Engine "HOL-Library.Sublist"
begin

text \<open>
  The laws of the reference matcher: whom it fills and in which order, how much, and when it stops. By
  the refinement they hold of the engine.
\<close>

subsection \<open>The reference matcher\<close>

lemma ref_match_induct [case_names Nil Stop Newest Oldest Both Decrement Fill]:
  assumes "\<And>rem. P rem [] ([], False, rem, [])"
    and "\<And>rem x xs. rem = 0 \<or> \<not> is_price_acceptable sd px (o_price x) \<Longrightarrow> P rem (x # xs) ([], False, rem, x # xs)"
    and "\<And>rem x xs. 0 < rem \<Longrightarrow> is_price_acceptable sd px (o_price x) \<Longrightarrow> stp_hit stp x \<Longrightarrow> mode = CancelNewest \<Longrightarrow>
        P rem (x # xs) ([], False, rem, x # xs)"
    and "\<And>rem x xs. 0 < rem \<Longrightarrow> is_price_acceptable sd px (o_price x) \<Longrightarrow> stp_hit stp x \<Longrightarrow> mode = CancelOldest \<Longrightarrow>
        P rem xs (ref_match mode tid sd px stp rem xs) \<Longrightarrow> P rem (x # xs) (ref_match mode tid sd px stp rem xs)"
    and "\<And>rem x xs. 0 < rem \<Longrightarrow> is_price_acceptable sd px (o_price x) \<Longrightarrow> stp_hit stp x \<Longrightarrow> mode = CancelBoth \<Longrightarrow>
        P rem (x # xs) ([], True, rem, xs)"
    and "\<And>rem x xs d. 0 < rem \<Longrightarrow> is_price_acceptable sd px (o_price x) \<Longrightarrow> stp_hit stp x \<Longrightarrow>
        mode = DecrementAndCancel \<Longrightarrow> d = min rem (remaining x) \<Longrightarrow>
        P rem (x # xs) ([], True, rem - d, take_first d x xs)"
    and "\<And>rem x xs d. 0 < rem \<Longrightarrow> is_price_acceptable sd px (o_price x) \<Longrightarrow> \<not> stp_hit stp x \<Longrightarrow>
        d = min rem (matchable_qty x) \<Longrightarrow>
        P (rem - d) (take_first d x xs) (ref_match mode tid sd px stp (rem - d) (take_first d x xs)) \<Longrightarrow>
        P rem (x # xs) (prepend [(o_id x, tid, o_price x, d)]
          (ref_match mode tid sd px stp (rem - d) (take_first d x xs)))"
  shows "P rem xs (ref_match mode tid sd px stp rem xs)"
  using assms
proof (induction mode tid sd px stp rem xs rule: ref_match.induct)
  case (2 mode tid sd px stp rem x xs)
  show ?case
  proof (cases "rem = 0 \<or> \<not> is_price_acceptable sd px (o_price x)")
    case True
    then show ?thesis using "2.prems"(2) by (simp add: ref_match.simps(2))
  next
    case go: False
    show ?thesis
    proof (cases "stp_hit stp x")
      case True
      then show ?thesis using go "2.prems" "2.IH"(1) [OF go True]
        by (cases mode) (simp_all add: ref_match.simps(2) Let_def)
    next
      case False
      let ?d = "min rem (matchable_qty x)"
      have "P (rem - ?d) (take_first ?d x xs) (ref_match mode tid sd px stp (rem - ?d) (take_first ?d x xs))"
        by (rule "2.IH"(2) [OF go False refl]) (fact "2.prems")+
      from "2.prems"(7) [OF _ _ False refl this] go
      show ?thesis using False by (simp add: ref_match.simps(2) Let_def prepend_def split_beta)
    qed
  qed
qed simp

lemma take_first_live: "\<forall>y \<in> set (x # xs). 0 < remaining y \<Longrightarrow> d \<le> remaining x \<Longrightarrow> \<forall>y \<in> set (take_first d x xs). 0 < remaining y"
  by (auto simp: take_first_def reduced_def remaining_def)

lemma ref_match_fills:
  "(\<forall>x \<in> set xs. 0 < remaining x) \<longrightarrow> (case ref_match mode tid sd px stp rem xs of (fs, c, r, ys) \<Rightarrow>
     \<forall>(maker, taker, p, q) \<in> set fs. taker = tid \<and> is_price_acceptable sd px p \<and> 0 < q)"
proof (induction rule: ref_match_induct)
  case (Fill rem x xs d)
  show ?case
  proof
    assume live: "\<forall>y \<in> set (x # xs). 0 < remaining y"
    have "d \<le> remaining x" using Fill(4) matchable_le_remaining [of x] by simp
    from take_first_live [OF live this] Fill(5)
    show "case prepend [(o_id x, tid, o_price x, d)] (ref_match mode tid sd px stp (rem - d) (take_first d x xs)) of
      (fs, c, r, ys) \<Rightarrow> \<forall>(maker, taker, p, q) \<in> set fs. taker = tid \<and> is_price_acceptable sd px p \<and> 0 < q"
      using Fill(1,2,4) matchable_pos [of x] live by (simp add: prepend_def split_beta)
  qed
qed auto

definition traded :: "trade list \<Rightarrow> nat" where
  "traded fs = sum_list (map (\<lambda>(maker, taker, p, q). q) fs)"

lemma traded_simps [simp]: "traded [] = 0" "traded ((m, t, p, q) # fs) = q + traded fs" "traded (fs @ gs) = traded fs + traded gs"
  by (simp_all add: traded_def)

text \<open>What self-trade prevention withdraws: the orders of the taker's own group that are gone.\<close>

definition withdrawn :: "stp_mode \<Rightarrow> nat option \<Rightarrow> order list \<Rightarrow> order list \<Rightarrow> nat" where
  "withdrawn mode stp xs ys =
     (if mode = CancelOldest \<or> mode = CancelBoth
      then sum_list (map remaining (filter (\<lambda>x. stp_hit stp x \<and> o_id x \<notin> o_id ` set ys) xs)) else 0)"

lemma withdrawn_none:
  assumes "\<And>x. x \<in> set xs \<Longrightarrow> stp_hit stp x \<Longrightarrow> o_id x \<in> o_id ` set ys"
  shows "withdrawn mode stp xs ys = 0"
proof -
  have "filter (\<lambda>x. stp_hit stp x \<and> o_id x \<notin> o_id ` set ys) xs = []" using assms by (auto simp: filter_empty_conv)
  then show ?thesis by (simp add: withdrawn_def)
qed

lemma withdrawn_same [simp]: "withdrawn mode stp xs xs = 0"
  by (rule withdrawn_none) simp

lemma withdrawn_first:
  assumes "mode = CancelOldest \<or> mode = CancelBoth" "stp_hit stp x" "o_id x \<notin> o_id ` set ys"
  shows "withdrawn mode stp (x # xs) ys = remaining x + withdrawn mode stp xs ys"
  using assms by (simp add: withdrawn_def)

lemma stp_hit_reduced [simp]: "stp_hit stp (reduced d x) = stp_hit stp x"
  by (simp add: stp_hit_def reduced_def)

lemma withdrawn_fill: "\<not> stp_hit stp x \<Longrightarrow> withdrawn mode stp (take_first d x xs) ys = withdrawn mode stp (x # xs) ys"
  by (simp add: withdrawn_def take_first_def)

lemma take_first_remaining:
  "d \<le> remaining x \<Longrightarrow> sum_list (map remaining (take_first d x xs)) + d = remaining x + sum_list (map remaining xs)"
  by (auto simp: take_first_def reduced_def remaining_def)

lemma take_first_ids: "map o_id (take_first d x xs) = (if d = remaining x then map o_id xs else o_id x # map o_id xs)"
  by (simp add: take_first_def reduced_def)

lemma subseq_skip:
  assumes "subseq ys (x # xs)" "ys = [] \<or> hd ys \<noteq> x"
  shows "subseq ys xs"
  using assms by (cases ys) (auto split: if_splits)

lemma ref_match_order:
  "case ref_match mode tid sd px stp rem xs of (fs, c, r, ys) \<Rightarrow>
     subseq (remdups_adj (map fst fs)) (map o_id xs) \<and> suffix (map o_id ys) (map o_id xs)"
proof (induction rule: ref_match_induct)
  case (Oldest rem x xs)
  then show ?case by (auto intro: suffix_ConsI)
next
  case (Decrement rem x xs d)
  then show ?case by (simp add: take_first_ids suffix_ConsI)
next
  case (Fill rem x xs d)
  obtain fs c r ys where res: "ref_match mode tid sd px stp (rem - d) (take_first d x xs) = (fs, c, r, ys)"
    by (metis prod_cases4)
  let ?l = "remdups_adj (map fst fs)"
  have ih: "subseq ?l (map o_id (take_first d x xs))" "suffix (map o_id ys) (map o_id (take_first d x xs))"
    using Fill(5) by (simp_all add: res)
  have sub: "subseq ?l (o_id x # map o_id xs)" using ih(1) by (auto simp: take_first_ids split: if_splits)
  have "subseq (remdups_adj (o_id x # map fst fs)) (o_id x # map o_id xs)"
  proof (cases "?l = [] \<or> hd ?l \<noteq> o_id x")
    case True
    then have "remdups_adj (o_id x # map fst fs) = o_id x # ?l"
      by (auto simp: remdups_adj_Cons simp del: hd_remdups_adj split: list.splits)
    then show ?thesis using subseq_skip [OF sub True] by simp
  next
    case False
    then have "remdups_adj (o_id x # map fst fs) = ?l"
      by (auto simp: remdups_adj_Cons simp del: hd_remdups_adj split: list.splits)
    then show ?thesis using sub by simp
  qed
  moreover have "suffix (map o_id ys) (o_id x # map o_id xs)"
    using ih(2) by (auto simp: take_first_ids suffix_ConsI split: if_splits)
  ultimately show ?case by (simp add: res)
qed (auto intro: suffix_ConsI)

lemma ref_match_end:
  "case ref_match mode tid sd px stp rem xs of (fs, c, r, ys) \<Rightarrow>
     c \<or> r = 0 \<or> (mode = CancelNewest \<and> stp \<noteq> None) \<or>
     (case ys of [] \<Rightarrow> True | y # _ \<Rightarrow> \<not> is_price_acceptable sd px (o_price y))"
proof (induction rule: ref_match_induct)
  case (Fill rem x xs d)
  then show ?case by (auto simp: prepend_def split_beta)
qed (auto simp: stp_hit_def)

lemma take_first_sorted:
  assumes "sorted_wrt (\<lambda>x y. better s (o_price x) (o_price y)) (x # xs)"
  shows "sorted_wrt (\<lambda>x y. better s (o_price x) (o_price y)) (take_first d x xs)"
    "\<forall>y \<in> set (take_first d x xs). better s (o_price x) (o_price y)"
  using assms by (auto simp: take_first_def reduced_def)

lemma ref_match_prices:
  "sorted_wrt (\<lambda>x y. better s (o_price x) (o_price y)) xs \<longrightarrow>
   (case ref_match mode tid sd px stp rem xs of (fs, c, r, ys) \<Rightarrow>
     sorted_wrt (better s) (map (\<lambda>(maker, taker, p, q). p) fs) \<and>
     (\<forall>(maker, taker, p, q) \<in> set fs. \<exists>x \<in> set xs. p = o_price x))"
proof (induction rule: ref_match_induct)
  case (Fill rem x xs d)
  obtain fs c r ys where res: "ref_match mode tid sd px stp (rem - d) (take_first d x xs) = (fs, c, r, ys)"
    by (metis prod_cases4)
  have sub: "\<exists>z \<in> set (x # xs). p = o_price z" if "y \<in> set (take_first d x xs)" "p = o_price y" for y p
    using that by (auto simp: take_first_def reduced_def split: if_splits)
  show ?case
  proof
    assume "sorted_wrt (\<lambda>x y. better s (o_price x) (o_price y)) (x # xs)"
    note t = take_first_sorted [OF this, of d]
    have ih: "sorted_wrt (better s) (map (\<lambda>(maker, taker, p, q). p) fs)"
      "\<forall>(maker, taker, p, q) \<in> set fs. \<exists>y \<in> set (take_first d x xs). p = o_price y"
      using Fill(5) t(1) by (simp_all add: res)
    have "\<forall>p \<in> set (map (\<lambda>(maker, taker, p, q). p) fs). better s (o_price x) p" using ih(2) t(2) by fastforce
    moreover have "\<forall>(maker, taker, p, q) \<in> set fs. \<exists>z \<in> set (x # xs). p = o_price z" using ih(2) sub by blast
    ultimately show "case prepend [(o_id x, tid, o_price x, d)] (ref_match mode tid sd px stp (rem - d) (take_first d x xs)) of
      (fs, c, r, ys) \<Rightarrow> sorted_wrt (better s) (map (\<lambda>(maker, taker, p, q). p) fs) \<and>
        (\<forall>(maker, taker, p, q) \<in> set fs. \<exists>z \<in> set (x # xs). p = o_price z)"
      using ih(1) by (simp add: res)
  qed
next
  case (Oldest rem x xs)
  show ?case
  proof
    assume "sorted_wrt (\<lambda>x y. better s (o_price x) (o_price y)) (x # xs)"
    then show "case ref_match mode tid sd px stp rem xs of (fs, c, r, ys) \<Rightarrow>
        sorted_wrt (better s) (map (\<lambda>(maker, taker, p, q). p) fs) \<and>
        (\<forall>(maker, taker, p, q) \<in> set fs. \<exists>z \<in> set (x # xs). p = o_price z)"
      using Oldest(5) by (auto split: prod.splits)
  qed
qed auto

text \<open>The account of one matching: what the taker asked for is traded, left, or (\<open>d\<close>) taken off by
  \<open>DecrementAndCancel\<close>; what rested is traded, taken off, withdrawn or still rests.\<close>

definition balanced ::
  "stp_mode \<Rightarrow> nat option \<Rightarrow> nat \<Rightarrow> order list \<Rightarrow> trade list \<times> bool \<times> nat \<times> order list \<Rightarrow> bool" where
  "balanced mode stp q xs res \<longleftrightarrow> (case res of (fs, c, r, ys) \<Rightarrow>
     \<exists>d. traded fs + r + d = q \<and> (d \<noteq> 0 \<longrightarrow> c \<and> mode = DecrementAndCancel) \<and> (stp = None \<longrightarrow> \<not> c) \<and>
       traded fs + d + withdrawn mode stp xs ys + sum_list (map remaining ys) = sum_list (map remaining xs))"

lemma balanced_no_fills:
  assumes "withdrawn mode stp xs ys + sum_list (map remaining ys) = sum_list (map remaining xs)" "c \<longrightarrow> stp \<noteq> None"
  shows "balanced mode stp q xs ([], c, q, ys)"
  using assms by (auto simp: balanced_def)

lemma ref_match_balanced:
  "distinct (map o_id xs) \<longrightarrow> balanced mode stp rem xs (ref_match mode tid sd px stp rem xs)"
proof (induction rule: ref_match_induct)
  case (Oldest rem x xs)
  obtain fs c r ys where res: "ref_match mode tid sd px stp rem xs = (fs, c, r, ys)" by (metis prod_cases4)
  have "set (map o_id ys) \<subseteq> set (map o_id xs)"
    using ref_match_order [where mode = mode and tid = tid and sd = sd and px = px and stp = stp and rem = rem and xs = xs] set_mono_suffix by (fastforce simp: res)
  then have "withdrawn mode stp (x # xs) ys = remaining x + withdrawn mode stp xs ys" if "distinct (map o_id (x # xs))"
    using that Oldest(3,4) by (intro withdrawn_first) auto
  then show ?case using Oldest(5) by (auto simp: balanced_def res)
next
  case (Both rem x xs)
  have "withdrawn mode stp (x # xs) xs = remaining x" if "distinct (map o_id (x # xs))"
    using that Both(3,4) withdrawn_first [of mode stp x xs xs] by simp
  then show ?case using Both(3) by (auto intro!: balanced_no_fills simp: stp_hit_def)
next
  case (Decrement rem x xs d)
  then have "d \<le> rem" "d \<le> remaining x" by simp_all
  then show ?case using take_first_remaining [of d x xs] Decrement(3,4)
    by (auto simp: balanced_def withdrawn_def stp_hit_def intro!: exI [of _ d])
next
  case (Fill rem x xs d)
  obtain fs c r ys where res: "ref_match mode tid sd px stp (rem - d) (take_first d x xs) = (fs, c, r, ys)"
    by (metis prod_cases4)
  have d: "d \<le> rem" "d \<le> remaining x" using Fill(4) matchable_le_remaining [of x] by simp_all
  have "distinct (map o_id (take_first d x xs))" if "distinct (map o_id (x # xs))" using that by (simp add: take_first_ids)
  then have ih: "balanced mode stp (rem - d) (take_first d x xs) (fs, c, r, ys)" if "distinct (map o_id (x # xs))"
    using Fill(5) that by (simp add: res)
  show ?case
  proof
    assume "distinct (map o_id (x # xs))"
    from ih [OF this] obtain k where "traded fs + r + k = rem - d" "k \<noteq> 0 \<longrightarrow> c \<and> mode = DecrementAndCancel"
      "stp = None \<longrightarrow> \<not> c" "traded fs + k + withdrawn mode stp (x # xs) ys + sum_list (map remaining ys) =
        sum_list (map remaining (take_first d x xs))"
      unfolding balanced_def withdrawn_fill [OF Fill(3)] prod.case by blast
    then have "traded ((o_id x, tid, o_price x, d) # fs) + r + k = rem \<and> (k \<noteq> 0 \<longrightarrow> c \<and> mode = DecrementAndCancel) \<and>
        (stp = None \<longrightarrow> \<not> c) \<and> traded ((o_id x, tid, o_price x, d) # fs) + k + withdrawn mode stp (x # xs) ys +
        sum_list (map remaining ys) = sum_list (map remaining (x # xs))"
      using d take_first_remaining [OF d(2), of xs] by simp
    then show "balanced mode stp rem (x # xs) (prepend [(o_id x, tid, o_price x, d)]
        (ref_match mode tid sd px stp (rem - d) (take_first d x xs)))"
      unfolding balanced_def res prepend_simps prod.case append.simps by blast
  qed
qed (auto intro: balanced_no_fills)

lemma subseq_in: "k \<in> set xs \<Longrightarrow> subseq xs ys \<Longrightarrow> k \<in> set ys"
  by (erule list_emb_set) auto

lemma ref_match_makers:
  assumes "ref_match mode tid sd px stp rem xs = (fs, res)" "k \<in> set (map fst fs)"
  shows "k \<in> set (map o_id xs)"
  using assms ref_match_order [where mode = mode and tid = tid and sd = sd and px = px and stp = stp and rem = rem and xs = xs]
    subseq_in [of k "remdups_adj (map fst fs)" "map o_id xs"] by (cases res) simp

text \<open>A maker that shows its whole quantity trades at most once.\<close>

lemma ref_match_once:
  "distinct (map o_id xs) \<longrightarrow> x \<in> set xs \<longrightarrow> o_order_type x \<noteq> Iceberg \<longrightarrow>
   (case ref_match mode tid sd px stp rem xs of (fs, res) \<Rightarrow> count_list (map fst fs) (o_id x) \<le> 1)"
proof (induction rule: ref_match_induct)
  case (Fill rem y ys d)
  obtain fs res where res: "ref_match mode tid sd px stp (rem - d) (take_first d y ys) = (fs, res)" by (metis surj_pair)
  note only = ref_match_makers [OF res]
  show ?case
  proof (intro impI)
    assume dist: "distinct (map o_id (y # ys))" and x: "x \<in> set (y # ys)" "o_order_type x \<noteq> Iceberg"
    have dist': "distinct (map o_id (take_first d y ys))" using dist by (simp add: take_first_ids)
    show "case prepend [(o_id y, tid, o_price y, d)]
        (ref_match mode tid sd px stp (rem - d) (take_first d y ys)) of (fs, res) \<Rightarrow> count_list (map fst fs) (o_id x) \<le> 1"
    proof (cases "x = y")
      case False
      then have "x \<in> set (take_first d y ys)" "o_id y \<noteq> o_id x" using x dist by (auto simp: take_first_def rev_image_eqI)
      then show ?thesis using Fill(5) dist' x(2) by (simp add: res)
    next
      case True
      then have "matchable_qty y = remaining y" using x(2) by (simp add: matchable_qty_def)
      then have "d = remaining y \<or> rem - d = 0" using Fill(4) by auto
      moreover have "o_id y \<notin> set (map fst fs)" if "d = remaining y"
        using only [of "o_id y"] that dist by (auto simp: take_first_ids)
      moreover have "fs = []" if "rem - d = 0"
        using res that by (simp add: ref_match_stop)
      ultimately have "o_id y \<notin> set (map fst fs)" by auto
      then have "count_list (map fst fs) (o_id y) = 0" by (simp add: count_list_0_iff)
      then show ?thesis using True by (simp add: res)
    qed
  qed
next
  case (Oldest rem y ys)
  obtain fs res where res: "ref_match mode tid sd px stp rem ys = (fs, res)" by (metis surj_pair)
  have "count_list (map fst fs) (o_id y) = 0" if "o_id y \<notin> set (map o_id ys)"
    using ref_match_makers [OF res, of "o_id y"] that by (auto simp: count_list_0_iff)
  then show ?case using Oldest(5) unfolding res prod.case by auto
qed auto

end
