(* ===== verification/Mx_Engine_Log.thy ===== *)
theory Mx_Engine_Log
  imports Mx_Engine_Inv
begin

text \<open>
  Facts of every command that do not depend on the book: a relation between engines that the
  elementary steps respect (an event, a change of the book and the arena, of the last price, of the
  stop queues) is respected by every command, drained stops included. The numbering of the events
  is such a relation, and so is the configuration.
\<close>

subsection \<open>Elementary steps\<close>

fun meta_of :: "match_event \<Rightarrow> event_meta" where
  "meta_of (OrderAccepted m a b c d f) = m"
| "meta_of (OrderRejected m a b) = m"
| "meta_of (FillEvent m a b c d f g) = m"
| "meta_of (OrderCancelled m a b) = m"
| "meta_of (OrderModified m a b c) = m"
| "meta_of (BookUpdate m a b c) = m"
| "meta_of (StopTriggered m a b) = m"

locale engine_relation =
  fixes R :: "engine \<Rightarrow> engine \<Rightarrow> bool"
  assumes refl: "R e e"
    and trans: "R e e1 \<Longrightarrow> R e1 e2 \<Longrightarrow> R e e2"
    and event: "emit f e = Inr e' \<Longrightarrow> (\<And>m. meta_of (f m) = m) \<Longrightarrow> (\<And>m. fill_of (f m) = []) \<Longrightarrow> R e e'"
    and fill_event: "emit (\<lambda>meta. FillEvent meta maker taker p d mr tr) e = Inr e' \<Longrightarrow> R e (e'\<lparr>last_trade_price := Some p\<rparr>)"
    and book_step: "R e (e\<lparr>book := b, eng_arena := ar\<rparr>)"
    and bid_stops: "R e (e\<lparr>stop_bids := q\<rparr>)"
    and ask_stops: "R e (e\<lparr>stop_asks := q\<rparr>)"
begin

lemma rejected: "emit_rejected i r e = Inr e' \<Longrightarrow> R e e'"
  using event [of "\<lambda>m. OrderRejected m i r" e e'] by (simp add: emit_rejected_def)

lemma remove: "eng_remove i e = Inr e' \<Longrightarrow> R e e'"
  by (auto simp: eng_remove_def rbind_eq_Inr intro: book_step)

lemma reduce: "eng_reduce i d e = Inr e' \<Longrightarrow> R e e'"
  by (auto simp: eng_reduce_def rbind_eq_Inr intro: book_step)

lemma insert: "eng_insert i s p q ot vis stp e = Inr e' \<Longrightarrow> R e e'"
  by (auto simp: eng_insert_def rbind_eq_Inr intro: book_step)

lemma cancel_maker: "cancel_maker i oid s r p e = Inr e' \<Longrightarrow> R e e'"
  unfolding cancel_maker_def
  by (elim rbind_InrE) (meson event meta_of.simps fill_of.simps remove trans)

lemma stp: "stp_step mode i x p rem e = Inr out \<Longrightarrow> R e (outcome_engine out)"
  by (cases mode) (auto simp: stp_step_def Let_def rbind_eq_Inr refl split: if_splits
      dest!: cancel_maker remove reduce event intro: trans)

lemma fill:
  assumes "fill_step tid s i x p rem e = Inr out"
  shows "R e (outcome_engine out)"
  using assms
proof (rule fill_step_run)
  fix f ar1 level b1 b2 x' e2 q e4 e5 d
  assume e2: "emit (\<lambda>meta. FillEvent meta (o_id x) tid p d (remaining x') (rem - d))
       (e\<lparr>book := b2, eng_arena := ar1\<rparr>) = Inr e2"
    and e4: "emit (\<lambda>meta. BookUpdate meta (o_side x) p q) (e2\<lparr>last_trade_price := Some p\<rparr>) = Inr e4"
    and e5: "(if remaining x' = 0 then eng_remove i e4 else Inr e4) = Inr e5"
    and out: "out = Continue (rem - d) e5"
  have "R e (e2\<lparr>last_trade_price := Some p\<rparr>)" by (rule trans [OF book_step fill_event [OF e2]])
  moreover have "R (e2\<lparr>last_trade_price := Some p\<rparr>) e4" by (rule event [OF e4]) simp_all
  moreover have "R e4 e5" using e5 by (auto simp: refl split: if_splits dest: remove)
  ultimately show ?thesis using out by (auto intro: trans)
qed

lemma turn: "match_step tid s px stp rem e = Inr out \<Longrightarrow> R e (outcome_engine out)"
  by (cases rule: match_step_cases) (auto simp: refl dest: fill stp remove)

lemma match: "match_against_book tid s px stp rem e = Inr (c, r, e') \<Longrightarrow> R e e'"
proof (induction tid s px stp rem e rule: match_against_book.induct)
  case (1 tid s px stp rem e)
  show ?case
  proof (cases "0 < rem")
    case False
    then show ?thesis using "1.prems" by (simp add: match_against_book.simps refl)
  next
    case True
    then obtain out where out: "match_step tid s px stp rem e = Inr out"
      and rest: "(case out of Finish cancel rem' e' \<Rightarrow> Inr (cancel, rem', e')
          | Continue rem' e' \<Rightarrow> match_against_book tid s px stp rem' e') = Inr (c, r, e')"
      using "1.prems" by (subst (asm) match_against_book.simps) (auto elim: rbind_InrE)
    show ?thesis
      using turn [OF out] rest "1.IH" [OF True out] by (cases out) (auto intro: trans)
  qed
qed

lemma queue: "queue_stop px entry e = Inr e' \<Longrightarrow> R e e'"
  by (cases "s_side entry") (auto simp: queue_stop_def Let_def bid_stops ask_stops)

lemma post_only: "process_post_only i s p q vis stp e = Inr e' \<Longrightarrow> R e e'"
  unfolding process_post_only_def
  by (auto simp: rbind_eq_Inr split: if_splits dest!: rejected insert event intro: trans)

lemma stop_limit: "process_stop_limit i s p q tif vis stop stp e = Inr e' \<Longrightarrow> R e e'"
  unfolding process_stop_limit_def
  by (auto simp: rbind_eq_Inr split: if_splits option.splits dest!: queue event intro: trans)

lemma remainder: "handle_remainder i s p q ot tif vis stp e = Inr e' \<Longrightarrow> R e e'"
  unfolding handle_remainder_def
  by (auto simp: rbind_eq_Inr refl split: if_splits dest!: insert event intro: trans)

lemma new_order: "process_new_order i s p q ot tif vis stop stp e = Inr e' \<Longrightarrow> R e e'"
  unfolding process_new_order_def Let_def
  by (auto simp: rbind_eq_Inr split: if_splits
      dest!: post_only stop_limit rejected remainder match event intro: trans)

lemma trigger: "trigger_stop entry e = Inr e' \<Longrightarrow> R e e'"
  unfolding trigger_stop_def by (auto simp: rbind_eq_Inr dest!: new_order event intro: trans)

lemma drain_buy: "drain_buy_stops p e = Inr e' \<Longrightarrow> R e e'"
proof (induction p e rule: drain_buy_stops.induct)
  case (1 p e)
  show ?case
  proof (cases "stop_bids e")
    case Nil
    then show ?thesis using "1.prems" by (simp add: drain_buy_stops.simps refl)
  next
    case (Cons a rest)
    obtain px entry where a: "a = (px, entry)" by (cases a)
    show ?thesis
    proof (cases "p < px")
      case True
      then show ?thesis using "1.prems" Cons a by (simp add: drain_buy_stops.simps refl)
    next
      case False
      then obtain e1 where e1: "trigger_stop entry (e\<lparr>stop_bids := rest\<rparr>) = Inr e1" "drain_buy_stops p e1 = Inr e'"
        using "1.prems" Cons a by (subst (asm) drain_buy_stops.simps) (auto elim: rbind_InrE)
      have "R e1 e'" by (rule "1.IH" [OF Cons a [symmetric] False e1])
      then show ?thesis using trans [OF bid_stops trans [OF trigger [OF e1(1)]]] by blast
    qed
  qed
qed

lemma drain_sell: "drain_sell_stops p e = Inr e' \<Longrightarrow> R e e'"
proof (induction p e rule: drain_sell_stops.induct)
  case (1 p e)
  show ?case
  proof (cases "stop_asks e")
    case Nil
    then show ?thesis using "1.prems" by (simp add: drain_sell_stops.simps refl)
  next
    case (Cons a rest)
    obtain px entry where a: "a = (px, entry)" by (cases a)
    show ?thesis
    proof (cases "px < p")
      case True
      then show ?thesis using "1.prems" Cons a by (simp add: drain_sell_stops.simps refl)
    next
      case False
      then obtain e1 where e1: "trigger_stop entry (e\<lparr>stop_asks := rest\<rparr>) = Inr e1" "drain_sell_stops p e1 = Inr e'"
        using "1.prems" Cons a by (subst (asm) drain_sell_stops.simps) (auto elim: rbind_InrE)
      have "R e1 e'" by (rule "1.IH" [OF Cons a [symmetric] False e1])
      then show ?thesis using trans [OF ask_stops trans [OF trigger [OF e1(1)]]] by blast
    qed
  qed
qed

lemma drain: "drain_stop_triggers e = Inr e' \<Longrightarrow> R e e'"
proof (induction e rule: drain_stop_triggers.induct)
  case (1 e)
  show ?case
  proof (cases "last_trade_price e")
    case None
    then show ?thesis using "1.prems" by (simp add: drain_stop_triggers.simps refl)
  next
    case (Some p)
    then obtain e1 e2 where e1: "drain_buy_stops p e = Inr e1" and e2: "drain_sell_stops p e1 = Inr e2"
      and rest: "(if last_trade_price e2 = Some p then Inr e2 else drain_stop_triggers e2) = Inr e'"
      using "1.prems" by (subst (asm) drain_stop_triggers.simps) (auto elim!: rbind_InrE)
    have "R e2 e'" using rest "1.IH" [OF Some e1 e2] by (auto simp: refl split: if_splits)
    then show ?thesis using trans [OF drain_buy [OF e1] trans [OF drain_sell [OF e2]]] by blast
  qed
qed

lemma cancel: "process_cancel i e = Inr e' \<Longrightarrow> R e e'"
  unfolding process_cancel_def
  by (auto simp: rbind_eq_Inr split: option.splits dest!: remove event intro: trans)

lemma modify: "process_modify i p q e = Inr e' \<Longrightarrow> R e e'"
  unfolding process_modify_def
  by (auto simp: rbind_eq_Inr split: option.splits dest!: remove new_order event intro: trans)

lemma command: "process_command c e = Inr e' \<Longrightarrow> R e e'"
  by (cases c) (auto dest: new_order cancel modify)

lemma entry_point: "process c e = Inr e' \<Longrightarrow> R (e\<lparr>events := []\<rparr>) e'"
  unfolding process_def by (auto simp: rbind_eq_Inr dest!: command drain intro: trans)

end

subsection \<open>The numbering of the events\<close>

definition logged :: "engine \<Rightarrow> engine \<Rightarrow> bool" where
  "logged e e' \<longleftrightarrow> (\<exists>evs. events e' = events e @ evs \<and>
     sequence e' = sequence e + length evs \<and> timestamp_ns e' = timestamp_ns e + length evs \<and>
     map meta_of evs = map (\<lambda>k. \<lparr>m_sequence = sequence e + k, m_timestamp_ns = timestamp_ns e + k\<rparr>) [1..<length evs + 1] \<and>
     (evs \<noteq> [] \<longrightarrow> length (events e') \<le> MAX_EVENTS_PER_CALL \<and> sequence e' \<le> u64_max \<and> timestamp_ns e' \<le> u64_max))"

lemma logged_trans:
  assumes "logged e e1" "logged e1 e2"
  shows "logged e e2"
proof -
  obtain xs where xs: "events e1 = events e @ xs" "sequence e1 = sequence e + length xs"
    "timestamp_ns e1 = timestamp_ns e + length xs"
    "map meta_of xs = map (\<lambda>k. \<lparr>m_sequence = sequence e + k, m_timestamp_ns = timestamp_ns e + k\<rparr>) [1..<length xs + 1]"
    "xs \<noteq> [] \<longrightarrow> length (events e1) \<le> MAX_EVENTS_PER_CALL \<and> sequence e1 \<le> u64_max \<and> timestamp_ns e1 \<le> u64_max"
    using assms(1) unfolding logged_def by blast
  obtain ys where ys: "events e2 = events e1 @ ys" "sequence e2 = sequence e1 + length ys"
    "timestamp_ns e2 = timestamp_ns e1 + length ys"
    "map meta_of ys = map (\<lambda>k. \<lparr>m_sequence = sequence e1 + k, m_timestamp_ns = timestamp_ns e1 + k\<rparr>) [1..<length ys + 1]"
    "ys \<noteq> [] \<longrightarrow> length (events e2) \<le> MAX_EVENTS_PER_CALL \<and> sequence e2 \<le> u64_max \<and> timestamp_ns e2 \<le> u64_max"
    using assms(2) unfolding logged_def by blast
  let ?f = "\<lambda>k. \<lparr>m_sequence = sequence e + k, m_timestamp_ns = timestamp_ns e + k\<rparr>"
  have "map meta_of ys = map ?f (map (\<lambda>k. k + length xs) [1..<length ys + 1])"
    unfolding ys(4) by (simp add: xs(2,3) add.commute add.left_commute)
  also have "map (\<lambda>k. k + length xs) [1..<length ys + 1] = [length xs + 1..<length xs + length ys + 1]"
    by (rule nth_equalityI) (simp_all del: upt_Suc)
  finally have "map meta_of (xs @ ys) = map ?f ([1..<length xs + 1] @ [length xs + 1..<length xs + length ys + 1])"
    by (simp only: map_append xs(4))
  also have "[1..<length xs + 1] @ [length xs + 1..<length xs + length ys + 1] = [1..<length (xs @ ys) + 1]"
    using upt_add_eq_append [of 1 "length xs + 1" "length ys"] by simp
  finally show ?thesis
    unfolding logged_def using xs ys by (intro exI [of _ "xs @ ys"]) auto
qed

lemma logged_emit:
  assumes "emit f e = Inr e'" "\<And>m. meta_of (f m) = m"
  shows "logged e e'"
  unfolding logged_def
  by (rule exI [of _ "[f \<lparr>m_sequence = sequence e + 1, m_timestamp_ns = timestamp_ns e + 1\<rparr>]"])
    (use assms in \<open>auto simp: emit_Inr\<close>)

interpretation log: engine_relation logged
proof
  show "logged e e" for e by (simp add: logged_def)
  show "logged e e2" if "logged e e1" "logged e1 e2" for e e1 e2 using that by (rule logged_trans)
  show "logged e e'" if ev: "emit f e = Inr e'" and m: "\<And>m. meta_of (f m) = m" for f e e'
    by (rule logged_emit [OF ev m])
  show "logged e (e'\<lparr>last_trade_price := Some p\<rparr>)"
    if ev: "emit (\<lambda>meta. FillEvent meta maker taker p d mr tr) e = Inr e'" for maker taker p d mr tr e e'
    using logged_emit [OF ev] by (simp add: logged_def)
qed (simp_all add: logged_def)

text \<open>The configuration is another.\<close>

interpretation cfg: engine_relation "\<lambda>e e'. config e' = config e"
  by unfold_locales (auto dest: emit_frame)

subsection \<open>The last price\<close>

text \<open>The price of the last of the fills, or the one before if there is none.\<close>

definition last_price :: "(order_id \<times> order_id \<times> nat \<times> nat) list \<Rightarrow> nat option \<Rightarrow> nat option" where
  "last_price fs old = (if fs = [] then old else Some (fst (snd (snd (last fs)))))"

lemma last_price_simps [simp]: "last_price [] old = old" "last_price (fs @ gs) old = last_price gs (last_price fs old)"
  "last_price [(maker, taker, p, d)] old = Some p"
  by (simp_all add: last_price_def)

definition priced :: "engine \<Rightarrow> engine \<Rightarrow> bool" where
  "priced e e' \<longleftrightarrow> (\<exists>fs. fills_in (events e') = fills_in (events e) @ fs \<and>
     last_trade_price e' = last_price fs (last_trade_price e))"

text \<open>What a call leaves as the last price is the price of its last fill.\<close>

interpretation price: engine_relation priced
proof
  show "priced e e" for e by (simp add: priced_def)
  show "priced e e2" if "priced e e1" "priced e1 e2" for e e1 e2
    using that unfolding priced_def by (elim exE conjE) (metis append.assoc last_price_simps(2))
  show "priced e e'" if "emit f e = Inr e'" "\<And>m. fill_of (f m) = []" for f e e'
    using that emit_frame(6) [OF that(1)] by (auto simp: priced_def emit_Inr)
  show "priced e (e'\<lparr>last_trade_price := Some p\<rparr>)"
    if "emit (\<lambda>meta. FillEvent meta maker taker p d mr tr) e = Inr e'" for maker taker p d mr tr e e'
    unfolding priced_def by (rule exI [of _ "[(maker, taker, p, d)]"]) (use that in \<open>auto simp: emit_Inr\<close>)
qed (simp_all add: priced_def)

end
