(* ===== verification/Mx_Stops.thy ===== *)
theory Mx_Stops
  imports Mx_Engine_Inv
begin

text \<open>
  The stop queues: they stay sorted by trigger price (a new stop goes in front of those at its own
  price, so at one price the last to come is the first to trigger), and a call returns only when no queued stop is triggered by the last trade.
\<close>

definition bids_sorted :: "(nat \<times> stop_entry) list \<Rightarrow> bool" where
  "bids_sorted q \<longleftrightarrow> sorted_wrt (\<le>) (map fst q)"

definition asks_sorted :: "(nat \<times> stop_entry) list \<Rightarrow> bool" where
  "asks_sorted q \<longleftrightarrow> sorted_wrt (\<ge>) (map fst q)"

definition stops_sorted :: "engine \<Rightarrow> bool" where
  "stops_sorted e \<longleftrightarrow> bids_sorted (stop_bids e) \<and> asks_sorted (stop_asks e)"

lemma stops_sorted_same: "same_stops e e' \<Longrightarrow> stops_sorted e' = stops_sorted e"
  by (simp add: stops_sorted_def same_stops_def)

text \<open>Where a new entry goes: behind the entries that trigger earlier, before those at its own price.\<close>

lemma queue_position:
  fixes before :: "nat \<Rightarrow> nat \<Rightarrow> bool"
  assumes "sorted_wrt before (map fst q)" "\<And>x. before x x" "\<And>x y. before x y \<or> before y x"
    "\<And>x y z. before x y \<Longrightarrow> before y z \<Longrightarrow> before x z"
    and earlier: "\<And>x. earlier x \<longleftrightarrow> \<not> before px x"
  shows "sorted_wrt before (map fst (takeWhile (\<lambda>(p, _). earlier p) q @ (px, entry) # dropWhile (\<lambda>(p, _). earlier p) q))"
proof -
  define A D where "A = takeWhile (\<lambda>(p, _). earlier p) q" and "D = dropWhile (\<lambda>(p, _). earlier p) q"
  have q: "q = A @ D" by (simp add: A_def D_def)
  have parts: "sorted_wrt before (map fst A)" "sorted_wrt before (map fst D)"
    "\<forall>x \<in> set A. \<forall>y \<in> set D. before (fst x) (fst y)"
    using assms(1) unfolding q by (simp_all add: sorted_wrt_append)
  have "before (fst x) px" if "x \<in> set A" for x
  proof -
    have "earlier (fst x)" using that by (auto simp: A_def dest!: set_takeWhileD)
    then show ?thesis using earlier assms(3) by blast
  qed
  moreover have "before px (fst x)" if "x \<in> set D" for x
  proof (cases D)
    case (Cons y ys)
    have "\<not> earlier (fst y)" using Cons by (cases y) (auto simp: D_def dropWhile_eq_Cons_conv)
    then have "before px (fst y)" using earlier by simp
    then show ?thesis using parts(2) that assms(4) by (auto simp: Cons)
  qed (use that in simp)
  ultimately show ?thesis using parts unfolding A_def [symmetric] D_def [symmetric] by (auto simp: sorted_wrt_append)
qed

lemma queue_stop_eq:
  assumes "queue_stop px entry e = Inr e'"
  shows "e' = (case s_side entry of
      Bid \<Rightarrow> e\<lparr>stop_bids := takeWhile (\<lambda>(p, _). p < px) (stop_bids e) @ (px, entry) # dropWhile (\<lambda>(p, _). p < px) (stop_bids e)\<rparr>
    | Ask \<Rightarrow> e\<lparr>stop_asks := takeWhile (\<lambda>(p, _). px < p) (stop_asks e) @ (px, entry) # dropWhile (\<lambda>(p, _). px < p) (stop_asks e)\<rparr>)"
  using assms by (cases "s_side entry") (auto simp: queue_stop_def Let_def partition_point_take partition_point_drop)

lemma queue_stop_sorted:
  assumes "queue_stop px entry e = Inr e'" "stops_sorted e"
  shows "stops_sorted e'"
proof -
  have bids: "bids_sorted (takeWhile (\<lambda>(p, _). p < px) (stop_bids e) @ (px, entry) # dropWhile (\<lambda>(p, _). p < px) (stop_bids e))"
    unfolding bids_sorted_def by (rule queue_position) (use assms(2) in \<open>auto simp: stops_sorted_def bids_sorted_def\<close>)
  have asks: "asks_sorted (takeWhile (\<lambda>(p, _). px < p) (stop_asks e) @ (px, entry) # dropWhile (\<lambda>(p, _). px < p) (stop_asks e))"
    unfolding asks_sorted_def by (rule queue_position) (use assms(2) in \<open>auto simp: stops_sorted_def asks_sorted_def\<close>)
  show ?thesis
    using queue_stop_eq [OF assms(1)] assms(2) bids asks by (cases "s_side entry") (simp_all add: stops_sorted_def)
qed

subsection \<open>Commands\<close>

lemma post_only_stops: "process_post_only i s p q vis stp e = Inr e' \<Longrightarrow> same_stops e e'"
  unfolding process_post_only_def
  by (auto simp: rbind_eq_Inr split: if_splits dest!: stops_rules intro: same_stops_trans)

lemma new_order_stops:
  assumes "process_new_order i s p q ot tif vis stop stp e = Inr e'" "ot \<noteq> StopLimit"
  shows "same_stops e e'"
  using assms
  by (auto simp: process_new_order_def rbind_eq_Inr Let_def split: if_splits
      dest!: emit_stops emit_rejected_stops match_against_book_stops handle_remainder_stops post_only_stops
      intro: same_stops_trans)

lemma new_order_sorted:
  assumes "process_new_order i s p q ot tif vis stop stp e = Inr e'" "stops_sorted e"
  shows "stops_sorted e'"
proof (cases "ot = StopLimit")
  case True
  then have "process_stop_limit i s p q tif vis stop stp e = Inr e'" using assms(1) by (simp add: process_new_order_def)
  then show ?thesis
    using assms(2) unfolding process_stop_limit_def
    by (auto simp: rbind_eq_Inr split: if_splits option.splits dest!: emit_stops queue_stop_sorted
        dest: stops_sorted_same)
next
  case False
  then show ?thesis using new_order_stops [OF assms(1)] assms(2) stops_sorted_same by blast
qed

lemma command_sorted:
  assumes "process_command c e = Inr e'" "stops_sorted e"
  shows "stops_sorted e'"
proof (cases c)
  case (NewOrder i instr s p q ot tif vis stop stp)
  then show ?thesis using assms new_order_sorted by simp
next
  case (CancelOrder i)
  then have "same_stops e e'"
    using assms(1) by (auto simp: process_cancel_def rbind_eq_Inr split: option.splits
        dest!: stops_rules intro: same_stops_trans)
  then show ?thesis using assms(2) stops_sorted_same by blast
next
  case (ModifyOrder i p q)
  then have "same_stops e e'"
    using assms(1) by (auto simp: process_modify_def rbind_eq_Inr split: option.splits
        dest!: stops_rules process_new_order_stops intro: same_stops_trans)
  then show ?thesis using assms(2) stops_sorted_same by blast
qed

subsection \<open>Draining\<close>

lemma drain_buy_done:
  "drain_buy_stops p e = Inr e' \<Longrightarrow> stops_sorted e \<Longrightarrow>
   stops_sorted e' \<and> stop_asks e' = stop_asks e \<and> (\<forall>(px, entry) \<in> set (stop_bids e'). p < px)"
proof (induction p e rule: drain_buy_stops.induct)
  case (1 p e)
  show ?case
  proof (cases "stop_bids e")
    case Nil
    then show ?thesis using "1.prems" by (simp add: drain_buy_stops.simps)
  next
    case (Cons a rest)
    obtain px entry where a: "a = (px, entry)" by (cases a)
    show ?thesis
    proof (cases "p < px")
      case True
      then show ?thesis using "1.prems" Cons a
        by (auto simp: drain_buy_stops.simps stops_sorted_def bids_sorted_def)
    next
      case False
      then obtain e1 where e1: "trigger_stop entry (e\<lparr>stop_bids := rest\<rparr>) = Inr e1" "drain_buy_stops p e1 = Inr e'"
        using "1.prems" Cons a by (subst (asm) drain_buy_stops.simps) (auto elim: rbind_InrE)
      have "stops_sorted (e\<lparr>stop_bids := rest\<rparr>)"
        using "1.prems"(2) Cons by (simp add: stops_sorted_def bids_sorted_def)
      then have "stops_sorted e1" "stop_asks e1 = stop_asks e"
        using trigger_stop_stops [OF e1(1)] stops_sorted_same [OF trigger_stop_stops [OF e1(1)]]
        by (simp_all add: same_stops_def)
      then show ?thesis using "1.IH" [OF Cons a [symmetric] False e1] by simp
    qed
  qed
qed

lemma drain_sell_done:
  "drain_sell_stops p e = Inr e' \<Longrightarrow> stops_sorted e \<Longrightarrow>
   stops_sorted e' \<and> stop_bids e' = stop_bids e \<and> (\<forall>(px, entry) \<in> set (stop_asks e'). px < p)"
proof (induction p e rule: drain_sell_stops.induct)
  case (1 p e)
  show ?case
  proof (cases "stop_asks e")
    case Nil
    then show ?thesis using "1.prems" by (simp add: drain_sell_stops.simps)
  next
    case (Cons a rest)
    obtain px entry where a: "a = (px, entry)" by (cases a)
    show ?thesis
    proof (cases "px < p")
      case True
      then show ?thesis using "1.prems" Cons a
        by (auto simp: drain_sell_stops.simps stops_sorted_def asks_sorted_def)
    next
      case False
      then obtain e1 where e1: "trigger_stop entry (e\<lparr>stop_asks := rest\<rparr>) = Inr e1" "drain_sell_stops p e1 = Inr e'"
        using "1.prems" Cons a by (subst (asm) drain_sell_stops.simps) (auto elim: rbind_InrE)
      have "stops_sorted (e\<lparr>stop_asks := rest\<rparr>)"
        using "1.prems"(2) Cons by (simp add: stops_sorted_def asks_sorted_def)
      then have "stops_sorted e1" "stop_bids e1 = stop_bids e"
        using trigger_stop_stops [OF e1(1)] stops_sorted_same [OF trigger_stop_stops [OF e1(1)]]
        by (simp_all add: same_stops_def)
      then show ?thesis using "1.IH" [OF Cons a [symmetric] False e1] by simp
    qed
  qed
qed

definition stops_idle :: "engine \<Rightarrow> bool" where
  "stops_idle e \<longleftrightarrow> (case last_trade_price e of None \<Rightarrow> True
     | Some p \<Rightarrow> (\<forall>(px, entry) \<in> set (stop_bids e). p < px) \<and> (\<forall>(px, entry) \<in> set (stop_asks e). px < p))"

lemma drain_done: "drain_stop_triggers e = Inr e' \<Longrightarrow> stops_sorted e \<Longrightarrow> stops_sorted e' \<and> stops_idle e'"
proof (induction e rule: drain_stop_triggers.induct)
  case (1 e)
  show ?case
  proof (cases "last_trade_price e")
    case None
    then show ?thesis using "1.prems" by (simp add: drain_stop_triggers.simps stops_idle_def)
  next
    case (Some p)
    then obtain e1 e2 where e1: "drain_buy_stops p e = Inr e1" and e2: "drain_sell_stops p e1 = Inr e2"
      and rest: "(if last_trade_price e2 = Some p then Inr e2 else drain_stop_triggers e2) = Inr e'"
      using "1.prems" by (subst (asm) drain_stop_triggers.simps) (auto elim!: rbind_InrE)
    note d1 = drain_buy_done [OF e1 "1.prems"(2)]
    note d2 = drain_sell_done [OF e2 conjunct1 [OF d1]]
    show ?thesis
    proof (cases "last_trade_price e2 = Some p")
      case True
      then show ?thesis using rest d1 d2 by (auto simp: stops_idle_def)
    next
      case False
      then show ?thesis using rest d2 "1.IH" [OF Some e1 e2] by simp
    qed
  qed
qed

lemma process_stops:
  assumes "process c e = Inr e'" "stops_sorted e"
  shows "stops_sorted e' \<and> stops_idle e'"
proof -
  obtain e1 where e1: "process_command c (e\<lparr>events := []\<rparr>) = Inr e1" "drain_stop_triggers e1 = Inr e'"
    using assms(1) by (auto simp: process_def elim: rbind_InrE)
  have "stops_sorted (e\<lparr>events := []\<rparr>)" using assms(2) by (simp add: stops_sorted_def)
  from command_sorted [OF e1(1) this] show ?thesis by (rule drain_done [OF e1(2)])
qed

end
