(* ===== verification/Mx_Ref_Exchange.thy ===== *)
theory Mx_Ref_Exchange
  imports Mx_Ref_Engine Mx_Engine_Log Mx_Stops
begin

text \<open>
  The reference exchange: the abstract book with its waiting stops, the price of the last trade, and what
  has traded so far (which fill-or-kill orders are checked against).
  A stop order waits in the queue of its side; after each command the stops that the reference price
  triggers become limit orders, one after the other, until none is triggered by the last trade. The
  engine, with its two nested loops over the queues, refines it command by command and over whole runs.
\<close>

subsection \<open>The reference\<close>

type_synonym stop_queue = "(nat \<times> stop_entry) list"

record exchange =
  ex_book :: lob
  ex_buys :: stop_queue
  ex_sells :: stop_queue
  ex_last :: "nat option"
  ex_past :: past

text \<open>An operation of the book by an order of a side, which also records the trades.\<close>

definition on_book :: "side \<Rightarrow> (past \<Rightarrow> lob \<Rightarrow> trade list \<times> lob) \<Rightarrow> exchange \<Rightarrow> trade list \<times> exchange" where
  "on_book s f X = (case f (ex_past X) (ex_book X) of (fs, L) \<Rightarrow>
     (fs, X\<lparr>ex_book := L, ex_last := last_price fs (ex_last X), ex_past := add_past (opposite s) fs (ex_past X)\<rparr>))"

text \<open>A new stop goes in front of the first that triggers no earlier.\<close>

definition ref_wait :: "nat \<Rightarrow> stop_entry \<Rightarrow> exchange \<Rightarrow> exchange" where
  "ref_wait px entry X = (case s_side entry of
      Bid \<Rightarrow> X\<lparr>ex_buys := takeWhile (\<lambda>(p, _). p < px) (ex_buys X) @ (px, entry) # dropWhile (\<lambda>(p, _). p < px) (ex_buys X)\<rparr>
    | Ask \<Rightarrow> X\<lparr>ex_sells := takeWhile (\<lambda>(p, _). px < p) (ex_sells X) @ (px, entry) # dropWhile (\<lambda>(p, _). px < p) (ex_sells X)\<rparr>)"

fun ref_handle :: "stp_mode \<Rightarrow> nat \<Rightarrow> command \<Rightarrow> exchange \<Rightarrow> trade list \<times> exchange" where
  "ref_handle mode capacity (NewOrder oid instr s p q StopLimit tif vis stop stp) X =
     ([], case stop of
        Some px \<Rightarrow> if q = 0 then X else ref_wait px \<lparr>s_id = oid, s_side = s, s_limit_price = p, s_qty = q,
          s_time_in_force = tif, s_visible_qty = vis, s_stp_group = stp\<rparr> X
      | None \<Rightarrow> X)"
| "ref_handle mode capacity c X = on_book (taker_side c (ex_book X)) (ref_command mode capacity c) X"

text \<open>The stop that a price triggers next, buy stops first, and the exchange without it.\<close>

definition next_stop :: "nat \<Rightarrow> exchange \<Rightarrow> (stop_entry \<times> exchange) option" where
  "next_stop p X =
     (if ex_buys X \<noteq> [] \<and> fst (hd (ex_buys X)) \<le> p
      then Some (snd (hd (ex_buys X)), X\<lparr>ex_buys := tl (ex_buys X)\<rparr>)
      else if ex_sells X \<noteq> [] \<and> p \<le> fst (hd (ex_sells X))
      then Some (snd (hd (ex_sells X)), X\<lparr>ex_sells := tl (ex_sells X)\<rparr>)
      else None)"

definition ref_trigger :: "stp_mode \<Rightarrow> nat \<Rightarrow> stop_entry \<Rightarrow> exchange \<Rightarrow> trade list \<times> exchange" where
  "ref_trigger mode capacity st =
     on_book (s_side st) (ref_order mode capacity (s_id st) (s_side st) (s_limit_price st) (s_qty st) Limit
       (s_time_in_force st) (s_visible_qty st) (s_stp_group st))"

lemma on_book_waiting [simp]:
  "ex_buys (snd (on_book s f X)) = ex_buys X" "ex_sells (snd (on_book s f X)) = ex_sells X"
  by (simp_all add: on_book_def split_beta)

lemma on_book_eq: "on_book s f X = (fs, Y) \<Longrightarrow> ex_buys Y = ex_buys X \<and> ex_sells Y = ex_sells X"
  by (metis on_book_waiting snd_conv)

lemma next_stop_fewer:
  assumes "next_stop p X = Some (st, Y)"
  shows "length (ex_buys Y) + length (ex_sells Y) < length (ex_buys X) + length (ex_sells X)"
  using assms by (auto simp: next_stop_def split: if_splits)

text \<open>Triggering at a price until no stop is left that it triggers, then at the price of the last trade.\<close>

function ref_settle :: "stp_mode \<Rightarrow> nat \<Rightarrow> nat \<Rightarrow> exchange \<Rightarrow> trade list \<times> exchange" where
  "ref_settle mode capacity p X =
     (case next_stop p X of
        Some (st, Y) \<Rightarrow>
          (case ref_trigger mode capacity st Y of (fs, Z) \<Rightarrow> prepend fs (ref_settle mode capacity p Z))
      | None \<Rightarrow>
          (case ex_last X of
             None \<Rightarrow> ([], X)
           | Some p' \<Rightarrow> if p' = p then ([], X) else ref_settle mode capacity p' X))"
  by pat_completeness auto
termination
  by (relation "measures [\<lambda>(mode, capacity, p, X). length (ex_buys X) + length (ex_sells X),
      \<lambda>(mode, capacity, p, X). if ex_last X = Some p then 0 else 1]")
    (auto simp: ref_trigger_def dest!: next_stop_fewer on_book_eq [OF sym])

declare ref_settle.simps [simp del]

definition ref_drain :: "stp_mode \<Rightarrow> nat \<Rightarrow> exchange \<Rightarrow> trade list \<times> exchange" where
  "ref_drain mode capacity X = (case ex_last X of None \<Rightarrow> ([], X) | Some p \<Rightarrow> ref_settle mode capacity p X)"

definition ref_process :: "stp_mode \<Rightarrow> nat \<Rightarrow> command \<Rightarrow> exchange \<Rightarrow> trade list \<times> exchange" where
  "ref_process mode capacity c X =
     (case ref_handle mode capacity c X of (fs, Y) \<Rightarrow>
      prepend fs (ref_drain mode capacity Y))"

fun ref_run :: "stp_mode \<Rightarrow> nat \<Rightarrow> command list \<Rightarrow> exchange \<Rightarrow> trade list list \<times> exchange" where
  "ref_run mode capacity [] X = ([], X)"
| "ref_run mode capacity (c # cs) X =
     (case ref_process mode capacity c X of (fs, Y) \<Rightarrow>
      case ref_run mode capacity cs Y of (fss, Z) \<Rightarrow> (fs # fss, Z))"

definition empty_exchange :: exchange where
  "empty_exchange = \<lparr>ex_book = \<lparr>lob_bids = [], lob_asks = []\<rparr>, ex_buys = [], ex_sells = [], ex_last = None,
     ex_past = (\<lambda>s. [])\<rparr>"

subsection \<open>What the engine's state stands for\<close>

definition exchange_of :: "past \<Rightarrow> engine \<Rightarrow> exchange" where
  "exchange_of past e = \<lparr>ex_book = lob_of e, ex_buys = stop_bids e, ex_sells = stop_asks e,
     ex_last = last_trade_price e, ex_past = past\<rparr>"

text \<open>The orders that wait are of the kinds covered.\<close>

definition plain_stops :: "engine \<Rightarrow> bool" where
  "plain_stops e \<longleftrightarrow> (\<forall>(px, st) \<in> set (stop_bids e) \<union> set (stop_asks e).
     in_window (book e) (s_limit_price st) \<and> s_limit_price st \<le> u64_max)"

definition tracked :: "past \<Rightarrow> engine \<Rightarrow> bool" where
  "tracked past e \<longleftrightarrow> (\<exists>Q. sim e Q) \<and> plain_stops e \<and> counted e past"

definition tracks :: "engine \<Rightarrow> trade list \<times> exchange \<Rightarrow> engine \<Rightarrow> bool" where
  "tracks e r e' \<longleftrightarrow> tracked (ex_past (snd r)) e' \<and> exchange_of (ex_past (snd r)) e' = snd r \<and> fills_in (events e') = fills_in (events e) @ fst r \<and>
     config e' = config e \<and> same_setting e e'"

lemma exchange_of_past [simp]: "ex_past (exchange_of past e) = past" "ex_book (exchange_of past e) = lob_of e"
  by (simp_all add: exchange_of_def)

lemma tracks_refl: "tracked past e \<Longrightarrow> tracks e ([], exchange_of past e) e"
  by (simp add: tracks_def)

lemma tracks_step: "tracks e (fs, X) e1 \<Longrightarrow> tracks e1 r e2 \<Longrightarrow> tracks e (prepend fs r) e2"
  by (auto simp: tracks_def prepend_def intro: same_setting_trans)

text \<open>An operation of the book.\<close>

lemma simulates_tracks:
  assumes s: "simulates e (f past (lob_of e)) e'" and p: "priced e e'" and stops: "plain_stops e"
    and cnt: "\<And>fs. fills_in (events e') = fills_in (events e) @ fs \<Longrightarrow> counted e' (add_past (opposite sd) fs past)"
  shows "tracks e (on_book sd f (exchange_of past e)) e'"
proof -
  have fills: "fills_in (events e') = fills_in (events e) @ fst (f past (lob_of e))" using s by (simp add: simulates_def)
  then have "last_trade_price e' = last_price (fst (f past (lob_of e))) (last_trade_price e)" using p by (auto simp: priced_def)
  moreover have "plain_stops e'" using stops s in_window_same [of "book e" "book e'"]
    by (simp add: plain_stops_def simulates_def same_stops_def same_setting_def)
  ultimately show ?thesis using s fills cnt [OF fills]
    by (auto simp: tracks_def tracked_def simulates_def same_stops_def exchange_of_def on_book_def split_beta)
qed

subsection \<open>Triggered stops\<close>

lemma trigger_tracks:
  assumes run: "trigger_stop st e = Inr e'" and tr: "tracked past e"
    and st: "in_window (book e) (s_limit_price st)" "s_limit_price st \<le> u64_max"
  shows "tracks e (ref_trigger (cfg_stp_mode (config e)) (a_capacity (eng_arena e)) st (exchange_of past e)) e'"
proof -
  have cnt: "counted e past" using tr by (simp add: tracked_def)
  obtain Q where sim: "sim e Q" using tr by (auto simp: tracked_def)
  let ?f = "\<lambda>meta. StopTriggered meta (s_id st) (s_id st)"
  have new: "process_new_order (s_id st) (s_side st) (s_limit_price st) (s_qty st) Limit (s_time_in_force st)
      (s_visible_qty st) None (s_stp_group st) (after_emit ?f e) = Inr e'"
    using run by (auto simp: trigger_stop_def rbind_eq_Inr emit_Inr)
  have "simulates e (ref_order (cfg_stp_mode (config e)) (a_capacity (eng_arena e)) (s_id st) (s_side st)
      (s_limit_price st) (s_qty st) Limit (s_time_in_force st) (s_visible_qty st) (s_stp_group st) past (lob_of e)) e'"
    using new_order_simulates [of "after_emit ?f e" Q "s_time_in_force st" past Limit "s_qty st" "s_limit_price st"
      "s_id st" "s_side st" "s_visible_qty st" None "s_stp_group st"] sim st new cnt by simp
  moreover have "counted e' (add_past (opposite (s_side st)) fs past)" if "fills_in (events e') = fills_in (events e) @ fs" for fs
    using new_order_counted [OF _ new, of Q past fs] sim st cnt that by simp
  ultimately show ?thesis
    unfolding ref_trigger_def using simulates_tracks price.trigger [OF run] tr by (simp add: tracked_def)
qed

text \<open>Part of the settling: the exchange after some of the triggered stops, with the rest left to settle.\<close>

definition settling :: "nat \<Rightarrow> past \<Rightarrow> engine \<Rightarrow> past \<Rightarrow> engine \<Rightarrow> bool" where
  "settling p past e past' e' \<longleftrightarrow> (\<exists>fs. tracks e (fs, exchange_of past' e') e' \<and>
     ref_settle (cfg_stp_mode (config e)) (a_capacity (eng_arena e)) p (exchange_of past e) =
       prepend fs (ref_settle (cfg_stp_mode (config e')) (a_capacity (eng_arena e')) p (exchange_of past' e')))"

lemma settling_tracked: "settling p past e past' e' \<Longrightarrow> tracked past' e'"
  by (auto simp: settling_def tracks_def)

lemma settling_refl: "tracked past e \<Longrightarrow> settling p past e past e"
  unfolding settling_def using tracks_refl by (intro exI [of _ "[]"]) simp

lemma settling_trans:
  assumes "settling p past e past1 e1" "settling p past1 e1 past2 e2"
  shows "settling p past e past2 e2"
proof -
  obtain fs gs where fs: "tracks e (fs, exchange_of past1 e1) e1" "tracks e1 (gs, exchange_of past2 e2) e2"
    "ref_settle (cfg_stp_mode (config e)) (a_capacity (eng_arena e)) p (exchange_of past e) =
       prepend fs (ref_settle (cfg_stp_mode (config e1)) (a_capacity (eng_arena e1)) p (exchange_of past1 e1))"
    "ref_settle (cfg_stp_mode (config e1)) (a_capacity (eng_arena e1)) p (exchange_of past1 e1) =
       prepend gs (ref_settle (cfg_stp_mode (config e2)) (a_capacity (eng_arena e2)) p (exchange_of past2 e2))"
    using assms unfolding settling_def by blast
  show ?thesis unfolding settling_def
    using tracks_step [OF fs(1,2)] fs(3,4) by (intro exI [of _ "fs @ gs"]) simp
qed

text \<open>One triggered stop.\<close>

lemma settle_stop:
  assumes run: "trigger_stop st e1 = Inr e2" and tr: "tracked past e1" and same: "config e1 = config e" "book e1 = book e"
      "eng_arena e1 = eng_arena e" "events e1 = events e"
    and st: "in_window (book e) (s_limit_price st)" "s_limit_price st \<le> u64_max"
    and next_one: "next_stop p (exchange_of past e) = Some (st, exchange_of past e1)"
  shows "\<exists>past'. settling p past e past' e2"
proof -
  obtain fs X where r: "ref_trigger (cfg_stp_mode (config e)) (a_capacity (eng_arena e)) st (exchange_of past e1) = (fs, X)"
    by fastforce
  have t: "tracks e1 (fs, X) e2" using trigger_tracks [OF run tr] st r same by simp
  then have eq: "X = exchange_of (ex_past X) e2" "config e2 = config e" "a_capacity (eng_arena e2) = a_capacity (eng_arena e)"
    using same by (simp_all add: tracks_def same_setting_def)
  have "tracks e (fs, X) e2" using t same by (simp add: tracks_def same_setting_def)
  moreover have "ref_settle (cfg_stp_mode (config e)) (a_capacity (eng_arena e)) p (exchange_of past e) =
      prepend fs (ref_settle (cfg_stp_mode (config e)) (a_capacity (eng_arena e)) p X)"
    using next_one r by (subst ref_settle.simps) simp
  ultimately have "settling p past e (ex_past X) e2"
    unfolding settling_def using eq by (intro exI [of _ fs]) simp
  then show ?thesis by blast
qed

lemma drain_buy_tracks:
  "drain_buy_stops p e = Inr e' \<Longrightarrow> tracked past e \<Longrightarrow>
   \<exists>past'. settling p past e past' e' \<and> (stop_bids e' = [] \<or> p < fst (hd (stop_bids e')))"
proof (induction p e arbitrary: past rule: drain_buy_stops.induct)
  case (1 p e)
  show ?case
  proof (cases "stop_bids e")
    case Nil
    then show ?thesis using "1.prems" settling_refl by (auto simp: drain_buy_stops.simps)
  next
    case (Cons a rest)
    obtain px st where a: "a = (px, st)" by (cases a)
    show ?thesis
    proof (cases "p < px")
      case True
      then show ?thesis using "1.prems" Cons a settling_refl by (auto simp: drain_buy_stops.simps)
    next
      case False
      let ?e1 = "e\<lparr>stop_bids := rest\<rparr>"
      obtain e2 where e2: "trigger_stop st ?e1 = Inr e2" "drain_buy_stops p e2 = Inr e'"
        using "1.prems" Cons a False by (subst (asm) drain_buy_stops.simps) (auto elim: rbind_InrE)
      have tr: "tracked past ?e1" "in_window (book e) (s_limit_price st)" "s_limit_price st \<le> u64_max"
        using "1.prems"(2) Cons a sim_frame [of ?e1 e] counted_frame [of ?e1 e] by (auto simp: tracked_def plain_stops_def)
      have "next_stop p (exchange_of past e) = Some (st, exchange_of past ?e1)"
        using Cons a False lob_of_frame [of ?e1 e] by (simp add: next_stop_def exchange_of_def)
      then obtain past1 where s1: "settling p past e past1 e2" using settle_stop [OF e2(1) tr(1), of e p] tr by auto
      then obtain past2 where "settling p past1 e2 past2 e'" "stop_bids e' = [] \<or> p < fst (hd (stop_bids e'))"
        using "1.IH" [OF Cons a [symmetric] False e2 settling_tracked] by blast
      then show ?thesis using settling_trans [OF s1] by blast
    qed
  qed
qed

lemma drain_sell_tracks:
  "drain_sell_stops p e = Inr e' \<Longrightarrow> tracked past e \<Longrightarrow> stop_bids e = [] \<or> p < fst (hd (stop_bids e)) \<Longrightarrow>
   \<exists>past'. settling p past e past' e' \<and> next_stop p (exchange_of past' e') = None"
proof (induction p e arbitrary: past rule: drain_sell_stops.induct)
  case (1 p e)
  have same: ?case if "e' = e" "stop_asks e = [] \<or> fst (hd (stop_asks e)) < p"
    using that settling_refl [OF "1.prems"(2)] "1.prems"(3)
    by (intro exI [of _ past]) (auto simp: next_stop_def exchange_of_def)
  show ?case
  proof (cases "stop_asks e")
    case Nil
    then show ?thesis using "1.prems"(1) same by (simp add: drain_sell_stops.simps)
  next
    case (Cons a rest)
    obtain px st where a: "a = (px, st)" by (cases a)
    show ?thesis
    proof (cases "px < p")
      case True
      then show ?thesis using "1.prems"(1) Cons a same by (simp add: drain_sell_stops.simps)
    next
      case False
      let ?e1 = "e\<lparr>stop_asks := rest\<rparr>"
      obtain e2 where e2: "trigger_stop st ?e1 = Inr e2" "drain_sell_stops p e2 = Inr e'"
        using "1.prems" Cons a False by (subst (asm) drain_sell_stops.simps) (auto elim: rbind_InrE)
      have tr: "tracked past ?e1" "in_window (book e) (s_limit_price st)" "s_limit_price st \<le> u64_max"
        using "1.prems"(2) Cons a sim_frame [of ?e1 e] counted_frame [of ?e1 e] by (auto simp: tracked_def plain_stops_def)
      have "next_stop p (exchange_of past e) = Some (st, exchange_of past ?e1)"
        using Cons a False lob_of_frame [of ?e1 e] "1.prems"(3) by (auto simp: next_stop_def exchange_of_def)
      then obtain past1 where s1: "settling p past e past1 e2" using settle_stop [OF e2(1) tr(1), of e p] tr by auto
      have "stop_bids e2 = stop_bids e" using trigger_stop_stops [OF e2(1)] by (simp add: same_stops_def)
      then obtain past2 where "settling p past1 e2 past2 e'" "next_stop p (exchange_of past2 e') = None"
        using "1.IH" [OF Cons a [symmetric] False e2 settling_tracked [OF s1]] "1.prems"(3) by auto
      then show ?thesis using settling_trans [OF s1] by blast
    qed
  qed
qed

lemma drain_tracks:
  "drain_stop_triggers e = Inr e' \<Longrightarrow> tracked past e \<Longrightarrow>
   tracks e (ref_drain (cfg_stp_mode (config e)) (a_capacity (eng_arena e)) (exchange_of past e)) e'"
proof (induction e arbitrary: past rule: drain_stop_triggers.induct)
  case (1 e)
  show ?case
  proof (cases "last_trade_price e")
    case None
    then show ?thesis
      using "1.prems" tracks_refl [of past e] by (simp add: drain_stop_triggers.simps ref_drain_def exchange_of_def)
  next
    case (Some p)
    then obtain e1 e2 where e1: "drain_buy_stops p e = Inr e1" and e2: "drain_sell_stops p e1 = Inr e2"
      and rest: "(if last_trade_price e2 = Some p then Inr e2 else drain_stop_triggers e2) = Inr e'"
      using "1.prems" by (subst (asm) drain_stop_triggers.simps) (auto elim!: rbind_InrE)
    obtain past1 where s1: "settling p past e past1 e1" "stop_bids e1 = [] \<or> p < fst (hd (stop_bids e1))"
      using drain_buy_tracks [OF e1 "1.prems"(2)] by blast
    obtain past2 where s2: "settling p past1 e1 past2 e2" and none: "next_stop p (exchange_of past2 e2) = None"
      using drain_sell_tracks [OF e2 settling_tracked [OF s1(1)] s1(2)] by blast
    let ?m = "cfg_stp_mode (config e2)" and ?n = "a_capacity (eng_arena e2)"
    obtain fs where fs: "tracks e (fs, exchange_of past2 e2) e2" and start:
        "ref_drain (cfg_stp_mode (config e)) (a_capacity (eng_arena e)) (exchange_of past e) =
           prepend fs (ref_settle ?m ?n p (exchange_of past2 e2))"
      using settling_trans [OF s1(1) s2] Some by (auto simp: settling_def ref_drain_def exchange_of_def)
    have last: "ex_last (exchange_of past2 e2) = last_trade_price e2" by (simp add: exchange_of_def)
    show ?thesis
    proof (cases "last_trade_price e2 = Some p")
      case True
      then have "ref_settle ?m ?n p (exchange_of past2 e2) = ([], exchange_of past2 e2)"
        using none last by (subst ref_settle.simps) simp
      then show ?thesis using start fs rest True by simp
    next
      case False
      then have "ref_settle ?m ?n p (exchange_of past2 e2) = ref_drain ?m ?n (exchange_of past2 e2)"
        using none last by (subst ref_settle.simps) (auto simp: ref_drain_def split: option.splits)
      moreover have "tracks e2 (ref_drain ?m ?n (exchange_of past2 e2)) e'"
        using rest False "1.IH" [OF Some e1 e2 _ _ settling_tracked [OF s2]] by simp
      ultimately show ?thesis using start tracks_step [OF fs] by simp
    qed
  qed
qed

subsection \<open>Commands and runs\<close>

lemma stop_limit_tracks:
  assumes run: "process_stop_limit oid s p q tif vis stop stp e = Inr e'" and tr: "tracked past e"
    and plain: "in_window (book e) p" "p \<le> u64_max"
  shows "tracks e (ref_handle mode capacity (NewOrder oid instr s p q StopLimit tif vis stop stp) (exchange_of past e)) e'"
proof -
  have out: "tracks e ([], exchange_of past e) e'" if "emit (\<lambda>meta. OrderRejected meta oid r) e = Inr e'" for r
  proof -
    have e': "e' = after_emit (\<lambda>meta. OrderRejected meta oid r) e" using that by (simp add: emit_Inr)
    show ?thesis unfolding e'
      using tr by (simp add: tracks_def tracked_def plain_stops_def exchange_of_def)
  qed
  show ?thesis
  proof (cases "q = 0 \<or> stop = None")
    case True
    then show ?thesis using run out by (auto simp: process_stop_limit_def split: option.splits if_splits)
  next
    case False
    then obtain px where px: "stop = Some px" by blast
    let ?st = "\<lparr>s_id = oid, s_side = s, s_limit_price = p, s_qty = q, s_time_in_force = tif, s_visible_qty = vis, s_stp_group = stp\<rparr>"
    let ?e1 = "after_emit (\<lambda>meta. OrderAccepted meta oid s p q StopLimit) e"
    have "queue_stop px ?st ?e1 = Inr e'"
      using run False px by (auto simp: process_stop_limit_def rbind_eq_Inr emit_Inr)
    note eq = queue_stop_eq [OF this]
    have same: "book e' = book e" "eng_arena e' = eng_arena e" "config e' = config e"
      "fills_in (events e') = fills_in (events e)" "last_trade_price e' = last_trade_price e"
      unfolding eq by (cases s; simp)+
    have ex: "exchange_of past e' = ref_wait px ?st (exchange_of past e)"
      unfolding exchange_of_def lob_of_frame [OF same(1,2)] same(5) unfolding eq ref_wait_def by (cases s) simp_all
    have "set (stop_bids e') \<union> set (stop_asks e') \<subseteq> insert (px, ?st) (set (stop_bids e) \<union> set (stop_asks e))"
      unfolding eq by (cases s) (auto dest: set_takeWhileD set_dropWhileD)
    then have "plain_stops e'" using tr plain unfolding tracked_def plain_stops_def same by fastforce
    then show ?thesis
      using tr same ex [symmetric] sim_frame [OF same(1,2)] counted_frame [OF same(1,2)] False px
      by (simp add: tracks_def tracked_def same_setting_def)
  qed
qed

lemma handle_tracks:
  assumes run: "process_command c e = Inr e'" and tr: "tracked past e" and plain: "plain_command (in_window (book e)) c"
  shows "tracks e (ref_handle (cfg_stp_mode (config e)) (a_capacity (eng_arena e)) c (exchange_of past e)) e'"
proof (cases "is_stop c")
  case True
  then obtain oid instr s p q tif vis stop stp where c: "c = NewOrder oid instr s p q StopLimit tif vis stop stp"
    by (cases c) auto
  have "process_stop_limit oid s p q tif vis stop stp e = Inr e'" using run by (simp add: c process_new_order_def)
  then show ?thesis unfolding c by (rule stop_limit_tracks [OF _ tr]) (use plain c in simp_all)
next
  case False
  have cnt: "counted e past" using tr by (simp add: tracked_def)
  obtain Q where sim: "sim e Q" using tr by (auto simp: tracked_def)
  have "ref_handle m n c X = on_book (taker_side c (ex_book X)) (ref_command m n c) X" for m n X
    using False by (cases "(m, n, c, X)" rule: ref_handle.cases) simp_all
  moreover have "simulates e (ref_command (cfg_stp_mode (config e)) (a_capacity (eng_arena e)) c past (lob_of e)) e'"
    using command_simulates [OF sim plain False cnt] run by simp
  ultimately show ?thesis
    using simulates_tracks price.command [OF run] tr command_counted [OF sim run plain False cnt] by (simp add: tracked_def)
qed

lemma process_tracks:
  assumes run: "process c e = Inr e'" and tr: "tracked past e" and plain: "plain_command (in_window (book e)) c"
  obtains past' where "tracked past' e'" "config e' = config e" "same_setting e e'"
    "ref_process (cfg_stp_mode (config e)) (a_capacity (eng_arena e)) c (exchange_of past e) =
       (fills_in (events e'), exchange_of past' e')"
proof -
  let ?e0 = "e\<lparr>events := []\<rparr>" and ?m = "cfg_stp_mode (config e)" and ?n = "a_capacity (eng_arena e)"
  have tr0: "tracked past ?e0" and x0: "exchange_of past ?e0 = exchange_of past e"
    using tr sim_frame [of ?e0 e] lob_of_frame [of ?e0 e] counted_frame [of ?e0 e]
    by (simp_all add: tracked_def plain_stops_def exchange_of_def)
  obtain e1 where e1: "process_command c ?e0 = Inr e1" "drain_stop_triggers e1 = Inr e'"
    using run by (auto simp: process_def rbind_eq_Inr)
  obtain fs X where r: "ref_handle ?m ?n c (exchange_of past e) = (fs, X)" by fastforce
  have t1: "tracks ?e0 (fs, X) e1" using handle_tracks [OF e1(1) tr0] plain r x0 by simp
  then have e1_eq: "tracked (ex_past X) e1" "exchange_of (ex_past X) e1 = X" "config e1 = config e"
    "a_capacity (eng_arena e1) = a_capacity (eng_arena e)" by (simp_all add: tracks_def same_setting_def)
  have "tracks e1 (ref_drain ?m ?n X) e'" using drain_tracks [OF e1(2) e1_eq(1)] e1_eq(2-4) by simp
  from tracks_step [OF t1 this] have t2: "tracks ?e0 (ref_process ?m ?n c (exchange_of past e)) e'"
    using r by (simp add: ref_process_def)
  obtain gs Y where Y: "ref_process ?m ?n c (exchange_of past e) = (gs, Y)" by fastforce
  show thesis by (rule that [of "ex_past Y"]) (use t2 Y in \<open>simp_all add: tracks_def same_setting_def\<close>)
qed

lemma process_all_tracks:
  "process_all cs e = Inr (evs, e') \<Longrightarrow> tracked past e \<Longrightarrow> \<forall>c \<in> set cs. plain_command (in_window (book e)) c \<Longrightarrow>
   \<exists>past'. ref_run (cfg_stp_mode (config e)) (a_capacity (eng_arena e)) cs (exchange_of past e) =
     (map fills_in evs, exchange_of past' e')"
proof (induction cs arbitrary: e evs past)
  case (Cons c cs)
  obtain e1 evs1 where run: "process c e = Inr e1" "process_all cs e1 = Inr (evs1, e')" "evs = events e1 # evs1"
    using Cons.prems(1) by (auto simp: rbind_eq_Inr)
  have "plain_command (in_window (book e)) c" using Cons.prems(3) by simp
  from process_tracks [OF run(1) Cons.prems(2) this] obtain past1 where step: "tracked past1 e1" "config e1 = config e"
    "same_setting e e1" "ref_process (cfg_stp_mode (config e)) (a_capacity (eng_arena e)) c (exchange_of past e) =
       (fills_in (events e1), exchange_of past1 e1)" .
  have "\<forall>c \<in> set cs. plain_command (in_window (book e1)) c"
    using Cons.prems(3) step(3) plain_command_same [of "book e" "book e1"] by (simp add: same_setting_def)
  from Cons.IH [OF run(2) step(1) this] show ?case using step run(3) by (auto simp: same_setting_def)
qed auto

lemma book_new_table:
  assumes "book_new cfg = Inr b"
  shows "depth_table b (\<lambda>s p. 0)"
proof -
  let ?n = "max_ticks cfg"
  obtain bidx aidx bsi asi where parts: "fenwick_new ?n = Inr bidx" "fenwick_new ?n = Inr aidx"
      "sparse_index_new = Inr bsi" "sparse_index_new = Inr asi"
    and b: "dense_base_price b = base_price cfg" "dense_max_ticks b = ?n" "bid_depth_index b = bidx" "ask_depth_index b = aidx"
      "bids_sparse_index b = bsi" "asks_sparse_index b = asi"
    using assms by (auto simp: book_new_def Let_def rbind_eq_Inr)
  have empty: "fenwick_rel bidx (replicate ?n 0)" "sparse_inv bsi \<and> sparse_map bsi = Map.empty"
    using yields_Inr [OF parts(1) fenwick_new_spec] yields_Inr [OF parts(3) sparse_index_new_spec] .
  have "aidx = bidx" using parts(1,2) by simp
  moreover have "asi = bsi" using parts(4) unfolding parts(3) by simp
  ultimately have "v_tree (view s b) = bidx \<and> v_sidx (view s b) = bsi" for s using b by (cases s) simp_all
  then show ?thesis
    using empty by (auto simp: depth_table_def depth_rel_def in_window_tick b tick_of_Some intro!: exI [of _ "replicate ?n 0"])
qed

lemma engine_new_tracks:
  assumes "engine_new cfg capacity = Inr e" "capacity \<le> u32_max"
  shows "tracked (\<lambda>s. []) e" "config e = cfg" "a_capacity (eng_arena e) = capacity" "exchange_of (\<lambda>s. []) e = empty_exchange"
    "in_window (book e) = price_in_window cfg"
proof -
  obtain b where b: "book_new cfg = Inr b" and e: "e = \<lparr>book = b, eng_arena = arena_new capacity, config = cfg,
      sequence = 0, timestamp_ns = 0, events = [], stop_bids = [], stop_asks = [], last_trade_price = None\<rparr>"
    using assms(1) by (auto simp: engine_new_def rbind_eq_Inr)
  have spec: "(\<forall>ar. arena_inv ar \<and> heap_of ar = Map.empty \<longrightarrow> book_rel b ar (\<lambda>s p. [])) \<and>
     dense_base_price b = base_price cfg \<and> dense_max_ticks b = max_ticks cfg"
    using yields_Inr [OF b book_new_spec] .
  then have ok: "book_ok e (\<lambda>s p. [])" using arena_inv_new [OF assms(2)] by (simp add: e book_ok_def live_ok_def)
  have none: "ladder s e = []" for s unfolding ladder_rungs [OF ok] by (simp add: rungs_empty)
  then show "exchange_of (\<lambda>s. []) e = empty_exchange" by (simp add: exchange_of_def empty_exchange_def lob_of_def e)
  have "sim e (\<lambda>s p. [])" using ok arena_inv_new [OF assms(2)] by (simp add: sim_def inside_def e)
  moreover have "counted e (\<lambda>s. [])"
    using book_new_table [OF b] none arena_inv_new [OF assms(2)] by (simp add: counted_def held_def e)
  ultimately show "tracked (\<lambda>s. []) e" by (auto simp: tracked_def plain_stops_def e)
  show "config e = cfg" "a_capacity (eng_arena e) = capacity" by (simp_all add: e arena_new_def)
  show "in_window (book e) = price_in_window cfg"
    using spec by (intro ext) (auto simp: e in_window_def price_in_window_def dense_index_tick tick_of_def)
qed

lemma plain_session: "plain_command (price_in_window cfg) c \<Longrightarrow> session_command False cfg c"
  by (cases c) simp_all

lemma run_engine_tracks:
  assumes "capacity \<le> u32_max" "\<forall>c \<in> set cs. plain_command (price_in_window cfg) c"
  shows "yields (run_engine cfg capacity cs) (\<lambda>(evs, e). \<exists>past.
    ref_run (cfg_stp_mode cfg) capacity cs empty_exchange = (map fills_in evs, exchange_of past e))"
proof (rule yields_mono [OF run_engine_spec [OF assms(1), of cs False cfg]])
  show "\<forall>c \<in> set cs. session_command False cfg c" using assms(2) plain_session by blast
  fix r assume "run_engine cfg capacity cs = Inr r"
  then obtain e0 evs e where run: "engine_new cfg capacity = Inr e0" "process_all cs e0 = Inr (evs, e)" "r = (evs, e)"
    by (cases r) (auto simp: run_engine_def rbind_eq_Inr)
  note new = engine_new_tracks [OF run(1) assms(1)]
  show "case r of (evs, e) \<Rightarrow> \<exists>past. ref_run (cfg_stp_mode cfg) capacity cs empty_exchange = (map fills_in evs, exchange_of past e)"
    using process_all_tracks [OF run(2) new(1)] assms(2) run(3) new by simp
qed

end
