(* ===== verification/Mx_Reach.thy ===== *)
theory Mx_Reach
  imports Mx_Ref_Laws Mx_Ref_Exchange
begin

text \<open>
  Facts of the engines that a session reaches (a new engine, then commands), for the statements on
  the whole system.
\<close>

lemma session_einv:
  assumes "run_engine cfg capacity cs = Inr (evs, e)" "capacity \<le> u32_max" "\<forall>c \<in> set cs. session_command st cfg c"
  shows "einv st e"
  using run_engine_spec [OF assms(2,3)] assms(1) by simp

lemma session_book_ok:
  assumes "run_engine cfg capacity cs = Inr (evs, e)" "capacity \<le> u32_max" "\<forall>c \<in> set cs. session_command st cfg c"
  shows "\<exists>Q. book_ok e Q"
  using session_einv [OF assms] by (simp add: einv_def)

lemma session_sim:
  assumes "run_engine cfg capacity cs = Inr (evs, e)" "capacity \<le> u32_max" "\<forall>c \<in> set cs. session_command True cfg c"
  shows "\<exists>Q. sim e Q"
  using session_einv [OF assms] by (auto simp: einv_def orderly_def sim_def inside_def)

lemma process_all_config: "process_all cs e = Inr (evs, e') \<Longrightarrow> config e' = config e"
proof (induction cs arbitrary: e evs)
  case (Cons c cs)
  then show ?case using cfg.entry_point by (fastforce simp: rbind_eq_Inr)
qed simp

lemma session_config: "run_engine cfg capacity cs = Inr (evs, e) \<Longrightarrow> config e = cfg"
  by (auto simp: run_engine_def engine_new_def rbind_eq_Inr dest: process_all_config)

lemma best_order:
  assumes "book_ok e Q" "v_best (view s (book e)) = Some p"
  shows "\<exists>i ord. heap_of (eng_arena e) i = Some ord \<and> o_side ord = s \<and> o_price ord = p"
proof -
  note rel = book_okD(1) [OF assms(1)]
  have "Q s p \<noteq> []" using side_relD(5) [OF book_relD(2) [OF rel, of s]] assms(2) by (simp add: best_ok_def)
  then show ?thesis using book_rel_slot [OF rel hd_in_set] by blast
qed

lemma process_all_stops:
  "process_all cs e = Inr (evs, e') \<Longrightarrow> stops_sorted e \<Longrightarrow> stops_idle e \<Longrightarrow> stops_sorted e' \<and> stops_idle e'"
proof (induction cs arbitrary: e evs)
  case (Cons c cs)
  then obtain e1 evs' where "process c e = Inr e1" "process_all cs e1 = Inr (evs', e')" by (auto simp: rbind_eq_Inr)
  then show ?case using Cons.IH process_stops Cons.prems(2) by blast
qed simp

text \<open>Matching from a reached engine, in terms of the reference.\<close>

lemma session_match:
  assumes "run_engine cfg capacity cs = Inr (evs, e)" "capacity \<le> u32_max" "\<forall>c \<in> set cs. session_command True cfg c"
    and "match_against_book tid sd px stp q e = Inr (c, r, e')"
  obtains fs where "fills_in (events e') = fills_in (events e) @ fs"
    "ref_match (cfg_stp_mode cfg) tid sd px stp q (ladder (opposite sd) e) = (fs, c, r, ladder (opposite sd) e')"
    "\<exists>Q. book_ok e Q" "\<exists>Q. sim e' Q"
proof -
  obtain Q where sim: "sim e Q" using session_sim [OF assms(1-3)] by blast
  then have ok: "book_ok e Q" and ins: "inside (opposite sd) e" by (simp_all add: sim_def)
  have "refined tid sd px stp q e (c, r, e')" using match_refines [OF ok ins, of tid px stp q] assms(4) by simp
  moreover have "kept e e'" using match_kept [OF ok, of tid sd px stp q] assms(4) by simp
  ultimately show ?thesis
    using that session_config [OF assms(1)] ok kept_sim [OF sim] unfolding refined_def by fastforce
qed

lemma shrinks_lookup:
  assumes "book_ok e Q" "kept e e'" "lookup oid (book e) = None"
  shows "lookup oid (book e') = None"
proof (rule ccontr)
  assume "lookup oid (book e') \<noteq> None"
  then obtain i where i: "order_index (book e') oid = Some i" by (auto simp: lookup_def)
  obtain Q' where ok': "book_ok e' Q'" and sh: "shrinks (heap_of (eng_arena e)) (heap_of (eng_arena e'))"
    using assms(2) by (auto simp: kept_def)
  obtain ord' where ord': "heap_of (eng_arena e') i = Some ord'" "o_id ord' = oid"
    using book_relD(4) [OF book_okD(1) [OF ok'], of oid i] i by blast
  obtain ord where "heap_of (eng_arena e) i = Some ord" "o_id ord = oid"
    using shrinksD [OF sh ord'(1)] ord'(2) by metis
  then have "order_index (book e) oid = Some i" using book_relD(4) [OF book_okD(1) [OF assms(1)], of oid i] by blast
  then show False using assms(3) by (simp add: lookup_def)
qed

lemma no_rest:
  assumes ok: "book_ok e Q" and new: "lookup oid (book e) = None"
    and run: "process_new_order oid s p q ot tif vis stop stp e = Inr e'"
    and kind: "ot \<noteq> PostOnly" "ot \<noteq> StopLimit" "ot = Market \<or> tif \<noteq> GTC"
  shows "lookup oid (book e') = None"
proof -
  note frames = emit_frame(1) [THEN sym]
  define px where "px = effective_price ot s p"
  have step: "lookup oid (book e') = None" if "emit f e0 = Inr e'" "lookup oid (book e0) = None" for f e0
    using that emit_frame(1) by metis
  show ?thesis
  proof (cases "\<exists>r f. emit f e = Inr e'")
    case True
    then show ?thesis using step new by blast
  next
    case False
    then obtain e1 c r e2 where e1: "emit (\<lambda>meta. OrderAccepted meta oid s p q ot) e = Inr e1"
      and e2: "match_against_book oid s px stp q e1 = Inr (c, r, e2)"
      and rest: "(if c then emit (\<lambda>meta. OrderCancelled meta oid r) e2 else handle_remainder oid s p r ot tif vis stp e2) = Inr e'"
      using run kind(1,2) unfolding process_new_order_def Let_def px_def [symmetric] emit_rejected_def
      by (auto simp: rbind_eq_Inr split: if_splits)
    have ok1: "book_ok e1 Q" and new1: "lookup oid (book e1) = None"
      using ok new emit_frame [OF e1] by (simp_all add: book_ok_def)
    have "kept e1 e2" using match_kept [OF ok1, of oid s px stp q] e2 by simp
    from shrinks_lookup [OF ok1 this new1] have new2: "lookup oid (book e2) = None" .
    show ?thesis using rest kind(3) step [OF _ new2] new2
      by (auto simp: handle_remainder_def split: if_splits)
  qed
qed

text \<open>What the invariant says of the queues and the best prices, and a cancellation.\<close>

lemma ok_queue_at: "book_ok e Q \<Longrightarrow> queue_at s p (book e) (eng_arena e) = Q s p"
  by (rule queue_at_eq [OF book_okD(1)])

lemma ok_queue_members:
  assumes "book_ok e Q"
  shows "i \<in> set (Q s p) \<longleftrightarrow> (\<exists>ord. heap_of (eng_arena e) i = Some ord \<and> o_side ord = s \<and> o_price ord = p)"
proof
  assume "i \<in> set (Q s p)"
  then show "\<exists>ord. heap_of (eng_arena e) i = Some ord \<and> o_side ord = s \<and> o_price ord = p"
    by (rule book_rel_slot [OF book_okD(1) [OF assms]])
next
  assume "\<exists>ord. heap_of (eng_arena e) i = Some ord \<and> o_side ord = s \<and> o_price ord = p"
  then show "i \<in> set (Q s p)" using book_relD(3) [OF book_okD(1) [OF assms], of i] by auto
qed

lemma ok_best:
  assumes "book_ok e Q"
  shows "case v_best (view s (book e)) of
      None \<Rightarrow> \<forall>i ord. heap_of (eng_arena e) i = Some ord \<longrightarrow> o_side ord \<noteq> s
    | Some b \<Rightarrow> (\<exists>i ord. heap_of (eng_arena e) i = Some ord \<and> o_side ord = s \<and> o_price ord = b) \<and>
        (\<forall>i ord. heap_of (eng_arena e) i = Some ord \<longrightarrow> o_side ord = s \<longrightarrow> in_window (book e) (o_price ord) \<longrightarrow>
           better s b (o_price ord))"
proof -
  note best = side_relD(5) [OF book_relD(2) [OF book_okD(1) [OF assms], of s]]
  note members = ok_queue_members [OF assms]
  show ?thesis
  proof (cases "v_best (view s (book e))")
    case None
    then have "Q s p = []" for p using best by (simp add: best_ok_def)
    then show ?thesis using None members [of _ s] by fastforce
  next
    case (Some b)
    have "better s b (o_price ord)" if ord: "heap_of (eng_arena e) i = Some ord" "o_side ord = s"
      and win: "in_window (book e) (o_price ord)" for i ord
    proof -
      obtain k where k: "k < dense_max_ticks (book e)" "o_price ord = dense_base_price (book e) + k"
        using win by (auto simp: in_window_def dense_index_tick tick_of_Some)
      have "Q s (o_price ord) \<noteq> []" using members [of i s "o_price ord"] ord by auto
      then show ?thesis using best Some k by (simp add: best_ok_def)
    qed
    then show ?thesis using Some best_order [OF assms Some] by simp
  qed
qed

lemma cancel_resting:
  assumes ok: "book_ok e Q" and ord: "heap_of (eng_arena e) i = Some ord"
  shows "yields (process_cancel (o_id ord) e) (\<lambda>e'. removed i ord Q e e' \<and>
    (\<exists>m n. events e' = events e @ [OrderCancelled m (o_id ord) (remaining ord),
       BookUpdate n (o_side ord) (o_price ord) (sum_rem (heap_of (eng_arena e')) (remove1 i (Q (o_side ord) (o_price ord))))]))"
proof -
  note rel = book_okD(1) [OF ok]
  have look: "lookup (o_id ord) (book e) = Some i" using book_relD(4) [OF rel] ord by (auto simp: lookup_def)
  have get: "arena_get (eng_arena e) i = Inr ord" by (rule arena_get_occupied [OF book_relD(1) [OF rel] ord])
  show ?thesis
    unfolding process_cancel_def look option.case get rbind_simps
  proof (rule yields_bind [OF eng_remove_ok [OF ok ord]], elim conjE exE, rule yields_bind_emit)
    fix e1 b ar assume rm: "removed i ord Q e e1" and e1: "e1 = e\<lparr>book := b, eng_arena := ar\<rparr>"
    let ?e2 = "after_emit (\<lambda>meta. OrderCancelled meta (o_id ord) (remaining ord)) e1"
    have "book_rel (book ?e2) (eng_arena ?e2) (upd_queue Q (o_side ord) (o_price ord) (remove1 i (Q (o_side ord) (o_price ord))))"
      using rm book_okD(1) by (auto simp: removed_def)
    note qty = get_level_qty_ok [OF this, of "o_side ord" "o_price ord"]
    have "removed i ord Q e (after_emit f ?e2)" for f using rm by (simp add: removed_def)
    then show "yields (rbind (get_level_qty (o_side ord) (o_price ord) (book ?e2))
        (\<lambda>level_qty. emit (\<lambda>meta. BookUpdate meta (o_side ord) (o_price ord) level_qty) ?e2))
      (\<lambda>e'. removed i ord Q e e' \<and> (\<exists>m n. events e' = events e @ [OrderCancelled m (o_id ord) (remaining ord),
         BookUpdate n (o_side ord) (o_price ord) (sum_rem (heap_of (eng_arena e')) (remove1 i (Q (o_side ord) (o_price ord))))]))"
      unfolding qty rbind_simps by (intro yields_emit) (simp add: e1)
  qed
qed

end
