(* ===== verification/Mx_Design.thy ===== *)
theory Mx_Design
  imports Mx_Ref_Laws Mx_Ref_Exchange
begin

text \<open>
  The exchange as the design documents describe it (\<open>docs/plans/2026-02-26-matching-engine-core-design.md\<close>,
  Matching Flow, and the core plan, tasks 10 and 11), where the code departs from them: an iceberg whose
  visible slice (what one taker can take at once, as in the code) is used up goes to the back of the queue
  of its price; a fill-or-kill order counts only what rests; a post-only order rests only if it is good till
  cancelled; an order that meets one of its own group in the mode \<open>CancelNewest\<close> is cancelled; orders of one
  group do not trade, so a modified order keeps its group. Stops are not part of it. On sessions that use
  none of these features it is the reference exchange.
\<close>

subsection \<open>Matching and orders by the design\<close>

definition after_fill :: "nat \<Rightarrow> order \<Rightarrow> order list \<Rightarrow> order list" where
  "after_fill d x xs =
     (if d = remaining x then xs
      else if d = matchable_qty x then
        takeWhile (\<lambda>y. o_price y = o_price x) xs @ reduced d x # dropWhile (\<lambda>y. o_price y = o_price x) xs
      else reduced d x # xs)"

lemma after_fill_length: "length (after_fill d x xs) = (if d = remaining x then length xs else Suc (length xs))"
proof -
  have "length (takeWhile P xs) + length (dropWhile P xs) = length xs" for P
    by (metis length_append takeWhile_dropWhile_id)
  then show ?thesis by (simp add: after_fill_def)
qed

function design_match ::
  "stp_mode \<Rightarrow> order_id \<Rightarrow> side \<Rightarrow> nat \<Rightarrow> nat option \<Rightarrow> nat \<Rightarrow> order list \<Rightarrow> trade list \<times> bool \<times> nat \<times> order list" where
  "design_match mode tid sd px stp rem [] = ([], False, rem, [])"
| "design_match mode tid sd px stp rem (x # xs) =
     (if rem = 0 \<or> \<not> is_price_acceptable sd px (o_price x) then ([], False, rem, x # xs)
      else if stp_hit stp x then
        (case mode of
           CancelNewest \<Rightarrow> ([], True, rem, x # xs)
         | CancelOldest \<Rightarrow> design_match mode tid sd px stp rem xs
         | CancelBoth \<Rightarrow> ([], True, rem, xs)
         | DecrementAndCancel \<Rightarrow>
             (let d = min rem (remaining x) in ([], True, rem - d, take_first d x xs)))
      else
        (let d = min rem (matchable_qty x);
             (fs, res) = design_match mode tid sd px stp (rem - d) (after_fill d x xs)
         in ((o_id x, tid, o_price x, d) # fs, res)))"
  by pat_completeness auto
termination
proof (relation "measure (\<lambda>(mode, tid, sd, px, stp, rem, xs). rem + length xs)", goal_cases)
  case (3 mode tid sd px stp rem x xs d)
  then show ?case
    using matchable_pos [of x] matchable_le_remaining [of x]
    by (cases "matchable_qty x = 0") (auto simp: after_fill_length)
qed auto

declare design_match.simps(2) [simp del]

definition design_order ::
  "stp_mode \<Rightarrow> nat \<Rightarrow> order_id \<Rightarrow> side \<Rightarrow> nat \<Rightarrow> nat \<Rightarrow> order_type \<Rightarrow> time_in_force \<Rightarrow> nat option \<Rightarrow> nat option \<Rightarrow>
   lob \<Rightarrow> trade list \<times> lob" where
  "design_order mode capacity oid s p q ot tif vis stp L =
     (let rest = (\<lambda>r. ref_rest capacity s (core (new_order_record oid s p r ot vis stp)));
          px = effective_price ot s p
      in if ot = PostOnly then ([], if crosses s p L \<or> tif \<noteq> GTC then L else rest q L)
         else if q = 0 \<or> known oid L \<or>
           (tif = FOK \<and> volume (is_price_acceptable s px) (resting (lob_side (opposite s) L)) < q) then ([], L)
         else case design_match mode oid s px stp q (lob_side (opposite s) L) of (fs, c, r, xs) \<Rightarrow>
           (fs, (if \<not> c \<and> (ot = Limit \<or> ot = Iceberg) \<and> tif = GTC \<and> 0 < r then rest r else id)
              (lob_put (opposite s) xs L)))"

definition group_of :: "order \<Rightarrow> nat option" where
  "group_of x = (if o_stp_group x = STP_NONE then None else Some (o_stp_group x))"

definition find_order :: "order_id \<Rightarrow> lob \<Rightarrow> order option" where
  "find_order oid L = find (\<lambda>x. o_id x = oid) (lob_bids L @ lob_asks L)"

fun design_command :: "stp_mode \<Rightarrow> nat \<Rightarrow> command \<Rightarrow> lob \<Rightarrow> trade list \<times> lob" where
  "design_command mode capacity (NewOrder oid instr s p q ot tif vis stop stp) L =
     (if ot = StopLimit then ([], L) else design_order mode capacity oid s p q ot tif vis stp L)"
| "design_command mode capacity (CancelOrder oid) L = ([], ref_cancel oid L)"
| "design_command mode capacity (ModifyOrder oid p q) L =
     (case find_order oid L of
        None \<Rightarrow> ([], L)
      | Some x \<Rightarrow> design_order mode capacity oid (side_of_id oid L) p q Limit GTC None (group_of x) (ref_cancel oid L))"

fun design_run :: "stp_mode \<Rightarrow> nat \<Rightarrow> command list \<Rightarrow> lob \<Rightarrow> trade list list \<times> lob" where
  "design_run mode capacity [] L = ([], L)"
| "design_run mode capacity (c # cs) L =
     (case design_command mode capacity c L of (fs, L') \<Rightarrow>
      case design_run mode capacity cs L' of (fss, L'') \<Rightarrow> (fs # fss, L''))"

subsection \<open>Sessions without the features in question\<close>

text \<open>No iceberg, stop or fill-or-kill order, no post-only order that is not good till cancelled, no group in the mode \<open>CancelNewest\<close>, and no group at all when
  orders are modified.\<close>

fun design_covers :: "stp_mode \<Rightarrow> command \<Rightarrow> bool" where
  "design_covers mode (NewOrder oid instr s p q ot tif vis stop stp) \<longleftrightarrow>
     ot \<noteq> Iceberg \<and> ot \<noteq> StopLimit \<and> tif \<noteq> FOK \<and> (ot = PostOnly \<longrightarrow> tif = GTC) \<and> (mode = CancelNewest \<longrightarrow> stp = None)"
| "design_covers mode (CancelOrder oid) \<longleftrightarrow> True"
| "design_covers mode (ModifyOrder oid p q) \<longleftrightarrow> True"

fun is_modify :: "command \<Rightarrow> bool" where
  "is_modify (ModifyOrder oid p q) \<longleftrightarrow> True"
| "is_modify _ \<longleftrightarrow> False"

fun ungrouped :: "command \<Rightarrow> bool" where
  "ungrouped (NewOrder oid instr s p q ot tif vis stop stp) \<longleftrightarrow> stp = None"
| "ungrouped _ \<longleftrightarrow> True"

definition by_the_design :: "stp_mode \<Rightarrow> command list \<Rightarrow> bool" where
  "by_the_design mode cs \<longleftrightarrow> list_all (design_covers mode) cs \<and> (list_ex is_modify cs \<longrightarrow> list_all ungrouped cs)"

text \<open>What then holds of every resting order; \<open>g\<close> says that there are no groups.\<close>

definition ordinary :: "bool \<Rightarrow> order \<Rightarrow> bool" where
  "ordinary g x \<longleftrightarrow> o_order_type x \<noteq> Iceberg \<and> (g \<longrightarrow> o_stp_group x = STP_NONE)"

definition ordinary_book :: "bool \<Rightarrow> lob \<Rightarrow> bool" where
  "ordinary_book g L \<longleftrightarrow> (\<forall>s. \<forall>x \<in> set (lob_side s L). ordinary g x)"

lemma ordinary_reduced [simp]: "ordinary g (reduced d x) = ordinary g x"
  by (simp add: ordinary_def reduced_def)

lemma ordinary_matchable: "ordinary g x \<Longrightarrow> matchable_qty x = remaining x"
  by (simp add: ordinary_def matchable_qty_def)

lemma after_fill_ordinary: "ordinary g x \<Longrightarrow> after_fill d x xs = take_first d x xs"
  by (simp add: after_fill_def take_first_def ordinary_matchable)

lemma take_first_ordinary: "\<forall>y \<in> set (x # xs). ordinary g y \<Longrightarrow> \<forall>y \<in> set (take_first d x xs). ordinary g y"
  by (simp add: take_first_def)

lemma ref_match_ordinary:
  assumes "ref_match mode tid sd px stp rem xs = (fs, c, r, ys)" "\<forall>x \<in> set xs. ordinary g x"
  shows "\<forall>y \<in> set ys. ordinary g y"
proof -
  have "(\<forall>x \<in> set xs. ordinary g x) \<longrightarrow>
    (case ref_match mode tid sd px stp rem xs of (fs, c, r, ys) \<Rightarrow> \<forall>y \<in> set ys. ordinary g y)"
  proof (induction rule: ref_match_induct)
    case (Fill rem x xs d)
    obtain fs c r ys where res: "ref_match mode tid sd px stp (rem - d) (take_first d x xs) = (fs, c, r, ys)"
      by (metis prod_cases4)
    have "\<forall>y \<in> set ys. ordinary g y" if "\<forall>y \<in> set (x # xs). ordinary g y"
      using Fill(5) take_first_ordinary [OF that] unfolding res by blast
    then show ?case unfolding res prepend_simps prod.case by blast
  next
    case (Decrement rem x xs d)
    show ?case using take_first_ordinary [of x xs g d] unfolding prod.case by blast
  next
    case (Oldest rem x xs)
    show ?case using Oldest(5) by (simp add: split_beta)
  qed simp_all
  then show ?thesis using assms by simp
qed

lemma design_match_ordinary:
  assumes "\<forall>x \<in> set xs. ordinary g x" "mode = CancelNewest \<Longrightarrow> stp = None"
  shows "design_match mode tid sd px stp rem xs = ref_match mode tid sd px stp rem xs"
  using assms
proof (induction mode tid sd px stp rem xs rule: ref_match.induct)
  case (2 mode tid sd px stp rem x xs)
  show ?case
  proof (cases "rem = 0 \<or> \<not> is_price_acceptable sd px (o_price x)")
    case True
    then show ?thesis by (simp add: ref_match.simps(2) design_match.simps(2))
  next
    case go: False
    show ?thesis
    proof (cases "stp_hit stp x")
      case True
      then show ?thesis using go "2.prems" "2.IH"(1) [OF go True]
        by (cases mode) (simp_all add: ref_match.simps(2) design_match.simps(2) stp_hit_def)
    next
      case False
      let ?d = "min rem (matchable_qty x)"
      have "design_match mode tid sd px stp (rem - ?d) (take_first ?d x xs) =
          ref_match mode tid sd px stp (rem - ?d) (take_first ?d x xs)"
        by (rule "2.IH"(2) [OF go False refl take_first_ordinary [OF "2.prems"(1)] "2.prems"(2)])
      then show ?thesis using go False "2.prems"(1) after_fill_ordinary [of g x ?d xs]
        by (simp add: ref_match.simps(2) design_match.simps(2) Let_def)
    qed
  qed
qed simp

text \<open>The operations keep it.\<close>

lemma ordinary_book_put:
  "ordinary_book g L \<Longrightarrow> \<forall>x \<in> set xs. ordinary g x \<Longrightarrow> ordinary_book g (lob_put s xs L)"
  by (cases s) (simp_all add: ordinary_book_def side_all)

lemma ordinary_book_side: "ordinary_book g L \<Longrightarrow> \<forall>x \<in> set (lob_side s L). ordinary g x"
  by (simp add: ordinary_book_def)

lemma ordinary_book_cancel: "ordinary_book g L \<Longrightarrow> ordinary_book g (ref_cancel oid L)"
  unfolding ordinary_book_def by auto

lemma ref_insert_in: "y \<in> set (ref_insert s x xs) \<Longrightarrow> y = x \<or> y \<in> set xs"
  by (auto simp: ref_insert_def dest: set_takeWhileD set_dropWhileD)

lemma ordinary_book_rest:
  assumes "ordinary_book g L" "ordinary g x"
  shows "ordinary_book g (ref_rest capacity s x L)"
proof -
  have "\<forall>y \<in> set (ref_insert s x (lob_side s L)). ordinary g y"
    using ordinary_book_side [OF assms(1)] assms(2) ref_insert_in by blast
  then show ?thesis using assms(1) ordinary_book_put by (simp add: ref_rest_def)
qed

lemma ordinary_new: "ot \<noteq> Iceberg \<Longrightarrow> (g \<Longrightarrow> stp = None) \<Longrightarrow> ordinary g (core (new_order_record oid s p q ot vis stp))"
  by (cases stp) (auto simp: ordinary_def core_def new_order_record_def)

subsection \<open>The reference exchange is the design's\<close>

lemma ref_order_design:
  assumes ord: "ordinary_book g L"
    and covered: "ot \<noteq> Iceberg" "tif \<noteq> FOK" "ot = PostOnly \<Longrightarrow> tif = GTC" "mode = CancelNewest \<Longrightarrow> stp = None"
    and plain: "g \<Longrightarrow> stp = None"
  shows "ref_order mode capacity oid s p q ot tif vis stp past L = design_order mode capacity oid s p q ot tif vis stp L"
    "ordinary_book g (snd (design_order mode capacity oid s p q ot tif vis stp L))"
proof -
  let ?px = "effective_price ot s p" and ?xs = "lob_side (opposite s) L"
  have new: "ordinary g (core (new_order_record oid s p r ot vis stp))" for r
    by (rule ordinary_new [OF covered(1) plain])
  have open_taker: "\<not> newest_hit mode s ?px stp L"
    using covered(4) by (auto simp: newest_hit_def stp_hit_def split: list.splits)
  have same: "design_match mode oid s ?px stp q ?xs = ref_match mode oid s ?px stp q ?xs"
    by (rule design_match_ordinary [OF ordinary_book_side [OF ord] covered(4)])
  obtain fs c r ys where m: "ref_match mode oid s ?px stp q ?xs = (fs, c, r, ys)" by (metis prod_cases4)
  have "ordinary_book g (lob_put (opposite s) ys L)"
    by (rule ordinary_book_put [OF ord ref_match_ordinary [OF m ordinary_book_side [OF ord]]])
  then show "ordinary_book g (snd (design_order mode capacity oid s p q ot tif vis stp L))"
    using ordinary_book_rest [OF ord new] ordinary_book_rest [OF _ new] ord
    by (cases "ot = PostOnly") (simp_all add: design_order_def Let_def same m)
  show "ref_order mode capacity oid s p q ot tif vis stp past L = design_order mode capacity oid s p q ot tif vis stp L"
    using open_taker covered(2,3) by (auto simp: ref_order_def design_order_def Let_def same m)
qed

lemma find_order_known: "(find_order oid L = None) = (\<not> known oid L)"
  by (auto simp: find_order_def known_def find_None_iff)

lemma find_Some_in: "find P xs = Some x \<Longrightarrow> x \<in> set xs"
  by (induction xs) (auto split: if_splits)

lemma find_order_in: "find_order oid L = Some x \<Longrightarrow> \<exists>s. x \<in> set (lob_side s L)"
  unfolding find_order_def side_ex by (drule find_Some_in) simp

lemma ref_command_design:
  assumes ord: "ordinary_book g L" and covered: "design_covers mode c" "g \<Longrightarrow> ungrouped c" "is_modify c \<Longrightarrow> g"
  shows "ref_command mode capacity c past L = design_command mode capacity c L"
    "ordinary_book g (snd (design_command mode capacity c L))"
proof -
  have "ref_command mode capacity c past L = design_command mode capacity c L \<and>
    ordinary_book g (snd (design_command mode capacity c L))"
  proof (cases c)
    case (NewOrder oid instr s p q ot tif vis stop stp)
    then show ?thesis using ref_order_design [OF ord, of ot tif mode stp] covered by auto
  next
    case (CancelOrder oid)
    then show ?thesis using ordinary_book_cancel [OF ord] by simp
  next
    case (ModifyOrder oid p q)
    show ?thesis
    proof (cases "find_order oid L")
      case None
      then show ?thesis using ModifyOrder ord find_order_known [of oid L] by simp
    next
      case (Some x)
      then have "ordinary g x" using find_order_in [OF Some] ord by (auto simp: ordinary_book_def)
      then have none: "group_of x = None" using covered(3) ModifyOrder by (simp add: ordinary_def group_of_def)
      note r = ref_order_design [OF ordinary_book_cancel [OF ord, of oid], of Limit GTC mode None]
      show ?thesis using ModifyOrder Some find_order_known [of oid L] none r by simp
    qed
  qed
  then show "ref_command mode capacity c past L = design_command mode capacity c L"
    "ordinary_book g (snd (design_command mode capacity c L))" by simp_all
qed

lemma ref_drain_no_stops: "ex_buys X = [] \<Longrightarrow> ex_sells X = [] \<Longrightarrow> ref_drain mode capacity X = ([], X)"
  by (auto simp: ref_drain_def ref_settle.simps next_stop_def split: option.splits)

lemma ref_handle_book:
  assumes "design_covers mode c"
  shows "ref_handle mode capacity c X = on_book (taker_side c (ex_book X)) (ref_command mode capacity c) X"
proof (cases c)
  case (NewOrder oid instr s p q ot tif vis stop stp)
  then show ?thesis using assms by (cases ot) simp_all
qed simp_all

lemma ref_process_design:
  assumes "ordinary_book g (ex_book X)" "design_covers mode c" "g \<Longrightarrow> ungrouped c" "is_modify c \<Longrightarrow> g"
    and none: "ex_buys X = []" "ex_sells X = []"
  shows "\<exists>Y. ref_process mode capacity c X = (fst (design_command mode capacity c (ex_book X)), Y) \<and>
    ex_book Y = snd (design_command mode capacity c (ex_book X)) \<and> ex_buys Y = [] \<and> ex_sells Y = []"
proof -
  have "ref_handle mode capacity c X = on_book (taker_side c (ex_book X)) (ref_command mode capacity c) X"
    using ref_handle_book [OF assms(2)] .
  then show ?thesis
    using ref_command_design(1) [OF assms(1-4), of capacity "ex_past X"] none
    by (simp add: ref_process_def on_book_def split_beta ref_drain_no_stops prepend_def)
qed

lemma ref_run_design:
  assumes "ordinary_book g (ex_book X)" "list_all (design_covers mode) cs" "g \<longrightarrow> list_all ungrouped cs"
    "list_ex is_modify cs \<longrightarrow> g" "ex_buys X = []" "ex_sells X = []"
  shows "case ref_run mode capacity cs X of (fss, Y) \<Rightarrow> design_run mode capacity cs (ex_book X) = (fss, ex_book Y)"
  using assms
proof (induction cs arbitrary: X)
  case (Cons c cs)
  have c: "design_covers mode c" "g \<Longrightarrow> ungrouped c" "is_modify c \<Longrightarrow> g" using Cons.prems by auto
  obtain Y where Y: "ref_process mode capacity c X = (fst (design_command mode capacity c (ex_book X)), Y)"
    "ex_book Y = snd (design_command mode capacity c (ex_book X))" "ex_buys Y = []" "ex_sells Y = []"
    using ref_process_design [OF Cons.prems(1) c Cons.prems(5,6)] by blast
  have "ordinary_book g (ex_book Y)"
    unfolding Y(2) by (rule ref_command_design(2) [OF Cons.prems(1) c])
  from Cons.IH [OF this] show ?case using Cons.prems Y by (simp add: split_beta)
qed simp

theorem by_the_design_run:
  assumes "by_the_design mode cs" "ref_run mode capacity cs empty_exchange = (fss, X)"
  shows "design_run mode capacity cs \<lparr>lob_bids = [], lob_asks = []\<rparr> = (fss, ex_book X)"
proof -
  have "ordinary_book (list_ex is_modify cs) (ex_book empty_exchange)"
    by (simp add: ordinary_book_def empty_exchange_def side_all)
  from ref_run_design [OF this, of mode cs capacity] assms show ?thesis
    by (simp add: by_the_design_def empty_exchange_def)
qed

end
