(* ===== verification/Mx_Engine_Props.thy ===== *)
theory Mx_Engine_Props
  imports Mx_Reach Mx_Design "HOL-Library.Code_Target_Nat"
begin

text \<open>
  The properties of the matching engine: what holds of every engine that commands can reach, and the
  runs on which the code does not do what it means to. An engine is reachable here if it is a new one that
  has processed commands in which every post-only order has a quantity (\<open>session_command False\<close>; without
  one the engine can panic, see \<open>zero_post_only_panics\<close>); where a property needs every price in the dense
  window as well (\<open>session_command True\<close>) it says so.
\<close>

section \<open>The matching engine\<close>

text \<open>A small instrument and orders for the witnesses: eight prices from 100.\<close>

definition demo_config :: "stp_mode \<Rightarrow> instrument_config" where
  "demo_config mode = \<lparr>ic_id = 1, tick_size = 1, lot_size = 1, base_price = 100, max_ticks = 8, cfg_stp_mode = mode\<rparr>"

definition plain :: "order_id \<Rightarrow> side \<Rightarrow> nat \<Rightarrow> nat \<Rightarrow> order_type \<Rightarrow> time_in_force \<Rightarrow> command" where
  "plain oid s p q ot tif = NewOrder oid 1 s p q ot tif None None None"

abbreviation demo_run :: "stp_mode \<Rightarrow> command list \<Rightarrow> (match_event list list \<times> engine) result" where
  "demo_run mode cs \<equiv> run_engine (demo_config mode) 4 cs"

definition demo_session :: "command list" where
  "demo_session = [plain 1 Ask 103 10 Limit GTC, plain 2 Bid 103 4 Limit GTC, plain 3 Bid 102 7 Limit GTC]"

lemma demo_session_run:
  "\<exists>evs e. demo_run CancelOldest demo_session = Inr (evs, e) \<and> length evs = 3 \<and>
     best_bid (book e) = Some 102 \<and> best_ask (book e) = Some 103 \<and>
     fills_in (concat evs) = [(1, 2, 103, 4)] \<and> last_trade_price e = Some 103"
proof -
  have "returns (demo_run CancelOldest demo_session) (\<lambda>(evs, e). length evs = 3 \<and>
     best_bid (book e) = Some 102 \<and> best_ask (book e) = Some 103 \<and>
     fills_in (concat evs) = [(1, 2, 103, 4)] \<and> last_trade_price e = Some 103)" by code_simp
  then show ?thesis unfolding returns_tuple by auto
qed

lemma demo_session_fits:
  "\<forall>c \<in> set demo_session. session_command st (demo_config mode) c"
  by (simp_all add: demo_session_def plain_def price_in_window_def demo_config_def)

lemma demo_capacity: "4 \<le> u32_max"
  by (simp add: u32_max_def)

text \<open>C1: the engine is safe. Whatever commands a new engine is given, in whatever order (a post-only
  order must have a quantity), either every command is processed and the engine ends with its book, its
  arena and their links consistent and every resting order live, or it stops for want of a machine
  resource: a counter at its width, a vector at its maximal size, or the event buffer full. No other
  panic is possible: no access out of range or to a freed order, no subtraction below zero, no failed
  \<open>expect\<close> or assertion.\<close>

theorem engine_never_panics:
  assumes "capacity \<le> u32_max" "\<forall>c \<in> set cs. session_command False cfg c"
  shows "(\<exists>evs e Q. run_engine cfg capacity cs = Inr (evs, e) \<and> book_ok e Q) \<or>
    run_engine cfg capacity cs \<in> {Inl AddOverflow, Inl CapacityOverflow, Inl EventBufferOverflow}"
proof (cases "run_engine cfg capacity cs")
  case (Inl p)
  then show ?thesis using run_engine_spec [OF assms] by (auto simp: resource_panic_def)
next
  case (Inr r)
  then show ?thesis using run_engine_spec [OF assms] by (cases r) (auto simp: einv_def)
qed

theorem engine_never_panics_witness:
  "\<exists>evs e Q. demo_run CancelOldest demo_session = Inr (evs, e) \<and> book_ok e Q"
  using engine_never_panics [OF demo_capacity demo_session_fits, of CancelOldest] demo_session_run by auto

text \<open>C2: the market never crosses. While every price used lies in the dense window, every post-only order
  has a quantity, and self-trade prevention is not in the mode \<open>CancelNewest\<close>, after any commands every resting bid is below every
  resting ask, and so is the best bid below the best ask.\<close>

theorem book_never_crosses:
  assumes "run_engine cfg capacity cs = Inr (evs, e)" "capacity \<le> u32_max"
    "\<forall>c \<in> set cs. session_command True cfg c" "cfg_stp_mode cfg \<noteq> CancelNewest"
  shows "(\<forall>x y. x \<in> set (ladder Bid e) \<longrightarrow> y \<in> set (ladder Ask e) \<longrightarrow> o_price x < o_price y) \<and>
    (\<forall>b a. best_bid (book e) = Some b \<longrightarrow> best_ask (book e) = Some a \<longrightarrow> b < a)"
proof -
  have inv: "einv True e" by (rule session_einv [OF assms(1-3)])
  then obtain Q where ok: "book_ok e Q" by (auto simp: einv_def)
  have un: "uncrossed (heap_of (eng_arena e))"
    using inv assms(4) session_config [OF assms(1)] by (simp add: einv_def orderly_def)
  have "o_price x < o_price y" if x: "x \<in> set (ladder Bid e)" and y: "y \<in> set (ladder Ask e)" for x y
  proof (rule ladder_orders [OF ok x], rule ladder_orders [OF ok y])
    fix i j ord ord'
    assume "heap_of (eng_arena e) i = Some ord" "x = core ord" "o_side ord = Bid"
      "heap_of (eng_arena e) j = Some ord'" "y = core ord'" "o_side ord' = Ask"
    then show ?thesis using un by (simp add: uncrossed_def)
  qed
  moreover have "b < a" if b: "best_bid (book e) = Some b" and a: "best_ask (book e) = Some a" for b a
    using best_order [OF ok, of Bid b] best_order [OF ok, of Ask a] un a b
    by (auto simp: uncrossed_def best_bid_def best_ask_def)
  ultimately show ?thesis by blast
qed

theorem book_never_crosses_witness:
  "\<exists>evs e b a. demo_run CancelOldest demo_session = Inr (evs, e) \<and>
     best_bid (book e) = Some b \<and> best_ask (book e) = Some a \<and> b < a"
proof -
  obtain evs e where run: "demo_run CancelOldest demo_session = Inr (evs, e)"
    "best_bid (book e) = Some 102" "best_ask (book e) = Some 103" using demo_session_run by auto
  have "cfg_stp_mode (demo_config CancelOldest) \<noteq> CancelNewest" by (simp add: demo_config_def)
  from book_never_crosses [OF run(1) demo_capacity demo_session_fits this] run show ?thesis by blast
qed

text \<open>Two buy stops at one trigger price, and the trade that triggers them.\<close>

definition twin_stops :: "command list" where
  "twin_stops = [NewOrder 1 1 Bid 103 5 StopLimit GTC None (Some 103) None,
     NewOrder 2 1 Bid 103 5 StopLimit GTC None (Some 103) None, plain 3 Ask 103 7 Limit GTC, plain 4 Bid 103 2 Limit GTC]"

lemma twin_stops_run:
  "\<exists>evs e. demo_run CancelOldest twin_stops = Inr (evs, e) \<and>
     map fills_in evs = [[], [], [], [(3, 4, 103, 2), (3, 2, 103, 5)]] \<and> map o_id (ladder Bid e) = [1]"
proof -
  have "returns (demo_run CancelOldest twin_stops) (\<lambda>(evs, e).
     map fills_in evs = [[], [], [], [(3, 4, 103, 2), (3, 2, 103, 5)]] \<and> map o_id (ladder Bid e) = [1])" by code_simp
  then show ?thesis unfolding returns_tuple by auto
qed

text \<open>The same, and then two fill-or-kill orders: the first finds too little, the second is let through by
  the trades of the past and is filled in part.\<close>

definition busy_session :: "command list" where
  "busy_session = twin_stops @ [plain 5 Ask 104 2 Limit GTC, plain 6 Ask 103 6 Limit FOK, plain 7 Bid 104 8 Limit FOK]"

lemma busy_session_run:
  "\<exists>evs e. demo_run CancelOldest busy_session = Inr (evs, e) \<and>
     map fills_in evs = [[], [], [], [(3, 4, 103, 2), (3, 2, 103, 5)], [], [], [(5, 7, 104, 2)]]"
proof -
  have "returns (demo_run CancelOldest busy_session) (\<lambda>(evs, e).
     map fills_in evs = [[], [], [], [(3, 4, 103, 2), (3, 2, 103, 5)], [], [], [(5, 7, 104, 2)]])" by code_simp
  then show ?thesis unfolding returns_tuple by auto
qed

lemma busy_session_fits: "\<forall>c \<in> set busy_session. plain_command (price_in_window (demo_config mode)) c"
  by (simp add: busy_session_def twin_stops_def plain_def price_in_window_def demo_config_def u64_max_def)

text \<open>A session on which the code is by the design: two self-trade groups, a trade, an immediate order, a
  cancellation; and one with modified orders.\<close>

definition grouped_session :: "command list" where
  "grouped_session = [NewOrder 1 1 Ask 103 5 Limit GTC None None (Some 7), plain 2 Ask 103 6 Limit GTC,
     NewOrder 3 1 Bid 104 8 Limit GTC None None (Some 7), plain 4 Ask 102 9 Limit IOC, CancelOrder 3]"

definition modified_session :: "command list" where
  "modified_session = demo_session @ [ModifyOrder 3 103 7, plain 4 Ask 102 3 PostOnly GTC, plain 5 Ask 0 1 Market GTC]"

lemma designed_session_runs:
  "\<exists>evs e. demo_run CancelOldest grouped_session = Inr (evs, e) \<and>
     map fills_in evs = [[], [], [(2, 3, 103, 6)], [(3, 4, 104, 2)], []]"
  "\<exists>evs e. demo_run CancelOldest modified_session = Inr (evs, e) \<and>
     map fills_in evs = [[], [(1, 2, 103, 4)], [], [(1, 3, 103, 6)], [], [(3, 5, 103, 1)]]"
proof -
  have "returns (demo_run CancelOldest grouped_session) (\<lambda>(evs, e).
     map fills_in evs = [[], [], [(2, 3, 103, 6)], [(3, 4, 104, 2)], []])" by code_simp
  then show "\<exists>evs e. demo_run CancelOldest grouped_session = Inr (evs, e) \<and>
     map fills_in evs = [[], [], [(2, 3, 103, 6)], [(3, 4, 104, 2)], []]" unfolding returns_tuple by auto
  have "returns (demo_run CancelOldest modified_session) (\<lambda>(evs, e).
     map fills_in evs = [[], [(1, 2, 103, 4)], [], [(1, 3, 103, 6)], [], [(3, 5, 103, 1)]])" by code_simp
  then show "\<exists>evs e. demo_run CancelOldest modified_session = Inr (evs, e) \<and>
     map fills_in evs = [[], [(1, 2, 103, 4)], [], [(1, 3, 103, 6)], [], [(3, 5, 103, 1)]]" unfolding returns_tuple by auto
qed

lemma designed_sessions_fit:
  "\<forall>c \<in> set grouped_session. plain_command (price_in_window (demo_config mode)) c"
  "\<forall>c \<in> set modified_session. plain_command (price_in_window (demo_config mode)) c"
  by (simp_all add: grouped_session_def modified_session_def demo_session_def plain_def price_in_window_def demo_config_def u64_max_def)

lemma designed_sessions: "by_the_design CancelOldest grouped_session" "by_the_design CancelOldest modified_session"
  by (simp_all add: by_the_design_def grouped_session_def modified_session_def demo_session_def plain_def)

text \<open>C3: the engine refines the reference exchange. A reference exchange is two lists of resting orders in
  priority order, two queues of waiting stops, the price of the last trade and what has traded so far, and
  the reference commands are a few lines on them. Over any session of new orders of every type and every
  time in force, cancellations and modifications, in every mode of self-trade prevention, at any capacity,
  as long as every price but a market order's lies in the dense window and fits in 64 bits and every
  post-only order has a quantity, the fills the engine reports command by command, the book, the waiting
  stops and the last price it ends with are those of the reference.

  Where the code departs from the design documents the reference says what the code does: a fill-or-kill
  order is let through when what rests and what has ever traded at acceptable prices suffice
  (\<open>fill_or_kill_partially_filled\<close>), of two stops at one price the later triggers first
  (\<open>later_stop_triggers_first\<close>), an iceberg keeps its place (\<open>iceberg_keeps_its_place\<close>), in the mode
  \<open>CancelNewest\<close> the remainder can rest (\<open>cancel_newest_crosses_the_book\<close>), a post-only order rests whatever
  its time in force, and a modified order leaves its group. The last conjunct says that these are all the
  departures: on a session without icebergs, stops, fill-or-kill orders, post-only orders that are not good
  till cancelled, groups in the mode \<open>CancelNewest\<close>, and modifications beside groups, the fills and the book
  are those of the exchange of the design documents (\<open>design_run\<close>).\<close>

theorem engine_refines_reference:
  assumes "capacity \<le> u32_max" "\<forall>c \<in> set cs. plain_command (price_in_window cfg) c"
  shows "yields (run_engine cfg capacity cs) (\<lambda>(evs, e).
    case ref_run (cfg_stp_mode cfg) capacity cs empty_exchange of (fss, X) \<Rightarrow>
      fss = map fills_in evs \<and> ex_book X = lob_of e \<and> ex_buys X = stop_bids e \<and> ex_sells X = stop_asks e \<and>
      ex_last X = last_trade_price e \<and>
      (by_the_design (cfg_stp_mode cfg) cs \<longrightarrow>
         design_run (cfg_stp_mode cfg) capacity cs \<lparr>lob_bids = [], lob_asks = []\<rparr> = (map fills_in evs, lob_of e)))"
  by (rule yields_mono [OF run_engine_tracks [OF assms]]) (auto simp: exchange_of_def dest: by_the_design_run)

theorem engine_refines_reference_witness:
  "(\<exists>evs e. demo_run CancelOldest busy_session = Inr (evs, e) \<and>
     fst (ref_run CancelOldest 4 busy_session empty_exchange) =
       [[], [], [], [(3, 4, 103, 2), (3, 2, 103, 5)], [], [], [(5, 7, 104, 2)]] \<and>
     ex_book (snd (ref_run CancelOldest 4 busy_session empty_exchange)) = lob_of e) \<and>
   fst (design_run CancelOldest 4 grouped_session \<lparr>lob_bids = [], lob_asks = []\<rparr>) =
     [[], [], [(2, 3, 103, 6)], [(3, 4, 104, 2)], []] \<and>
   fst (design_run CancelOldest 4 modified_session \<lparr>lob_bids = [], lob_asks = []\<rparr>) =
     [[], [(1, 2, 103, 4)], [], [(1, 3, 103, 6)], [], [(3, 5, 103, 1)]]"
proof (intro conjI)
  obtain evs e where run: "demo_run CancelOldest busy_session = Inr (evs, e)"
    "map fills_in evs = [[], [], [], [(3, 4, 103, 2), (3, 2, 103, 5)], [], [], [(5, 7, 104, 2)]]"
    using busy_session_run by (elim exE conjE) (rule that)
  show "\<exists>evs e. demo_run CancelOldest busy_session = Inr (evs, e) \<and>
     fst (ref_run CancelOldest 4 busy_session empty_exchange) =
       [[], [], [], [(3, 4, 103, 2), (3, 2, 103, 5)], [], [], [(5, 7, 104, 2)]] \<and>
     ex_book (snd (ref_run CancelOldest 4 busy_session empty_exchange)) = lob_of e"
    using engine_refines_reference [OF demo_capacity busy_session_fits, of CancelOldest] run
    by (auto simp: demo_config_def split: prod.splits)
  obtain evs e where run: "demo_run CancelOldest grouped_session = Inr (evs, e)"
    "map fills_in evs = [[], [], [(2, 3, 103, 6)], [(3, 4, 104, 2)], []]"
    using designed_session_runs(1) by (elim exE conjE) (rule that)
  show "fst (design_run CancelOldest 4 grouped_session \<lparr>lob_bids = [], lob_asks = []\<rparr>) =
     [[], [], [(2, 3, 103, 6)], [(3, 4, 104, 2)], []]"
    using engine_refines_reference [OF demo_capacity designed_sessions_fit(1), of CancelOldest] designed_sessions(1) run
    by (simp add: demo_config_def split_beta)
  obtain evs e where run: "demo_run CancelOldest modified_session = Inr (evs, e)"
    "map fills_in evs = [[], [(1, 2, 103, 4)], [], [(1, 3, 103, 6)], [], [(3, 5, 103, 1)]]"
    using designed_session_runs(2) by (elim exE conjE) (rule that)
  show "fst (design_run CancelOldest 4 modified_session \<lparr>lob_bids = [], lob_asks = []\<rparr>) =
     [[], [(1, 2, 103, 4)], [], [(1, 3, 103, 6)], [], [(3, 5, 103, 1)]]"
    using engine_refines_reference [OF demo_capacity designed_sessions_fit(2), of CancelOldest] designed_sessions(2) run
    by (simp add: demo_config_def split_beta)
qed

text \<open>C5: price-time priority. In any engine reached with every price in the dense window (and a quantity
  for every post-only order), matching an order fills resting orders of the opposite side only at
  acceptable prices and for positive quantities, best price first; the makers are taken strictly in the
  order of the book (a maker may be left out only by self-trade prevention, none overtakes another), each
  trades at its own limit, a maker that is no iceberg in one fill, and what is left of the book is its
  tail: nothing behind an order that stays is touched. An iceberg trades slice after slice without giving
  up its place, against the design (\<open>iceberg_keeps_its_place\<close>); outside the window the best price need not
  come first (\<open>refresh_prefers_the_window\<close>).\<close>

theorem price_time_priority:
  assumes "run_engine cfg capacity cs = Inr (evs, e)" "capacity \<le> u32_max"
    "\<forall>c \<in> set cs. session_command True cfg c"
    "match_against_book tid sd px stp q e = Inr (c, r, e')"
  shows "\<exists>fs. fills_in (events e') = fills_in (events e) @ fs \<and>
    (\<forall>(maker, taker, p, n) \<in> set fs. taker = tid \<and> is_price_acceptable sd px p \<and> 0 < n \<and>
       (\<exists>x \<in> set (ladder (opposite sd) e). p = o_price x)) \<and>
    sorted_wrt (better (opposite sd)) (map (\<lambda>(maker, taker, p, n). p) fs) \<and>
    distinct (map o_id (ladder (opposite sd) e)) \<and>
    subseq (remdups_adj (map fst fs)) (map o_id (ladder (opposite sd) e)) \<and>
    suffix (map o_id (ladder (opposite sd) e')) (map o_id (ladder (opposite sd) e)) \<and>
    (\<forall>x \<in> set (ladder (opposite sd) e). o_order_type x \<noteq> Iceberg \<longrightarrow> count_list (map fst fs) (o_id x) \<le> 1)"
proof -
  obtain fs Q where fs: "fills_in (events e') = fills_in (events e) @ fs"
    "ref_match (cfg_stp_mode cfg) tid sd px stp q (ladder (opposite sd) e) = (fs, c, r, ladder (opposite sd) e')"
    and ok: "book_ok e Q"
    using session_match [OF assms] by metis
  let ?xs = "ladder (opposite sd) e" and ?m = "cfg_stp_mode cfg"
  have live: "\<forall>x \<in> set ?xs. 0 < remaining x" using ladder_live(1) [OF ok] by blast
  have "\<forall>(maker, taker, p, n) \<in> set fs. taker = tid \<and> is_price_acceptable sd px p \<and> 0 < n"
    using ref_match_fills [where mode = "cfg_stp_mode cfg" and tid = tid and sd = sd and px = px and stp = stp and rem = q and xs = "ladder (opposite sd) e"] live fs(2) by simp
  moreover have "sorted_wrt (better (opposite sd)) (map (\<lambda>(maker, taker, p, n). p) fs) \<and>
     (\<forall>(maker, taker, p, n) \<in> set fs. \<exists>x \<in> set ?xs. p = o_price x)"
    using ref_match_prices [where s = "opposite sd" and mode = "cfg_stp_mode cfg" and tid = tid and sd = sd and px = px and stp = stp and rem = q and xs = "ladder (opposite sd) e"] ladder_sorted [OF ok, of "opposite sd"] fs(2) by simp
  moreover have "subseq (remdups_adj (map fst fs)) (map o_id ?xs) \<and>
     suffix (map o_id (ladder (opposite sd) e')) (map o_id ?xs)"
    using ref_match_order [where mode = "cfg_stp_mode cfg" and tid = tid and sd = sd and px = px and stp = stp and rem = q and xs = "ladder (opposite sd) e"] fs(2) by simp
  moreover have "count_list (map fst fs) (o_id x) \<le> 1" if "x \<in> set ?xs" "o_order_type x \<noteq> Iceberg" for x
    using ref_match_once [where x = x and mode = "cfg_stp_mode cfg" and tid = tid and sd = sd and px = px and stp = stp and rem = q and xs = "ladder (opposite sd) e"]
      that ladder_distinct [OF ok, of "opposite sd"] fs(2) by simp
  ultimately show ?thesis
    using ladder_distinct [OF ok, of "opposite sd"] fs(1) by (intro exI [of _ fs]) fast
qed

definition demo_asks :: "command list" where
  "demo_asks = [plain 1 Ask 103 5 Limit GTC, plain 2 Ask 103 6 Limit GTC, plain 3 Ask 102 4 Limit GTC]"

lemma demo_asks_fit: "\<forall>c \<in> set demo_asks. session_command st (demo_config mode) c"
  by (simp add: demo_asks_def plain_def price_in_window_def demo_config_def)

lemma demo_asks_match:
  "\<exists>evs e e'. demo_run CancelOldest demo_asks = Inr (evs, e) \<and>
     match_against_book 9 Bid 103 None 12 e = Inr (False, 0, e') \<and>
     map o_id (ladder Ask e) = [3, 1, 2] \<and> map o_id (ladder Ask e') = [2] \<and> fills_in (events e) = [] \<and>
     fills_in (events e') = [(3, 9, 102, 4), (1, 9, 103, 5), (2, 9, 103, 3)] \<and>
     sum_list (map remaining (ladder Ask e)) = 15 \<and> lookup 3 (book e) \<noteq> None"
proof -
  have "returns (demo_run CancelOldest demo_asks) (\<lambda>(evs, e).
    returns (match_against_book 9 Bid 103 None 12 e) (\<lambda>(c, r, e'). \<not> c \<and> r = 0 \<and>
     map o_id (ladder Ask e) = [3, 1, 2] \<and> map o_id (ladder Ask e') = [2] \<and> fills_in (events e) = [] \<and>
     fills_in (events e') = [(3, 9, 102, 4), (1, 9, 103, 5), (2, 9, 103, 3)] \<and>
     sum_list (map remaining (ladder Ask e)) = 15 \<and> lookup 3 (book e) \<noteq> None))" by code_simp
  then show ?thesis unfolding returns_tuple by auto
qed

theorem price_time_priority_witness:
  "\<exists>evs e e' fs. demo_run CancelOldest demo_asks = Inr (evs, e) \<and>
     match_against_book 9 Bid 103 None 12 e = Inr (False, 0, e') \<and> fs = [(3, 9, 102, 4), (1, 9, 103, 5), (2, 9, 103, 3)] \<and>
     fills_in (events e') = fs \<and> subseq (remdups_adj (map fst fs)) (map o_id (ladder Ask e))"
proof -
  obtain evs e e' where d: "demo_run CancelOldest demo_asks = Inr (evs, e)"
    "match_against_book 9 Bid 103 None 12 e = Inr (False, 0, e')" "fills_in (events e) = []"
    "fills_in (events e') = [(3, 9, 102, 4), (1, 9, 103, 5), (2, 9, 103, 3)]" using demo_asks_match by auto
  then show ?thesis using price_time_priority [OF d(1) demo_capacity demo_asks_fit d(2)] by auto
qed

text \<open>A book whose first order is of the taker's group.\<close>

definition group_asks :: "command list" where
  "group_asks = [NewOrder 1 1 Ask 103 5 Limit GTC None None (Some 7), plain 2 Ask 103 6 Limit GTC]"

lemma group_asks_fit: "\<forall>c \<in> set group_asks. session_command st (demo_config mode) c"
  by (simp add: group_asks_def plain_def price_in_window_def demo_config_def)

lemma group_asks_match:
  "\<exists>evs e e'. demo_run CancelOldest group_asks = Inr (evs, e) \<and>
     match_against_book 9 Bid 103 (Some 7) 4 e = Inr (False, 0, e') \<and> fills_in (events e) = [] \<and>
     fills_in (events e') = [(2, 9, 103, 4)] \<and> map remaining (ladder Ask e) = [5, 6] \<and>
     withdrawn CancelOldest (Some 7) (ladder Ask e) (ladder Ask e') = 5"
proof -
  have "returns (demo_run CancelOldest group_asks) (\<lambda>(evs, e).
    returns (match_against_book 9 Bid 103 (Some 7) 4 e) (\<lambda>(c, r, e'). \<not> c \<and> r = 0 \<and> fills_in (events e) = [] \<and>
     fills_in (events e') = [(2, 9, 103, 4)] \<and> map remaining (ladder Ask e) = [5, 6] \<and>
     withdrawn CancelOldest (Some 7) (ladder Ask e) (ladder Ask e') = 5))" by code_simp
  then show ?thesis unfolding returns_tuple by auto
qed

text \<open>C6: quantity is conserved. In any engine reached with every price in the dense window (and a quantity
  for every post-only order), what a matching is asked for is what it trades, what is left of it, and an
  amount \<open>d\<close> which is 0 unless self-trade prevention cancelled the taker in the mode
  \<open>DecrementAndCancel\<close>; and what rested on the opposite side before is what traded, \<open>d\<close> again, the
  orders of the taker's own group that are gone (in the modes \<open>CancelOldest\<close> and \<open>CancelBoth\<close>;
  nothing in the others), and what rests now. A taker without a group is never cancelled, so it takes from
  the book just what it trades.\<close>

theorem matching_conserves_quantity:
  assumes "run_engine cfg capacity cs = Inr (evs, e)" "capacity \<le> u32_max"
    "\<forall>c \<in> set cs. session_command True cfg c"
    "match_against_book tid sd px stp q e = Inr (c, r, e')"
  shows "\<exists>fs d. fills_in (events e') = fills_in (events e) @ fs \<and> traded fs + r + d = q \<and>
    (d \<noteq> 0 \<longrightarrow> c \<and> cfg_stp_mode cfg = DecrementAndCancel) \<and> (stp = None \<longrightarrow> \<not> c) \<and>
    traded fs + d + withdrawn (cfg_stp_mode cfg) stp (ladder (opposite sd) e) (ladder (opposite sd) e') +
      sum_list (map remaining (ladder (opposite sd) e')) = sum_list (map remaining (ladder (opposite sd) e))"
proof -
  obtain fs Q where fs: "fills_in (events e') = fills_in (events e) @ fs"
    "ref_match (cfg_stp_mode cfg) tid sd px stp q (ladder (opposite sd) e) = (fs, c, r, ladder (opposite sd) e')"
    and ok: "book_ok e Q"
    using session_match [OF assms] by metis
  have "balanced (cfg_stp_mode cfg) stp q (ladder (opposite sd) e) (fs, c, r, ladder (opposite sd) e')"
    using ref_match_balanced [where mode = "cfg_stp_mode cfg" and tid = tid and sd = sd and px = px and stp = stp and rem = q and xs = "ladder (opposite sd) e"]
      ladder_distinct [OF ok, of "opposite sd"] fs(2) by simp
  then show ?thesis unfolding balanced_def prod.case using fs(1) by blast
qed

theorem matching_conserves_quantity_witness:
  "\<exists>evs e e'. demo_run CancelOldest group_asks = Inr (evs, e) \<and>
     match_against_book 9 Bid 103 (Some 7) 4 e = Inr (False, 0, e') \<and> fills_in (events e') = [(2, 9, 103, 4)] \<and>
     4 + 5 + sum_list (map remaining (ladder Ask e')) = 5 + 6"
proof -
  obtain evs e e' where d: "demo_run CancelOldest group_asks = Inr (evs, e)"
    "match_against_book 9 Bid 103 (Some 7) 4 e = Inr (False, 0, e')" "fills_in (events e) = []"
    "fills_in (events e') = [(2, 9, 103, 4)]" "map remaining (ladder Ask e) = [5, 6]"
    "withdrawn CancelOldest (Some 7) (ladder Ask e) (ladder Ask e') = 5"
    using group_asks_match by (elim exE conjE) (rule that)
  show ?thesis using matching_conserves_quantity [OF d(1) demo_capacity group_asks_fit d(2)] d
    by (auto simp: demo_config_def)
qed

text \<open>C7: matching stops for a reason. In any engine reached with every price in the dense window (and a
  quantity for every post-only order), when the loop returns either self-trade prevention cancelled the
  taker, or it is filled, or no order left on the opposite side has a price acceptable to it; except in the
  mode \<open>CancelNewest\<close> for a taker with a group, where the loop ends at the first order of its group with
  acceptable orders left (\<open>cancel_newest_crosses_the_book\<close> is such a run).\<close>

theorem matching_exhausts:
  assumes "run_engine cfg capacity cs = Inr (evs, e)" "capacity \<le> u32_max"
    "\<forall>c \<in> set cs. session_command True cfg c"
    "match_against_book tid sd px stp q e = Inr (c, r, e')"
  shows "c \<or> r = 0 \<or> (cfg_stp_mode cfg = CancelNewest \<and> stp \<noteq> None) \<or>
    (\<forall>x \<in> set (ladder (opposite sd) e'). \<not> is_price_acceptable sd px (o_price x))"
proof -
  obtain fs Q' where fs: "ref_match (cfg_stp_mode cfg) tid sd px stp q (ladder (opposite sd) e) =
      (fs, c, r, ladder (opposite sd) e')" and ok: "sim e' Q'"
    using session_match [OF assms] by metis
  let ?ys = "ladder (opposite sd) e'"
  have sorted: "sorted_wrt (\<lambda>x y. better (opposite sd) (o_price x) (o_price y)) ?ys"
    using ladder_sorted [of e' Q'] ok by (simp add: sim_def)
  have "\<forall>x \<in> set ?ys. \<not> is_price_acceptable sd px (o_price x)"
    if "case ?ys of [] \<Rightarrow> True | y # _ \<Rightarrow> \<not> is_price_acceptable sd px (o_price y)"
    using that sorted by (cases ?ys; cases sd) (auto simp: is_price_acceptable_def better_def)
  then show ?thesis using ref_match_end [where mode = "cfg_stp_mode cfg" and tid = tid and sd = sd and px = px and stp = stp and rem = q and xs = "ladder (opposite sd) e"] fs by auto
qed

lemma demo_asks_run_out:
  "\<exists>evs e e'. demo_run CancelOldest demo_asks = Inr (evs, e) \<and>
     match_against_book 9 Bid 102 None 12 e = Inr (False, 8, e')"
proof -
  have "returns (demo_run CancelOldest demo_asks) (\<lambda>(evs, e).
    returns (match_against_book 9 Bid 102 None 12 e) (\<lambda>(c, r, e'). \<not> c \<and> r = 8))" by code_simp
  then show ?thesis unfolding returns_tuple by auto
qed

theorem matching_exhausts_witness:
  "\<exists>evs e e'. demo_run CancelOldest demo_asks = Inr (evs, e) \<and>
     match_against_book 9 Bid 102 None 12 e = Inr (False, 8, e') \<and> (\<forall>x \<in> set (ladder Ask e'). 102 < o_price x)"
proof -
  obtain evs e e' where d: "demo_run CancelOldest demo_asks = Inr (evs, e)"
    "match_against_book 9 Bid 102 None 12 e = Inr (False, 8, e')" using demo_asks_run_out by auto
  then show ?thesis using matching_exhausts [OF d(1) demo_capacity demo_asks_fit d(2)]
    by (auto simp: is_price_acceptable_def not_le)
qed

text \<open>C8: the book an engine shows is exact. In any reachable engine an id looks up to a slot just when
  an order with that id rests there; the queue at a price (from the level, through the links) holds
  every order resting at that side and price once; and the quantity of the level is the sum of what is
  left of them.\<close>

theorem book_observers_exact:
  assumes "run_engine cfg capacity cs = Inr (evs, e)" "capacity \<le> u32_max"
    "\<forall>c \<in> set cs. session_command False cfg c"
  shows "(\<forall>oid i. lookup oid (book e) = Some i \<longleftrightarrow> (\<exists>ord. heap_of (eng_arena e) i = Some ord \<and> o_id ord = oid)) \<and>
    (\<forall>s p. distinct (queue_at s p (book e) (eng_arena e)) \<and>
       set (queue_at s p (book e) (eng_arena e)) =
         {i. \<exists>ord. heap_of (eng_arena e) i = Some ord \<and> o_side ord = s \<and> o_price ord = p} \<and>
       get_level_qty s p (book e) =
         Inr (sum_list (map (\<lambda>i. remaining (the (heap_of (eng_arena e) i))) (queue_at s p (book e) (eng_arena e)))))"
proof -
  obtain Q where ok: "book_ok e Q" using session_book_ok [OF assms] by blast
  note rel = book_okD(1) [OF ok] and members = ok_queue_members [OF ok]
  have "sum_rem (heap_of (eng_arena e)) (Q s p) = sum_list (map (\<lambda>i. remaining (the (heap_of (eng_arena e) i))) (Q s p))" for s p
    unfolding sum_rem_def rem_at_def by (rule arg_cong [where f = sum_list]) (use members in \<open>auto split: option.splits\<close>)
  moreover have "distinct (Q s p)" for s p
    using side_relD(3) [OF book_relD(2) [OF rel, of s], of p] by (simp add: queue_ok_def)
  moreover have "lookup oid (book e) = Some i \<longleftrightarrow> (\<exists>ord. heap_of (eng_arena e) i = Some ord \<and> o_id ord = oid)" for oid i
    using book_relD(4) [OF rel] by (simp add: lookup_def)
  ultimately show ?thesis unfolding ok_queue_at [OF ok] get_level_qty_ok [OF rel] using members by auto
qed

theorem book_observers_exact_witness:
  "\<exists>evs e. demo_run CancelOldest demo_asks = Inr (evs, e) \<and>
     get_level_qty Ask 103 (book e) =
       Inr (sum_list (map (\<lambda>i. remaining (the (heap_of (eng_arena e) i))) (queue_at Ask 103 (book e) (eng_arena e))))"
proof -
  obtain evs e where d: "demo_run CancelOldest demo_asks = Inr (evs, e)" using demo_asks_match by auto
  then show ?thesis using book_observers_exact [OF d demo_capacity demo_asks_fit] by auto
qed

text \<open>C9: the best prices. In any reachable engine a side has no best price just when nothing rests on
  it; otherwise some order rests at the best price, and no order inside the dense window is better (an
  order outside it may be: see the finding on the refresh).\<close>

theorem best_price_exact:
  assumes "run_engine cfg capacity cs = Inr (evs, e)" "capacity \<le> u32_max"
    "\<forall>c \<in> set cs. session_command False cfg c"
  shows "\<forall>s. case (case s of Bid \<Rightarrow> best_bid (book e) | Ask \<Rightarrow> best_ask (book e)) of
      None \<Rightarrow> \<forall>i ord. heap_of (eng_arena e) i = Some ord \<longrightarrow> o_side ord \<noteq> s
    | Some b \<Rightarrow> (\<exists>i ord. heap_of (eng_arena e) i = Some ord \<and> o_side ord = s \<and> o_price ord = b) \<and>
        (\<forall>i ord. heap_of (eng_arena e) i = Some ord \<longrightarrow> o_side ord = s \<longrightarrow> in_window (book e) (o_price ord) \<longrightarrow>
           better s b (o_price ord))"
proof
  fix s
  obtain Q where ok: "book_ok e Q" using session_book_ok [OF assms] by blast
  have "(case s of Bid \<Rightarrow> best_bid (book e) | Ask \<Rightarrow> best_ask (book e)) = v_best (view s (book e))"
    by (cases s) (simp_all add: best_bid_def best_ask_def)
  then show "case (case s of Bid \<Rightarrow> best_bid (book e) | Ask \<Rightarrow> best_ask (book e)) of
      None \<Rightarrow> \<forall>i ord. heap_of (eng_arena e) i = Some ord \<longrightarrow> o_side ord \<noteq> s
    | Some b \<Rightarrow> (\<exists>i ord. heap_of (eng_arena e) i = Some ord \<and> o_side ord = s \<and> o_price ord = b) \<and>
        (\<forall>i ord. heap_of (eng_arena e) i = Some ord \<longrightarrow> o_side ord = s \<longrightarrow> in_window (book e) (o_price ord) \<longrightarrow>
           better s b (o_price ord))"
    using ok_best [OF ok, of s] by simp
qed

theorem best_price_exact_witness:
  "\<exists>evs e. demo_run CancelOldest demo_session = Inr (evs, e) \<and> best_bid (book e) = Some 102 \<and>
     (\<exists>i ord. heap_of (eng_arena e) i = Some ord \<and> o_side ord = Bid \<and> o_price ord = 102)"
proof -
  obtain evs e where d: "demo_run CancelOldest demo_session = Inr (evs, e)" "best_bid (book e) = Some 102"
    using demo_session_run by auto
  have "(\<exists>i ord. heap_of (eng_arena e) i = Some ord \<and> o_side ord = Bid \<and> o_price ord = 102)"
    using spec [OF best_price_exact [OF d(1) demo_capacity demo_session_fits], of Bid] d(2) by auto
  then show ?thesis using d by blast
qed

text \<open>C10: first in, first out. Resting an order in any reachable engine either changes nothing, because
  its id is in use or the store is full, or puts it in a free slot at the tail of the queue of its price,
  as it was given and with nothing filled; every other queue is as before, and so is every other order.
  It cannot fail but for want of a machine resource.\<close>

theorem resting_joins_the_tail:
  assumes "run_engine cfg capacity cs = Inr (evs, e)" "capacity \<le> u32_max"
    "\<forall>c \<in> set cs. session_command False cfg c" "0 < q"
  shows "yields (eng_insert oid s p q ot vis stp e) (\<lambda>e'.
    if lookup oid (book e) \<noteq> None \<or> a_len (eng_arena e) = a_capacity (eng_arena e) then e' = e
    else \<exists>i. heap_of (eng_arena e) i = None \<and>
      (\<forall>s' p'. queue_at s' p' (book e') (eng_arena e') =
         queue_at s' p' (book e) (eng_arena e) @ (if s' = s \<and> p' = p then [i] else [])) \<and>
      core_heap (heap_of (eng_arena e')) =
        (core_heap (heap_of (eng_arena e)))(i \<mapsto> core (new_order_record oid s p q ot vis stp)))"
proof -
  obtain Q where ok: "book_ok e Q" using session_book_ok [OF assms(1-3)] by blast
  show ?thesis
  proof (rule yields_mono [OF eng_insert_spec [OF ok assms(4)]])
    fix e' assume run: "eng_insert oid s p q ot vis stp e = Inr e'" and "rested oid s p q ot vis stp Q e e'"
    then consider "e' = e" "lookup oid (book e) \<noteq> None \<or> a_len (eng_arena e) = a_capacity (eng_arena e)"
      | i b ar where "e' = e\<lparr>book := b, eng_arena := ar\<rparr>" "lookup oid (book e) = None"
        "heap_of (eng_arena e) i = None" "book_ok e' (upd_queue Q s p (Q s p @ [i]))"
        "core_heap (heap_of ar) = (core_heap (heap_of (eng_arena e)))(i \<mapsto> core (new_order_record oid s p q ot vis stp))"
      unfolding rested_def lookup_def by blast
    then show "if lookup oid (book e) \<noteq> None \<or> a_len (eng_arena e) = a_capacity (eng_arena e) then e' = e
      else \<exists>i. heap_of (eng_arena e) i = None \<and>
        (\<forall>s' p'. queue_at s' p' (book e') (eng_arena e') =
           queue_at s' p' (book e) (eng_arena e) @ (if s' = s \<and> p' = p then [i] else [])) \<and>
        core_heap (heap_of (eng_arena e')) =
          (core_heap (heap_of (eng_arena e)))(i \<mapsto> core (new_order_record oid s p q ot vis stp))"
    proof cases
      case 1
      then show ?thesis by simp
    next
      case 2
      have "a_len (eng_arena e) \<noteq> a_capacity (eng_arena e)"
        by (rule room_for_one [OF ok 2(4) eng_insert_setting [OF run] 2(3)]) (use 2(1,5) in simp)
      then show ?thesis using 2 ok_queue_at [OF ok] ok_queue_at [OF 2(4)] by auto
    qed
  qed
qed


lemma demo_run_returns: "\<exists>evs e. demo_run CancelOldest demo_asks = Inr (evs, e)"
  using demo_asks_match by blast

theorem resting_joins_the_tail_witness:
  "\<exists>evs e. demo_run CancelOldest demo_asks = Inr (evs, e) \<and>
     yields (eng_insert 4 Ask 103 7 Limit None None e) (\<lambda>e'.
       if lookup 4 (book e) \<noteq> None \<or> a_len (eng_arena e) = a_capacity (eng_arena e) then e' = e
       else \<exists>i. queue_at Ask 103 (book e') (eng_arena e') = queue_at Ask 103 (book e) (eng_arena e) @ [i])"
proof -
  obtain evs e where d: "demo_run CancelOldest demo_asks = Inr (evs, e)" using demo_run_returns by blast
  have "0 < (7 :: nat)" by simp
  from resting_joins_the_tail [OF d demo_capacity demo_asks_fit this, of 4 Ask 103 Limit None None]
  have "yields (eng_insert 4 Ask 103 7 Limit None None e) (\<lambda>e'.
       if lookup 4 (book e) \<noteq> None \<or> a_len (eng_arena e) = a_capacity (eng_arena e) then e' = e
       else \<exists>i. queue_at Ask 103 (book e') (eng_arena e') = queue_at Ask 103 (book e) (eng_arena e) @ [i])"
    by (rule yields_mono) (auto split: if_splits)
  then show ?thesis using d by blast
qed

text \<open>C11: cancellation is exact. In any reachable engine, cancelling a resting order removes it and
  nothing else: it leaves the queue of its price, every other queue and order is as before, its id is
  free, and the two events report what was left of it and the new quantity of its level.\<close>

theorem cancel_removes_exactly:
  assumes "run_engine cfg capacity cs = Inr (evs, e)" "capacity \<le> u32_max"
    "\<forall>c \<in> set cs. session_command False cfg c" "heap_of (eng_arena e) i = Some ord"
  shows "yields (process_cancel (o_id ord) e) (\<lambda>e'.
    lookup (o_id ord) (book e') = None \<and>
    core_heap (heap_of (eng_arena e')) = (core_heap (heap_of (eng_arena e)))(i := None) \<and>
    (\<forall>s p. queue_at s p (book e') (eng_arena e') = remove1 i (queue_at s p (book e) (eng_arena e))) \<and>
    (\<exists>m n total. events e' = events e @ [OrderCancelled m (o_id ord) (remaining ord),
       BookUpdate n (o_side ord) (o_price ord) total] \<and>
       total + remaining ord = projr (get_level_qty (o_side ord) (o_price ord) (book e))))"
proof -
  obtain Q where ok: "book_ok e Q" using session_book_ok [OF assms(1-3)] by blast
  show ?thesis
  proof (rule yields_mono [OF cancel_resting [OF ok assms(4)]], elim conjE exE)
    fix e' m n
    let ?q = "Q (o_side ord) (o_price ord)"
    assume rm: "removed i ord Q e e'" and ev: "events e' = events e @ [OrderCancelled m (o_id ord) (remaining ord),
       BookUpdate n (o_side ord) (o_price ord) (sum_rem (heap_of (eng_arena e')) (remove1 i ?q))]"
    have ok': "book_ok e' (upd_queue Q (o_side ord) (o_price ord) (remove1 i ?q))"
      and core: "core_heap (heap_of (eng_arena e')) = (core_heap (heap_of (eng_arena e)))(i := None)"
      using rm by (simp_all add: removed_def)
    have i: "i \<in> set ?q" "distinct ?q"
      using ok_queue_members [OF ok, of i] assms(4) side_relD(3) [OF book_relD(2) [OF book_okD(1) [OF ok], of "o_side ord"], of "o_price ord"]
      by (auto simp: queue_ok_def)
    have "sum_rem (heap_of (eng_arena e')) (remove1 i ?q) = sum_rem (heap_of (eng_arena e)) (remove1 i ?q)"
      using core i by (intro sum_rem_core) auto
    then have total: "sum_rem (heap_of (eng_arena e')) (remove1 i ?q) + remaining ord = sum_rem (heap_of (eng_arena e)) ?q"
      using i(1) assms(4) sum_list_map_remove1 [of i ?q "rem_at (heap_of (eng_arena e))"] by (simp add: sum_rem_def rem_at_def)
    have others: "i \<notin> set (Q s p)" if "s \<noteq> o_side ord \<or> p \<noteq> o_price ord" for s p
      using ok_queue_members [OF ok, of i s p] assms(4) that by auto
    have "lookup (o_id ord) (book e') = None"
    proof (rule ccontr)
      assume "lookup (o_id ord) (book e') \<noteq> None"
      then obtain j where "order_index (book e') (o_id ord) = Some j" by (auto simp: lookup_def)
      then obtain a where a: "heap_of (eng_arena e') j = Some a" "o_id a = o_id ord"
        using book_relD(4) [OF book_okD(1) [OF ok']] by blast
      then have "core_heap (heap_of (eng_arena e')) j = Some (core a)" by (simp add: core_heap_Some)
      then obtain b where b: "heap_of (eng_arena e) j = Some b" "core b = core a" "j \<noteq> i"
        unfolding core by (auto simp: core_heap_Some split: if_splits)
      then have "order_index (book e) (o_id ord) = Some j"
        using book_relD(4) [OF book_okD(1) [OF ok]] a(2) core_eqD(1) by metis
      then show False using book_relD(4) [OF book_okD(1) [OF ok], of "o_id ord" i] assms(4) b(3) by auto
    qed
    then show "lookup (o_id ord) (book e') = None \<and>
      core_heap (heap_of (eng_arena e')) = (core_heap (heap_of (eng_arena e)))(i := None) \<and>
      (\<forall>s p. queue_at s p (book e') (eng_arena e') = remove1 i (queue_at s p (book e) (eng_arena e))) \<and>
      (\<exists>m n total. events e' = events e @ [OrderCancelled m (o_id ord) (remaining ord),
         BookUpdate n (o_side ord) (o_price ord) total] \<and>
         total + remaining ord = projr (get_level_qty (o_side ord) (o_price ord) (book e)))"
      using core ev total others ok_queue_at [OF ok] ok_queue_at [OF ok'] get_level_qty_ok [OF book_okD(1) [OF ok]]
      by (auto simp: remove1_idem)
  qed
qed

theorem cancel_removes_exactly_witness:
  "\<exists>evs e i ord. demo_run CancelOldest demo_asks = Inr (evs, e) \<and>
     heap_of (eng_arena e) i = Some ord \<and> o_id ord = 3 \<and>
     yields (process_cancel 3 e) (\<lambda>e'. lookup 3 (book e') = None \<and>
       (\<forall>s p. queue_at s p (book e') (eng_arena e') = remove1 i (queue_at s p (book e) (eng_arena e))))"
proof -
  obtain evs e where d: "demo_run CancelOldest demo_asks = Inr (evs, e)" "lookup 3 (book e) \<noteq> None"
    using demo_asks_match by blast
  obtain Q where ok: "book_ok e Q" using session_book_ok [OF d(1) demo_capacity demo_asks_fit] by blast
  obtain i ord where ord: "heap_of (eng_arena e) i = Some ord" "o_id ord = 3"
    using d(2) book_relD(4) [OF book_okD(1) [OF ok], of 3] by (auto simp: lookup_def)
  have "yields (process_cancel 3 e) (\<lambda>e'. lookup 3 (book e') = None \<and>
       (\<forall>s p. queue_at s p (book e') (eng_arena e') = remove1 i (queue_at s p (book e) (eng_arena e))))"
    by (rule yields_mono [OF cancel_removes_exactly [OF d(1) demo_capacity demo_asks_fit ord(1), unfolded ord(2)]]) blast
  then show ?thesis using d(1) ord by blast
qed

text \<open>C13: the events of a call are numbered without gaps. From any engine state, a call that returns
  has emitted at most \<open>MAX_EVENTS_PER_CALL\<close> events, carrying consecutive sequence numbers and logical
  times that follow those of the calls before, and the engine's two counters count just these.\<close>

theorem events_numbered:
  assumes "process c e = Inr e'"
  shows "length (events e') \<le> MAX_EVENTS_PER_CALL \<and>
    map meta_of (events e') = map (\<lambda>k. \<lparr>m_sequence = sequence e + k, m_timestamp_ns = timestamp_ns e + k\<rparr>) [1..<length (events e') + 1] \<and>
    sequence e' = sequence e + length (events e') \<and> timestamp_ns e' = timestamp_ns e + length (events e')"
  using log.entry_point [OF assms] by (auto simp: logged_def)

theorem events_numbered_witness:
  "\<exists>evs e e'. demo_run CancelOldest demo_asks = Inr (evs, e) \<and> process (plain 9 Bid 103 12 Limit GTC) e = Inr e' \<and>
     length (events e') = 7 \<and> sequence e' = sequence e + 7"
proof -
  have "returns (demo_run CancelOldest demo_asks) (\<lambda>(evs, e).
      returns (process (plain 9 Bid 103 12 Limit GTC) e) (\<lambda>e'. length (events e') = 7))" by code_simp
  then obtain evs e e' where d: "demo_run CancelOldest demo_asks = Inr (evs, e)"
    "process (plain 9 Bid 103 12 Limit GTC) e = Inr e'" "length (events e') = 7"
    unfolding returns_tuple by (auto simp: returns_iff)
  then show ?thesis using events_numbered [OF d(2)] by auto
qed

text \<open>C14: no stop is left behind. Whatever a new engine has processed, when a call returns its stop
  queues are sorted by trigger price, and no queued stop is triggered by the last traded price: every
  buy stop lies above it and every sell stop below.\<close>

theorem stops_never_left_triggered:
  assumes "run_engine cfg capacity cs = Inr (evs, e)"
  shows "sorted_wrt (\<le>) (map fst (stop_bids e)) \<and> sorted_wrt (\<ge>) (map fst (stop_asks e)) \<and>
    (\<forall>p. last_trade_price e = Some p \<longrightarrow>
       (\<forall>(px, entry) \<in> set (stop_bids e). p < px) \<and> (\<forall>(px, entry) \<in> set (stop_asks e). px < p))"
proof -
  obtain e0 where e0: "engine_new cfg capacity = Inr e0" "process_all cs e0 = Inr (evs, e)"
    using assms by (auto simp: run_engine_def rbind_eq_Inr)
  have "stop_bids e0 = []" "stop_asks e0 = []" "last_trade_price e0 = None"
    using e0(1) by (auto simp: engine_new_def rbind_eq_Inr)
  then have "stops_sorted e0" "stops_idle e0"
    by (simp_all add: stops_sorted_def bids_sorted_def asks_sorted_def stops_idle_def)
  from process_all_stops [OF e0(2) this] show ?thesis
    by (auto simp: stops_sorted_def bids_sorted_def asks_sorted_def stops_idle_def split: option.splits)
qed

definition demo_stops :: "command list" where
  "demo_stops = [NewOrder 1 1 Bid 104 5 StopLimit GTC None (Some 103) None,
     NewOrder 2 1 Bid 105 5 StopLimit GTC None (Some 105) None,
     plain 3 Ask 103 9 Limit GTC, plain 4 Bid 103 2 Limit GTC]"

theorem stops_never_left_triggered_witness:
  "\<exists>evs e. demo_run CancelOldest demo_stops = Inr (evs, e) \<and> last_trade_price e = Some 103 \<and>
     map fst (stop_bids e) = [105] \<and> (\<forall>(px, entry) \<in> set (stop_bids e). 103 < px)"
proof -
  have "returns (demo_run CancelOldest demo_stops)
      (\<lambda>(evs, e). last_trade_price e = Some 103 \<and> map fst (stop_bids e) = [105])" by code_simp
  then obtain evs e where d: "demo_run CancelOldest demo_stops = Inr (evs, e)" "last_trade_price e = Some 103"
    "map fst (stop_bids e) = [105]" unfolding returns_tuple by auto
  then show ?thesis using stops_never_left_triggered [OF d(1)] by auto
qed

text \<open>C15: a fill-or-kill order is never killed while it could be filled. In any reachable engine the
  check that rejects it answers, and if it rejects, less than the order's quantity rests on the other side
  at prices it accepts; the rejection then changes neither the book nor any order. (The converse
  fails, see the theorem on the depth index.)\<close>

theorem fill_or_kill_sound:
  assumes "run_engine cfg capacity cs = Inr (evs, e)" "capacity \<le> u32_max"
    "\<forall>c \<in> set cs. session_command False cfg c"
  shows "yields (fok_short FOK sd px q e) (\<lambda>short.
    (short \<longrightarrow> resting_qty (opposite sd) (is_price_acceptable sd px) (eng_arena e) < q) \<and>
    (short \<and> 0 < q \<and> lookup oid (book e) = None \<longrightarrow>
       (\<forall>e'. process_new_order oid sd px q Limit FOK vis stop stp e = Inr e' \<longrightarrow>
          book e' = book e \<and> eng_arena e' = eng_arena e \<and>
          (\<exists>m. events e' = events e @ [OrderRejected m oid InsufficientLiquidity]))))"
proof -
  obtain Q where ok: "book_ok e Q" using session_book_ok [OF assms] by blast
  show ?thesis
  proof (rule yields_mono [OF fok_short_yields [OF ok]])
    fix short assume run: "fok_short FOK sd px q e = Inr short"
      and short: "short \<longrightarrow> FOK = FOK \<and> resting_qty (opposite sd) (is_price_acceptable sd px) (eng_arena e) < q"
    then show "(short \<longrightarrow> resting_qty (opposite sd) (is_price_acceptable sd px) (eng_arena e) < q) \<and>
      (short \<and> 0 < q \<and> lookup oid (book e) = None \<longrightarrow>
         (\<forall>e'. process_new_order oid sd px q Limit FOK vis stop stp e = Inr e' \<longrightarrow>
            book e' = book e \<and> eng_arena e' = eng_arena e \<and>
            (\<exists>m. events e' = events e @ [OrderRejected m oid InsufficientLiquidity])))"
      by (auto simp: process_new_order_def effective_price_def emit_rejected_def emit_Inr)
  qed
qed

theorem fill_or_kill_sound_witness:
  "\<exists>evs e. demo_run CancelOldest demo_asks = Inr (evs, e) \<and> fok_short FOK Bid 103 16 e = Inr True \<and>
     resting_qty Ask (is_price_acceptable Bid 103) (eng_arena e) < 16"
proof -
  have "returns (demo_run CancelOldest demo_asks) (\<lambda>(evs, e). fok_short FOK Bid 103 16 e = Inr True)" by code_simp
  then obtain evs e where d: "demo_run CancelOldest demo_asks = Inr (evs, e)" "fok_short FOK Bid 103 16 e = Inr True"
    unfolding returns_tuple by auto
  then show ?thesis using fill_or_kill_sound [OF d(1) demo_capacity demo_asks_fit, of Bid 103 16] by auto
qed

text \<open>C16: market and immediate orders never rest. In any reachable engine, a new order whose id is free
  and which is a market order, or a limit or iceberg order with another time in force than
  good-till-cancelled, is not in the book when its handler returns, however much of it was filled. (Not so
  post-only orders: they rest whatever their time in force; and stops wait outside the book.)\<close>

theorem immediate_orders_never_rest:
  assumes "run_engine cfg capacity cs = Inr (evs, e)" "capacity \<le> u32_max"
    "\<forall>c \<in> set cs. session_command False cfg c" "lookup oid (book e) = None"
    "process_new_order oid s p q ot tif vis stop stp e = Inr e'"
    "ot \<noteq> PostOnly" "ot \<noteq> StopLimit" "ot = Market \<or> tif \<noteq> GTC"
  shows "lookup oid (book e') = None"
proof -
  obtain Q where ok: "book_ok e Q" using session_book_ok [OF assms(1-3)] by blast
  show ?thesis by (rule no_rest [OF ok assms(4-8)])
qed

theorem immediate_orders_never_rest_witness:
  "\<exists>evs e e'. demo_run CancelOldest demo_asks = Inr (evs, e) \<and>
     process_new_order 9 Bid 0 20 Market GTC None None None e = Inr e' \<and> lookup 9 (book e') = None"
proof -
  have "returns (demo_run CancelOldest demo_asks) (\<lambda>(evs, e). lookup 9 (book e) = None \<and>
      returns (process_new_order 9 Bid 0 20 Market GTC None None None e) (\<lambda>_. True))" by code_simp
  then obtain evs e e' where d: "demo_run CancelOldest demo_asks = Inr (evs, e)" "lookup 9 (book e) = None"
    "process_new_order 9 Bid 0 20 Market GTC None None None e = Inr e'"
    unfolding returns_tuple by (auto simp: returns_iff)
  then show ?thesis using immediate_orders_never_rest [OF d(1) demo_capacity demo_asks_fit d(2,3)] by auto
qed

definition stamp :: "nat \<Rightarrow> event_meta" where
  "stamp k = \<lparr>m_sequence = k, m_timestamp_ns = k\<rparr>"

text \<open>C17: the depth index over-counts, so a fill-or-kill order can be filled in part. Fills take
  quantity from the order and its level but never from the depth index. After a sell of 10 at 103 has
  traded 4, a fill-or-kill buy of 8 is accepted, gets the 6 that are left and has its last 2 cancelled.\<close>

theorem fill_or_kill_partially_filled:
  "\<exists>evs e. demo_run CancelOldest
     [plain 1 Ask 103 10 Limit GTC, plain 2 Bid 103 4 Limit GTC, plain 3 Bid 103 8 Limit FOK] = Inr (evs, e) \<and>
     last evs = [OrderAccepted (stamp 6) 3 Bid 103 8 Limit, FillEvent (stamp 7) 1 3 103 6 0 2,
       BookUpdate (stamp 8) Ask 103 0, OrderCancelled (stamp 9) 3 2]"
proof -
  have "returns (demo_run CancelOldest
     [plain 1 Ask 103 10 Limit GTC, plain 2 Bid 103 4 Limit GTC, plain 3 Bid 103 8 Limit FOK])
     (\<lambda>(evs, e). last evs = [OrderAccepted (stamp 6) 3 Bid 103 8 Limit, FillEvent (stamp 7) 1 3 103 6 0 2,
       BookUpdate (stamp 8) Ask 103 0, OrderCancelled (stamp 9) 3 2])"
    by code_simp
  then show ?thesis unfolding returns_tuple by auto
qed

text \<open>C18: a level outside the dense window can lose its priority. When the best level empties, the
  refresh takes the best level of the window even when a better one lies outside it: with bids at 300 and
  200 (outside) and 103 (inside), once the 300 is cancelled a sell at 103 trades at 103 with the lowest
  bid, past the bid of 200, which is the best price again afterwards.\<close>

theorem refresh_prefers_the_window:
  "\<exists>evs e. demo_run CancelOldest
     [plain 1 Bid 300 5 Limit GTC, plain 2 Bid 200 5 Limit GTC, plain 3 Bid 103 5 Limit GTC, CancelOrder 1,
      plain 4 Ask 103 5 Limit GTC] = Inr (evs, e) \<and>
     fills_in (last evs) = [(3, 4, 103, 5)] \<and> best_bid (book e) = Some 200"
proof -
  have "returns (demo_run CancelOldest
     [plain 1 Bid 300 5 Limit GTC, plain 2 Bid 200 5 Limit GTC, plain 3 Bid 103 5 Limit GTC, CancelOrder 1,
      plain 4 Ask 103 5 Limit GTC])
     (\<lambda>(evs, e). fills_in (last evs) = [(3, 4, 103, 5)] \<and> best_bid (book e) = Some 200)"
    by code_simp
  then show ?thesis unfolding returns_tuple by auto
qed

text \<open>C19: a post-only order of no quantity breaks the engine. It is accepted and rests as an empty
  order; outside the window, once it shares a level with an order that is cancelled, cancelling it too
  panics in the depth index. (Every other order type rejects a zero quantity.)\<close>

theorem zero_post_only_panics:
  "demo_run CancelOldest [plain 1 Bid 300 5 PostOnly GTC, plain 2 Bid 300 0 PostOnly GTC, CancelOrder 1, CancelOrder 2] =
     Inl MissingSparsePrice"
proof -
  have "case demo_run CancelOldest
      [plain 1 Bid 300 5 PostOnly GTC, plain 2 Bid 300 0 PostOnly GTC, CancelOrder 1, CancelOrder 2] of
        Inl p \<Rightarrow> p = MissingSparsePrice | Inr _ \<Rightarrow> False" by code_simp
  then show ?thesis by (simp split: sum.splits)
qed

text \<open>C20: in the mode \<open>CancelNewest\<close> the book can cross. The handler rejects a taker only when the first
  maker it would meet shares its group; when a later one does, matching stops there and the rest of the
  taker is inserted against it: best bid 104, best ask 103.\<close>

theorem cancel_newest_crosses_the_book:
  "\<exists>evs e. demo_run CancelNewest
     [plain 1 Ask 103 5 Limit GTC, NewOrder 2 1 Ask 103 5 Limit GTC None None (Some 7),
      NewOrder 3 1 Bid 104 10 Limit GTC None None (Some 7)] = Inr (evs, e) \<and>
     best_bid (book e) = Some 104 \<and> best_ask (book e) = Some 103"
proof -
  have "returns (demo_run CancelNewest
     [plain 1 Ask 103 5 Limit GTC, NewOrder 2 1 Ask 103 5 Limit GTC None None (Some 7),
      NewOrder 3 1 Bid 104 10 Limit GTC None None (Some 7)])
     (\<lambda>(evs, e). best_bid (book e) = Some 104 \<and> best_ask (book e) = Some 103)"
    by code_simp
  then show ?thesis unfolding returns_tuple by auto
qed

text \<open>C21: an accepted order can be missing from the book. The result of inserting is ignored, so a
  post-only order under an id in use is reported as accepted and resting, with a book update, and the book
  stays as it was; the id still names the first order.\<close>

theorem accepted_but_not_resting:
  "\<exists>evs e. demo_run CancelOldest [plain 1 Bid 103 5 PostOnly GTC, plain 1 Bid 104 7 PostOnly GTC] = Inr (evs, e) \<and>
     last evs = [OrderAccepted (stamp 3) 1 Bid 104 7 PostOnly, BookUpdate (stamp 4) Bid 104 7] \<and>
     map o_price (ladder Bid e) = [103] \<and> get_level_qty Bid 104 (book e) = Inr 0"
proof -
  have "returns (demo_run CancelOldest [plain 1 Bid 103 5 PostOnly GTC, plain 1 Bid 104 7 PostOnly GTC])
     (\<lambda>(evs, e). last evs = [OrderAccepted (stamp 3) 1 Bid 104 7 PostOnly, BookUpdate (stamp 4) Bid 104 7] \<and>
     map o_price (ladder Bid e) = [103] \<and> get_level_qty Bid 104 (book e) = Inr 0)"
    by code_simp
  then show ?thesis unfolding returns_tuple by auto
qed

text \<open>C22: of two stops at one trigger price the later comes first. A new stop is queued in front of those
  at its price, so with buy stops 1 and then 2 at 103, the trade at 103 triggers stop 2, which takes the 5
  that are offered, and stop 1 is left in the book without a fill.\<close>

theorem later_stop_triggers_first:
  "\<exists>evs e. demo_run CancelOldest
     [NewOrder 1 1 Bid 103 5 StopLimit GTC None (Some 103) None, NewOrder 2 1 Bid 103 5 StopLimit GTC None (Some 103) None,
      plain 3 Ask 103 7 Limit GTC, plain 4 Bid 103 2 Limit GTC] = Inr (evs, e) \<and>
     fills_in (last evs) = [(3, 4, 103, 2), (3, 2, 103, 5)] \<and> map o_id (ladder Bid e) = [1]"
proof -
  obtain evs e where run: "demo_run CancelOldest twin_stops = Inr (evs, e)"
    "map fills_in evs = [[], [], [], [(3, 4, 103, 2), (3, 2, 103, 5)]]" "map o_id (ladder Bid e) = [1]"
    using twin_stops_run by (elim exE conjE) (rule that)
  then have "evs \<noteq> []" by auto
  then have "fills_in (last evs) = last (map fills_in evs)" by (simp add: last_map)
  then show ?thesis using run unfolding twin_stops_def by auto
qed

text \<open>C23: an iceberg keeps its place. The design and the core plan send an iceberg whose visible slice is
  used up to the back of the queue; the code leaves it where it is and fills it slice after slice. An
  iceberg of 20, showing 5, and behind it a plain order of 5 at the same price: a buy of 10 takes two slices
  of the iceberg and nothing of the order that by the design comes next.\<close>

theorem iceberg_keeps_its_place:
  "\<exists>evs e. demo_run CancelOldest
     [NewOrder 1 1 Ask 103 20 Iceberg GTC (Some 5) None None, plain 2 Ask 103 5 Limit GTC,
      plain 3 Bid 103 10 Limit GTC] = Inr (evs, e) \<and>
     map fills_in evs = [[], [], [(1, 3, 103, 5), (1, 3, 103, 5)]] \<and> map o_id (ladder Ask e) = [1, 2] \<and>
     fst (design_run CancelOldest 4
       [NewOrder 1 1 Ask 103 20 Iceberg GTC (Some 5) None None, plain 2 Ask 103 5 Limit GTC,
        plain 3 Bid 103 10 Limit GTC] \<lparr>lob_bids = [], lob_asks = []\<rparr>) =
       [[], [], [(1, 3, 103, 5), (2, 3, 103, 5)]]"
proof -
  let ?cs = "[NewOrder 1 1 Ask 103 20 Iceberg GTC (Some 5) None None, plain 2 Ask 103 5 Limit GTC,
      plain 3 Bid 103 10 Limit GTC]"
  have "returns (demo_run CancelOldest ?cs) (\<lambda>(evs, e).
     map fills_in evs = [[], [], [(1, 3, 103, 5), (1, 3, 103, 5)]] \<and> map o_id (ladder Ask e) = [1, 2])" by code_simp
  then obtain evs e where run: "demo_run CancelOldest ?cs = Inr (evs, e)"
    "map fills_in evs = [[], [], [(1, 3, 103, 5), (1, 3, 103, 5)]]" "map o_id (ladder Ask e) = [1, 2]"
    unfolding returns_tuple by auto
  have "fst (design_run CancelOldest 4 ?cs \<lparr>lob_bids = [], lob_asks = []\<rparr>) = [[], [], [(1, 3, 103, 5), (2, 3, 103, 5)]]"
    by code_simp
  then show ?thesis using run by (intro exI [of _ evs] exI [of _ e] conjI)
qed

end
