(* ===== verification/Mx_Codec.thy ===== *)
theory Mx_Codec
  imports Mx_Types Mx_Bytes
begin

text \<open>
  \<open>codec.rs\<close> of \<open>matchx-journal\<close>: commands as bytes, and framed records
  \<open>[u32 payload_len][u64 sequence][payload][u32 crc32]\<close>. The checksum comes from the crate
  \<open>crc32fast\<close>; it is the parameter \<open>crc\<close>, any function from bytes to a 32-bit word.
\<close>

datatype journal_error =
    IoError
  | CrcMismatch
  | InvalidData
  | QueueFull
  | WriterStopped
  | WriterDegraded

type_synonym crc_fun = "byte list \<Rightarrow> 32 word"

fun side_byte :: "side \<Rightarrow> byte" where
  "side_byte Bid = 0"
| "side_byte Ask = 1"

fun order_type_byte :: "order_type \<Rightarrow> byte" where
  "order_type_byte Limit = 0"
| "order_type_byte Market = 1"
| "order_type_byte PostOnly = 2"
| "order_type_byte StopLimit = 3"
| "order_type_byte Iceberg = 4"

fun tif_byte :: "time_in_force \<Rightarrow> byte" where
  "tif_byte GTC = 0"
| "tif_byte IOC = 1"
| "tif_byte FOK = 2"

fun push_option_u64 :: "nat option \<Rightarrow> byte list" where
  "push_option_u64 None = [0]"
| "push_option_u64 (Some x) = 1 # le_bytes 8 x"

fun push_option_u32 :: "nat option \<Rightarrow> byte list" where
  "push_option_u32 None = [0]"
| "push_option_u32 (Some x) = 1 # le_bytes 4 x"

fun encode :: "command \<Rightarrow> byte list" where
  "encode (NewOrder oid instr sd price qty otype tif visible_qty stop_price stp_group) =
     0 # le_bytes 8 oid @ le_bytes 4 instr @ side_byte sd # le_bytes 8 price @ le_bytes 8 qty @
     order_type_byte otype # tif_byte tif # push_option_u64 visible_qty @
     push_option_u64 stop_price @ push_option_u32 stp_group"
| "encode (CancelOrder oid) = 1 # le_bytes 8 oid"
| "encode (ModifyOrder oid new_price new_qty) =
     2 # le_bytes 8 oid @ le_bytes 8 new_price @ le_bytes 8 new_qty"

subsection \<open>Decoding\<close>

text \<open>The reader macros: the value and the new position, or \<open>InvalidData\<close> past the end.\<close>

definition read_u8 :: "byte list \<Rightarrow> nat \<Rightarrow> journal_error + (byte \<times> nat)" where
  "read_u8 bytes pos = (if length bytes \<le> pos then Inl InvalidData else Inr (bytes ! pos, pos + 1))"

definition read_u32 :: "byte list \<Rightarrow> nat \<Rightarrow> journal_error + (nat \<times> nat)" where
  "read_u32 bytes pos =
     (if length bytes < pos + 4 then Inl InvalidData
      else Inr (from_le_bytes (take 4 (drop pos bytes)), pos + 4))"

definition read_u64 :: "byte list \<Rightarrow> nat \<Rightarrow> journal_error + (nat \<times> nat)" where
  "read_u64 bytes pos =
     (if length bytes < pos + 8 then Inl InvalidData
      else Inr (from_le_bytes (take 8 (drop pos bytes)), pos + 8))"

definition decode_side :: "byte \<Rightarrow> journal_error + side" where
  "decode_side b = (if b = 0 then Inr Bid else if b = 1 then Inr Ask else Inl InvalidData)"

definition decode_order_type :: "byte \<Rightarrow> journal_error + order_type" where
  "decode_order_type b =
     (if b = 0 then Inr Limit else if b = 1 then Inr Market else if b = 2 then Inr PostOnly
      else if b = 3 then Inr StopLimit else if b = 4 then Inr Iceberg else Inl InvalidData)"

definition decode_tif :: "byte \<Rightarrow> journal_error + time_in_force" where
  "decode_tif b =
     (if b = 0 then Inr GTC else if b = 1 then Inr IOC else if b = 2 then Inr FOK
      else Inl InvalidData)"

text \<open>A tag byte and, after tag 1, a value; the source writes this match three times.\<close>

definition read_option ::
  "(byte list \<Rightarrow> nat \<Rightarrow> journal_error + (nat \<times> nat)) \<Rightarrow> byte list \<Rightarrow> nat \<Rightarrow>
   journal_error + (nat option \<times> nat)" where
  "read_option read_val bytes pos =
     rbind (read_u8 bytes pos) (\<lambda>(tag, p1).
       if tag = 0 then Inr (None, p1)
       else if tag = 1 then rbind (read_val bytes p1) (\<lambda>(v, p2). Inr (Some v, p2))
       else Inl InvalidData)"

definition decode :: "byte list \<Rightarrow> journal_error + command" where
  "decode bytes =
     rbind (read_u8 bytes 0) (\<lambda>(opcode, p0).
       if opcode = 0 then
         rbind (read_u64 bytes p0) (\<lambda>(oid, p1).
         rbind (read_u32 bytes p1) (\<lambda>(instr, p2).
         rbind (read_u8 bytes p2) (\<lambda>(sb, p3).
         rbind (decode_side sb) (\<lambda>sd.
         rbind (read_u64 bytes p3) (\<lambda>(price, p4).
         rbind (read_u64 bytes p4) (\<lambda>(qty, p5).
         rbind (read_u8 bytes p5) (\<lambda>(ob, p6).
         rbind (decode_order_type ob) (\<lambda>otype.
         rbind (read_u8 bytes p6) (\<lambda>(tb, p7).
         rbind (decode_tif tb) (\<lambda>tif.
         rbind (read_option read_u64 bytes p7) (\<lambda>(visible_qty, p8).
         rbind (read_option read_u64 bytes p8) (\<lambda>(stop_price, p9).
         rbind (read_option read_u32 bytes p9) (\<lambda>(stp_group, p10).
           Inr (NewOrder oid instr sd price qty otype tif visible_qty stop_price stp_group))))))))))))))
       else if opcode = 1 then
         rbind (read_u64 bytes p0) (\<lambda>(oid, p1). Inr (CancelOrder oid))
       else if opcode = 2 then
         rbind (read_u64 bytes p0) (\<lambda>(oid, p1).
         rbind (read_u64 bytes p1) (\<lambda>(new_price, p2).
         rbind (read_u64 bytes p2) (\<lambda>(new_qty, p3).
           Inr (ModifyOrder oid new_price new_qty))))
       else Inl InvalidData)"

subsection \<open>Framed records\<close>

definition crc_input :: "nat \<Rightarrow> byte list \<Rightarrow> byte list" where
  "crc_input sq payload = le_bytes 8 sq @ payload"

definition encode_record :: "crc_fun \<Rightarrow> nat \<Rightarrow> command \<Rightarrow> byte list" where
  "encode_record crc sq cmd =
     (let payload = encode cmd;
          c = crc (crc_input sq payload)
      in le_bytes 4 (length payload) @ le_bytes 8 sq @ payload @ le_bytes 4 (unat c))"

text \<open>\<open>payload.len() as u32\<close> truncates; \<open>encode_length\<close> shows that it never does.\<close>

definition MAX_PAYLOAD :: nat where
  "MAX_PAYLOAD = 1048576"

definition decode_record :: "crc_fun \<Rightarrow> byte list \<Rightarrow> journal_error + (nat \<times> command \<times> nat)" where
  "decode_record crc data =
     (if length data < 4 then Inl InvalidData
      else
        let payload_len = from_le_bytes (take 4 data) in
        if MAX_PAYLOAD < payload_len then Inl InvalidData
        else
          let required = 4 + 8 + payload_len + 4 in
          if length data < required then Inl InvalidData
          else
            let sq = from_le_bytes (take 8 (drop 4 data));
                payload = take payload_len (drop 12 data);
                stored_crc = from_le_bytes (take 4 (drop (12 + payload_len) data));
                computed_crc = unat (crc (crc_input sq payload))
            in if computed_crc \<noteq> stored_crc then Inl CrcMismatch
               else rbind (decode payload) (\<lambda>cmd. Inr (sq, cmd, required)))"

subsection \<open>Reading at a position\<close>

definition rest_at :: "byte list \<Rightarrow> nat \<Rightarrow> byte list \<Rightarrow> bool" where
  "rest_at bytes pos r \<longleftrightarrow> pos \<le> length bytes \<and> drop pos bytes = r"

lemma rest_at_0: "rest_at bytes 0 bytes"
  by (simp add: rest_at_def)

lemma rest_at_step:
  assumes "rest_at bytes pos (xs @ r)" "length xs = n"
  shows "rest_at bytes (pos + n) r" "pos + n \<le> length bytes" "take n (drop pos bytes) = xs"
proof -
  have d: "drop pos bytes = xs @ r" and p: "pos \<le> length bytes" using assms(1) by (simp_all add: rest_at_def)
  then have "length bytes - pos = n + length r" using assms(2) by (metis length_append length_drop)
  then show le: "pos + n \<le> length bytes" using p by simp
  have "drop (pos + n) bytes = drop n (drop pos bytes)" by (simp add: add.commute)
  then show "rest_at bytes (pos + n) r" using le d assms(2) by (simp add: rest_at_def)
  show "take n (drop pos bytes) = xs" using d assms(2) by simp
qed

lemma read_u8_at:
  assumes "rest_at bytes pos (b # r)"
  shows "read_u8 bytes pos = Inr (b, pos + 1)" "rest_at bytes (pos + 1) r"
proof -
  note st = rest_at_step [of bytes pos "[b]" r 1]
  have "drop pos bytes = b # r" using assms by (simp add: rest_at_def)
  then have "pos < length bytes" "bytes ! pos = b"
    by (metis drop_all list.distinct(1) not_le, metis drop_all hd_drop_conv_nth list.distinct(1) list.sel(1) not_le)
  then show "read_u8 bytes pos = Inr (b, pos + 1)" by (simp add: read_u8_def)
  show "rest_at bytes (pos + 1) r" using st(1) assms by simp
qed

lemma read_u64_at:
  assumes "rest_at bytes pos (le_bytes 8 x @ r)" "x \<le> u64_max"
  shows "read_u64 bytes pos = Inr (x, pos + 8)" "rest_at bytes (pos + 8) r"
  using rest_at_step [OF assms(1) length_le_bytes] le_u64_roundtrip [OF assms(2)]
  by (simp_all add: read_u64_def)

lemma read_u32_at:
  assumes "rest_at bytes pos (le_bytes 4 x @ r)" "x \<le> u32_max"
  shows "read_u32 bytes pos = Inr (x, pos + 4)" "rest_at bytes (pos + 4) r"
  using rest_at_step [OF assms(1) length_le_bytes] le_u32_roundtrip [OF assms(2)]
  by (simp_all add: read_u32_def)

lemma read_option_u64_at:
  assumes "rest_at bytes pos (push_option_u64 v @ r)" "\<forall>x \<in> set_option v. x \<le> u64_max"
  obtains p where "read_option read_u64 bytes pos = Inr (v, p)" "rest_at bytes p r"
proof (cases v)
  case None
  then have "rest_at bytes pos (0 # r)" using assms(1) by simp
  then show ?thesis using that None read_u8_at [of bytes pos 0 r] by (simp add: read_option_def)
next
  case (Some x)
  then have "rest_at bytes pos (1 # le_bytes 8 x @ r)" using assms(1) by simp
  note tag = read_u8_at [OF this]
  note val = read_u64_at [OF tag(2)]
  show ?thesis using that Some assms(2) tag val by (simp add: read_option_def)
qed

lemma read_option_u32_at:
  assumes "rest_at bytes pos (push_option_u32 v @ r)" "\<forall>x \<in> set_option v. x \<le> u32_max"
  obtains p where "read_option read_u32 bytes pos = Inr (v, p)" "rest_at bytes p r"
proof (cases v)
  case None
  then have "rest_at bytes pos (0 # r)" using assms(1) by simp
  then show ?thesis using that None read_u8_at [of bytes pos 0 r] by (simp add: read_option_def)
next
  case (Some x)
  then have "rest_at bytes pos (1 # le_bytes 4 x @ r)" using assms(1) by simp
  note tag = read_u8_at [OF this]
  note val = read_u32_at [OF tag(2)]
  show ?thesis using that Some assms(2) tag val by (simp add: read_option_def)
qed

lemma decode_bytes [simp]:
  "decode_side (side_byte sd) = Inr sd"
  "decode_order_type (order_type_byte ot) = Inr ot"
  "decode_tif (tif_byte tif) = Inr tif"
    apply (cases sd; simp add: decode_side_def)
   apply (cases ot; simp add: decode_order_type_def)
  apply (cases tif; simp add: decode_tif_def)
  done

subsection \<open>Decoding what was encoded\<close>

lemma decode_encode_append:
  assumes "command_ok c"
  shows "decode (encode c @ junk) = Inr c"
proof (cases c)
  case (CancelOrder oid)
  let ?b = "encode c @ junk"
  have "rest_at ?b 0 (1 # le_bytes 8 oid @ junk)" using CancelOrder by (simp add: rest_at_def)
  note r0 = read_u8_at [OF this]
  note r1 = read_u64_at [OF r0(2)]
  show ?thesis using assms CancelOrder r0 r1 by (simp add: decode_def)
next
  case (ModifyOrder oid px q)
  let ?b = "encode c @ junk"
  have ok: "oid \<le> u64_max" "px \<le> u64_max" "q \<le> u64_max" using assms ModifyOrder by simp_all
  have "rest_at ?b 0 (2 # le_bytes 8 oid @ le_bytes 8 px @ le_bytes 8 q @ junk)"
    using ModifyOrder by (simp add: rest_at_def)
  note r0 = read_u8_at [OF this]
  note r1 = read_u64_at [OF r0(2) ok(1)]
  note r2 = read_u64_at [OF r1(2) ok(2)]
  note r3 = read_u64_at [OF r2(2) ok(3)]
  show ?thesis using r0 r1 r2 r3 ModifyOrder unfolding decode_def by simp
next
  case (NewOrder oid instr sd px q ot tif vis stop stp)
  let ?b = "encode c @ junk"
  have ok: "oid \<le> u64_max" "instr \<le> u32_max" "px \<le> u64_max" "q \<le> u64_max"
    "\<forall>x \<in> set_option vis. x \<le> u64_max" "\<forall>x \<in> set_option stop. x \<le> u64_max"
    "\<forall>x \<in> set_option stp. x \<le> u32_max" using assms NewOrder by simp_all
  have "rest_at ?b 0 (0 # le_bytes 8 oid @ le_bytes 4 instr @ side_byte sd # le_bytes 8 px @
     le_bytes 8 q @ order_type_byte ot # tif_byte tif # push_option_u64 vis @
     push_option_u64 stop @ push_option_u32 stp @ junk)"
    using NewOrder by (simp add: rest_at_def)
  note r0 = read_u8_at [OF this]
  note r1 = read_u64_at [OF r0(2) ok(1)]
  note r2 = read_u32_at [OF r1(2) ok(2)]
  note r3 = read_u8_at [OF r2(2)]
  note r4 = read_u64_at [OF r3(2) ok(3)]
  note r5 = read_u64_at [OF r4(2) ok(4)]
  note r6 = read_u8_at [OF r5(2)]
  note r7 = read_u8_at [OF r6(2)]
  obtain p8 where r8: "read_option read_u64 ?b (0 + 1 + 8 + 4 + 1 + 8 + 8 + 1 + 1) = Inr (vis, p8)"
    "rest_at ?b p8 (push_option_u64 stop @ push_option_u32 stp @ junk)"
    using read_option_u64_at [OF r7(2) ok(5)] by blast
  obtain p9 where r9: "read_option read_u64 ?b p8 = Inr (stop, p9)"
    "rest_at ?b p9 (push_option_u32 stp @ junk)"
    using read_option_u64_at [OF r8(2) ok(6)] by blast
  obtain p10 where r10: "read_option read_u32 ?b p9 = Inr (stp, p10)"
    using read_option_u32_at [OF r9(2) ok(7)] by blast
  show ?thesis
    unfolding decode_def r0(1) rbind_simps prod.case if_P [OF refl] r1(1) r2(1) r3(1) decode_bytes
      r4(1) r5(1) r6(1) r7(1) r8(1) r9(1) r10
    using NewOrder by simp
qed

end
