(* ===== verification/Mx_Codec_Laws.thy ===== *)
theory Mx_Codec_Laws
  imports Mx_Codec
begin

text \<open>
  What the codec guarantees. Decoding is exact in both directions: an encoded command decodes to
  itself, and what decodes starts with the encoding of the result. A framed record decodes to its
  sequence number and command whatever follows it, a record cut short is invalid data, and what
  decodes as a record is one.
\<close>

subsection \<open>Sizes\<close>

lemma push_option_length:
  "length (push_option_u64 v) \<le> 9" "length (push_option_u32 w) \<le> 5"
  by (cases v; simp) (cases w; simp)

lemma encode_length: "0 < length (encode c) \<and> length (encode c) \<le> 55"
proof (cases c)
  case (NewOrder oid instr sd px q ot tif vis stop stp)
  then show ?thesis
    using push_option_length(1) [of vis] push_option_length(1) [of stop] push_option_length(2) [of stp]
    by simp
qed simp_all

lemma encode_record_length: "length (encode_record crc sq c) = 16 + length (encode c)"
  by (simp add: encode_record_def Let_def)

lemma encode_record_nonempty: "encode_record crc sq c \<noteq> []"
  using encode_record_length [of crc sq c] by auto

subsection \<open>A framed record followed by anything\<close>

lemma decode_record_append:
  assumes "command_ok c" "sq \<le> u64_max"
  shows "decode_record crc (encode_record crc sq c @ rest) =
         Inr (sq, c, length (encode_record crc sq c))"
proof -
  let ?p = "encode c"
  let ?k = "le_bytes 4 (unat (crc (crc_input sq ?p)))"
  have split: "encode_record crc sq c @ rest = le_bytes 4 (length ?p) @ le_bytes 8 sq @ ?p @ ?k @ rest"
    by (simp add: encode_record_def Let_def)
  have len: "length ?p \<le> 55" using encode_length by blast
  have plen: "from_le_bytes (le_bytes 4 (length ?p)) = length ?p"
    by (rule le_u32_roundtrip) (use len in \<open>simp add: u32_max_def\<close>)
  have crc_ok: "from_le_bytes ?k = unat (crc (crc_input sq ?p))"
  proof (rule le_u32_roundtrip)
    have "unat (crc (crc_input sq ?p)) < 2 ^ 32"
      by (rule order.strict_trans2 [OF unsigned_less]) simp
    then show "unat (crc (crc_input sq ?p)) \<le> u32_max" by (simp add: u32_max_def)
  qed
  have drops: "drop 4 (encode_record crc sq c @ rest) = le_bytes 8 sq @ ?p @ ?k @ rest"
    "drop 12 (encode_record crc sq c @ rest) = ?p @ ?k @ rest"
    "drop (12 + length ?p) (encode_record crc sq c @ rest) = ?k @ rest"
    unfolding split by simp_all
  show ?thesis
    unfolding decode_record_def Let_def drops encode_record_length
    using len plen crc_ok assms(2) decode_encode_append [OF assms(1), of "[]"]
    by (simp add: split MAX_PAYLOAD_def le_u64_roundtrip)
qed

subsection \<open>A record cut short\<close>

lemma decode_record_torn:
  assumes "n < length (encode_record crc sq c)"
  shows "decode_record crc (take n (encode_record crc sq c)) = Inl InvalidData"
proof (cases "n < 4")
  case False
  let ?d = "take n (encode_record crc sq c)"
  have plen: "from_le_bytes (le_bytes 4 (length (encode c))) = length (encode c)"
    by (rule le_u32_roundtrip) (use encode_length [of c] in \<open>simp add: u32_max_def\<close>)
  have "take 4 ?d = le_bytes 4 (length (encode c))"
    using False by (simp add: min_absorb1 encode_record_def Let_def)
  then show ?thesis using False plen assms encode_record_length [of crc sq c]
    by (simp add: decode_record_def Let_def)
qed (simp add: decode_record_def Let_def)

subsection \<open>What decodes is an encoding\<close>

text \<open>The first \<open>pos\<close> bytes have been read and are \<open>xs\<close>.\<close>

definition took :: "byte list \<Rightarrow> nat \<Rightarrow> byte list \<Rightarrow> bool" where
  "took bytes pos xs \<longleftrightarrow> pos \<le> length bytes \<and> take pos bytes = xs"

lemma took_0: "took bytes 0 []"
  by (simp add: took_def)

lemma took_step:
  assumes "took bytes pos xs" "pos + n \<le> length bytes"
  shows "took bytes (pos + n) (xs @ take n (drop pos bytes))"
  using assms by (simp add: took_def take_add)

lemma tookE:
  assumes "took bytes pos xs" obtains rest where "bytes = xs @ rest"
  using assms that by (metis append_take_drop_id took_def)

lemma read_u8_Inr:
  assumes "read_u8 bytes pos = Inr (b, p)" "took bytes pos xs"
  shows "took bytes p (xs @ [b])"
proof -
  have "pos < length bytes" "b = bytes ! pos" "p = pos + 1"
    using assms(1) by (auto simp: read_u8_def split: if_splits)
  then show ?thesis using assms(2) by (simp add: took_def take_Suc_conv_app_nth)
qed

lemma read_u64_Inr:
  assumes "read_u64 bytes pos = Inr (v, p)" "took bytes pos xs"
  shows "took bytes p (xs @ le_bytes 8 v)" "v \<le> u64_max"
proof -
  have r: "pos + 8 \<le> length bytes" "v = from_le_bytes (take 8 (drop pos bytes))" "p = pos + 8"
    using assms(1) by (auto simp: read_u64_def split: if_splits)
  then have len: "length (take 8 (drop pos bytes)) = 8" by simp
  then have "le_bytes 8 v = take 8 (drop pos bytes)"
    using le_bytes_from_le_bytes [of "take 8 (drop pos bytes)"] r(2) by simp
  then show "took bytes p (xs @ le_bytes 8 v)" using took_step [OF assms(2) r(1)] r(3) by simp
  show "v \<le> u64_max"
    using from_le_bytes_less [of "take 8 (drop pos bytes)"] len r(2) by (simp add: u64_max_def)
qed

lemma read_u32_Inr:
  assumes "read_u32 bytes pos = Inr (v, p)" "took bytes pos xs"
  shows "took bytes p (xs @ le_bytes 4 v)" "v \<le> u32_max"
proof -
  have r: "pos + 4 \<le> length bytes" "v = from_le_bytes (take 4 (drop pos bytes))" "p = pos + 4"
    using assms(1) by (auto simp: read_u32_def split: if_splits)
  then have len: "length (take 4 (drop pos bytes)) = 4" by simp
  then have "le_bytes 4 v = take 4 (drop pos bytes)"
    using le_bytes_from_le_bytes [of "take 4 (drop pos bytes)"] r(2) by simp
  then show "took bytes p (xs @ le_bytes 4 v)" using took_step [OF assms(2) r(1)] r(3) by simp
  show "v \<le> u32_max"
    using from_le_bytes_less [of "take 4 (drop pos bytes)"] len r(2) by (simp add: u32_max_def)
qed

lemma read_option_u64_Inr:
  assumes "read_option read_u64 bytes pos = Inr (v, p)" "took bytes pos xs"
  shows "took bytes p (xs @ push_option_u64 v) \<and> (\<forall>x \<in> set_option v. x \<le> u64_max)"
proof -
  obtain tag p1 where t: "read_u8 bytes pos = Inr (tag, p1)"
    "(if tag = 0 then Inr (None, p1)
      else if tag = 1 then rbind (read_u64 bytes p1) (\<lambda>(v, p2). Inr (Some v, p2))
      else Inl InvalidData) = Inr (v, p)"
    using assms(1) unfolding read_option_def by (elim rbind_InrE) (auto split: prod.splits)
  note at = read_u8_Inr [OF t(1) assms(2)]
  show ?thesis
  proof (cases "tag = 0")
    case True then show ?thesis using t(2) at by auto
  next
    case False
    then have one: "tag = 1" using t(2) by (auto split: if_splits)
    then obtain x where x: "read_u64 bytes p1 = Inr (x, p)" "v = Some x"
      using t(2) by (auto elim!: rbind_InrE)
    show ?thesis using read_u64_Inr [OF x(1) at] x(2) one by simp
  qed
qed

lemma read_option_u32_Inr:
  assumes "read_option read_u32 bytes pos = Inr (v, p)" "took bytes pos xs"
  shows "took bytes p (xs @ push_option_u32 v) \<and> (\<forall>x \<in> set_option v. x \<le> u32_max)"
proof -
  obtain tag p1 where t: "read_u8 bytes pos = Inr (tag, p1)"
    "(if tag = 0 then Inr (None, p1)
      else if tag = 1 then rbind (read_u32 bytes p1) (\<lambda>(v, p2). Inr (Some v, p2))
      else Inl InvalidData) = Inr (v, p)"
    using assms(1) unfolding read_option_def by (elim rbind_InrE) (auto split: prod.splits)
  note at = read_u8_Inr [OF t(1) assms(2)]
  show ?thesis
  proof (cases "tag = 0")
    case True then show ?thesis using t(2) at by auto
  next
    case False
    then have one: "tag = 1" using t(2) by (auto split: if_splits)
    then obtain x where x: "read_u32 bytes p1 = Inr (x, p)" "v = Some x"
      using t(2) by (auto elim!: rbind_InrE)
    show ?thesis using read_u32_Inr [OF x(1) at] x(2) one by simp
  qed
qed

lemma decode_enum_Inr:
  "decode_side b = Inr sd \<Longrightarrow> b = side_byte sd"
  "decode_order_type b = Inr ot \<Longrightarrow> b = order_type_byte ot"
  "decode_tif b = Inr tif \<Longrightarrow> b = tif_byte tif"
  by (auto simp: decode_side_def decode_order_type_def decode_tif_def split: if_splits)

lemma decode_sound:
  assumes "decode bytes = Inr c"
  shows "\<exists>rest. bytes = encode c @ rest \<and> command_ok c"
proof -
  obtain opcode p0 where op: "read_u8 bytes 0 = Inr (opcode, p0)"
    using assms unfolding decode_def by (elim rbind_InrE) (auto split: prod.splits)
  note t0 = read_u8_Inr [OF op took_0, simplified]
  consider "opcode = 0" | "opcode = 1" | "opcode = 2"
    using assms op by (auto simp: decode_def split: if_splits)
  then show ?thesis
  proof cases
    case 2
    then obtain oid p1 where r: "read_u64 bytes p0 = Inr (oid, p1)" "c = CancelOrder oid"
      using assms op by (auto simp: decode_def elim!: rbind_InrE)
    note t1 = read_u64_Inr [OF r(1) t0]
    then show ?thesis using 2 r(2) by (auto elim: tookE)
  next
    case 3
    then obtain oid p1 px p2 q p3 where r: "read_u64 bytes p0 = Inr (oid, p1)"
      "read_u64 bytes p1 = Inr (px, p2)" "read_u64 bytes p2 = Inr (q, p3)" "c = ModifyOrder oid px q"
      using assms op by (auto simp: decode_def elim!: rbind_InrE)
    note t1 = read_u64_Inr [OF r(1) t0]
    note t2 = read_u64_Inr [OF r(2) t1(1)]
    note t3 = read_u64_Inr [OF r(3) t2(1)]
    show ?thesis using 3 r(4) t1 t2 t3 by (auto elim!: tookE)
  next
    case 1
    then obtain oid p1 instr p2 sb p3 sd px p4 q p5 ob p6 ot tb p7 tif vis p8 stop p9 stp p10
      where r: "read_u64 bytes p0 = Inr (oid, p1)" "read_u32 bytes p1 = Inr (instr, p2)"
      "read_u8 bytes p2 = Inr (sb, p3)" "decode_side sb = Inr sd"
      "read_u64 bytes p3 = Inr (px, p4)" "read_u64 bytes p4 = Inr (q, p5)"
      "read_u8 bytes p5 = Inr (ob, p6)" "decode_order_type ob = Inr ot"
      "read_u8 bytes p6 = Inr (tb, p7)" "decode_tif tb = Inr tif"
      "read_option read_u64 bytes p7 = Inr (vis, p8)" "read_option read_u64 bytes p8 = Inr (stop, p9)"
      "read_option read_u32 bytes p9 = Inr (stp, p10)"
      "c = NewOrder oid instr sd px q ot tif vis stop stp"
      using assms op by (auto simp: decode_def elim!: rbind_InrE)
    note t1 = read_u64_Inr [OF r(1) t0]
    note t2 = read_u32_Inr [OF r(2) t1(1)]
    note t3 = read_u8_Inr [OF r(3) t2(1)]
    note t4 = read_u64_Inr [OF r(5) t3]
    note t5 = read_u64_Inr [OF r(6) t4(1)]
    note t6 = read_u8_Inr [OF r(7) t5(1)]
    note t7 = read_u8_Inr [OF r(9) t6]
    note t8 = read_option_u64_Inr [OF r(11) t7]
    note t9 = read_option_u64_Inr [OF r(12) conjunct1 [OF t8]]
    note t10 = read_option_u32_Inr [OF r(13) conjunct1 [OF t9]]
    obtain rest where "bytes = encode c @ rest"
      using tookE [OF conjunct1 [OF t10]] 1 r(14) decode_enum_Inr(1) [OF r(4)]
        decode_enum_Inr(2) [OF r(8)] decode_enum_Inr(3) [OF r(10)] by auto
    then show ?thesis using r(14) t1 t2 t4 t5 t8 t9 t10 by auto
  qed
qed

end
