(* ===== verification/Mx_Files.thy ===== *)
theory Mx_Files
  imports Mx_Bytes "HOL-Library.List_Lexorder" "HOL-Library.Char_ord"
begin

text \<open>
  The files the journal works on: one directory, as a list of file names with their bytes. This
  is the part of \<open>std::fs\<close> the crate calls: reading a file, appending to one (created when
  it is missing), truncating one, listing the directory. A write can fail after part of the data
  has reached the file; which ones do is decided by a parameter, the \<open>faults\<close> of the disk.
  The names of segments and their two recognisers are here too, since the reader and the writer
  of the journal each have one.
\<close>

type_synonym file_name = string
type_synonym directory = "(file_name \<times> byte list) list"

text \<open>
  \<open>faults fs name data\<close> is \<open>None\<close> when the write succeeds, \<open>Some n\<close> when it fails with
  \<open>n\<close> bytes written; \<open>open_fails fs name\<close> when the file cannot be opened; \<open>mkdir_fails fs\<close> when
  \<open>create_dir_all\<close> of the directory fails.
\<close>

record disk =
  faults :: "directory \<Rightarrow> file_name \<Rightarrow> byte list \<Rightarrow> nat option"
  open_fails :: "directory \<Rightarrow> file_name \<Rightarrow> bool"
  mkdir_fails :: "directory \<Rightarrow> bool"

definition healthy_disk :: disk where
  "healthy_disk = \<lparr>faults = (\<lambda>_ _ _. None), open_fails = (\<lambda>_ _. False), mkdir_fails = (\<lambda>_. False)\<rparr>"

definition fs_read :: "directory \<Rightarrow> file_name \<Rightarrow> byte list option" where
  "fs_read fs name = map_of fs name"

fun fs_put :: "directory \<Rightarrow> file_name \<Rightarrow> byte list \<Rightarrow> directory" where
  "fs_put [] name bytes = [(name, bytes)]"
| "fs_put ((n, b) # fs) name bytes = (if n = name then (n, bytes) # fs else (n, b) # fs_put fs name bytes)"

text \<open>\<open>OpenOptions::new().create(true).append(true).open(path)\<close>\<close>

definition fs_open_append :: "directory \<Rightarrow> file_name \<Rightarrow> directory" where
  "fs_open_append fs name = (case fs_read fs name of None \<Rightarrow> fs_put fs name [] | Some _ \<Rightarrow> fs)"

definition fs_len :: "directory \<Rightarrow> file_name \<Rightarrow> nat" where
  "fs_len fs name = (case fs_read fs name of None \<Rightarrow> 0 | Some b \<Rightarrow> length b)"

definition fs_append :: "directory \<Rightarrow> file_name \<Rightarrow> byte list \<Rightarrow> directory" where
  "fs_append fs name data =
     fs_put fs name ((case fs_read fs name of None \<Rightarrow> [] | Some b \<Rightarrow> b) @ data)"

definition fs_set_len :: "directory \<Rightarrow> file_name \<Rightarrow> nat \<Rightarrow> directory" where
  "fs_set_len fs name n =
     (case fs_read fs name of None \<Rightarrow> fs
      | Some b \<Rightarrow> fs_put fs name (take n b @ replicate (n - length b) 0))"

subsection \<open>Paths\<close>

text \<open>
  A path by its components (a root is the component \<open>/\<close>), as \<open>std::path\<close> splits it. The directory of
  the model is the one that holds the last component.
\<close>

type_synonym path = "string list"

definition path_parent :: "path \<Rightarrow> path option" where
  "path_parent p = (if p = [] \<or> p = [''/''] then None else Some (butlast p))"

definition path_file_name :: "path \<Rightarrow> file_name option" where
  "path_file_name p = (if p = [] \<or> last p \<in> {''/'', ''.'', ''..''} then None else Some (last p))"

text \<open>The part of a name before its last dot, unless that part is empty.\<close>

definition file_stem :: "file_name \<Rightarrow> file_name" where
  "file_stem name =
     (let before = rev (tl (dropWhile (\<lambda>ch. ch \<noteq> CHR ''.'') (rev name)))
      in if before = [] then name else before)"

definition with_extension :: "path \<Rightarrow> string \<Rightarrow> path" where
  "with_extension p ext =
     (case path_file_name p of None \<Rightarrow> p | Some name \<Rightarrow> butlast p @ [file_stem name @ ''.'' @ ext])"

text \<open>\<open>if let Some(parent) = path.parent() && !parent.as_os_str().is_empty() { create_dir_all(parent)? }\<close>:
  whether it fails.\<close>

definition create_parent_fails :: "disk \<Rightarrow> directory \<Rightarrow> path \<Rightarrow> bool" where
  "create_parent_fails d fs p =
     (case path_parent p of Some parent \<Rightarrow> parent \<noteq> [] \<and> mkdir_fails d fs | None \<Rightarrow> False)"

lemma healthy_disk_opens [simp]:
  "faults healthy_disk fs name bytes = None" "\<not> open_fails healthy_disk fs name" "\<not> mkdir_fails healthy_disk fs"
  "\<not> create_parent_fails healthy_disk fs p"
  by (simp_all add: healthy_disk_def create_parent_fails_def split: option.split)

subsection \<open>Names of segments\<close>

definition digit_char :: "nat \<Rightarrow> char" where
  "digit_char d = char_of (48 + d)"

text \<open>The decimal digits of a number, at least \<open>w\<close> of them.\<close>

function decimal :: "nat \<Rightarrow> nat \<Rightarrow> string" where
  "decimal w n =
     (if w \<le> 1 \<and> n < 10 then [digit_char n]
      else decimal (w - 1) (n div 10) @ [digit_char (n mod 10)])"
  by pat_completeness auto
termination by (relation "measure (\<lambda>(w, n). w + n)") auto

declare decimal.simps [simp del]

lemma decimal_base: "w \<le> 1 \<Longrightarrow> n < 10 \<Longrightarrow> decimal w n = [digit_char n]"
  by (subst decimal.simps) simp

lemma decimal_step: "1 < w \<or> 10 \<le> n \<Longrightarrow>
    decimal w n = decimal (w - 1) (n div 10) @ [digit_char (n mod 10)]"
  by (subst decimal.simps) auto

text \<open>\<open>format!("journal-{index:08}.wal")\<close>\<close>

definition segment_path :: "nat \<Rightarrow> file_name" where
  "segment_path index = ''journal-'' @ decimal 8 index @ ''.wal''"

definition is_segment_file :: "file_name \<Rightarrow> bool" where
  "is_segment_file name \<longleftrightarrow>
     take 8 name = ''journal-'' \<and> 4 \<le> length name \<and> drop (length name - 4) name = ''.wal''"

text \<open>\<open>str::parse::<u64>\<close>: an optional plus sign, then at least one digit, within the width.\<close>

fun digits_value :: "nat \<Rightarrow> string \<Rightarrow> nat option" where
  "digits_value acc [] = Some acc"
| "digits_value acc (ch # chs) =
     (let d = of_char ch - (48::nat) in
      if of_char ch < (48::nat) \<or> (57::nat) < of_char ch then None
      else if u64_max < acc * 10 + d then None
      else digits_value (acc * 10 + d) chs)"

definition parse_u64 :: "string \<Rightarrow> nat option" where
  "parse_u64 s =
     (let ds = (if s \<noteq> [] \<and> hd s = CHR ''+'' then tl s else s) in
      if ds = [] then None else digits_value 0 ds)"

definition parse_segment_index :: "file_name \<Rightarrow> nat option" where
  "parse_segment_index name =
     (if is_segment_file name then parse_u64 (take (length name - 12) (drop 8 name)) else None)"

text \<open>\<open>reader.rs\<close> lists by the name's ends, \<open>writer.rs\<close> by the index it parses.\<close>

definition list_segment_paths :: "directory \<Rightarrow> file_name list" where
  "list_segment_paths fs = sort (filter is_segment_file (map fst fs))"

definition list_writer_segments :: "directory \<Rightarrow> file_name list" where
  "list_writer_segments fs = sort (filter (\<lambda>n. parse_segment_index n \<noteq> None) (map fst fs))"

subsection \<open>Facts on directories\<close>

lemma fs_read_put [simp]:
  "fs_read (fs_put fs name bytes) n = (if n = name then Some bytes else fs_read fs n)"
  by (induction fs name bytes rule: fs_put.induct) (auto simp: fs_read_def)

lemma fs_read_Nil: "fs_read [] n = None"
  by (simp add: fs_read_def)

lemma fs_names_put: "map fst (fs_put fs name bytes) =
    (if fs_read fs name = None then map fst fs @ [name] else map fst fs)"
  by (induction fs name bytes rule: fs_put.induct) (auto simp: fs_read_def)

lemma fs_read_None_iff: "fs_read fs name = None \<longleftrightarrow> name \<notin> fst ` set fs"
  by (simp add: fs_read_def map_of_eq_None_iff)

lemma fs_read_append [simp]:
  "fs_read (fs_append fs name data) n =
     (if n = name then Some ((case fs_read fs name of None \<Rightarrow> [] | Some b \<Rightarrow> b) @ data) else fs_read fs n)"
  by (simp add: fs_append_def)

lemma fs_read_open_append [simp]:
  "fs_read (fs_open_append fs name) n =
     (if n = name then Some (case fs_read fs name of None \<Rightarrow> [] | Some b \<Rightarrow> b) else fs_read fs n)"
  by (auto simp: fs_open_append_def split: option.splits)

lemma fs_read_set_len [simp]:
  "fs_read (fs_set_len fs name k) n =
     (if n = name then map_option (\<lambda>b. take k b @ replicate (k - length b) 0) (fs_read fs name)
      else fs_read fs n)"
  by (auto simp: fs_set_len_def split: option.splits)

subsection \<open>Decimal names\<close>

lemma decimal_length: "n < 10 ^ w \<Longrightarrow> 0 < w \<Longrightarrow> length (decimal w n) = w"
proof (induction w n rule: decimal.induct)
  case (1 w n)
  show ?case
  proof (cases "w \<le> 1 \<and> n < 10")
    case True then show ?thesis using 1 decimal_base [of w n] by simp
  next
    case False
    then have w: "1 < w" using 1(2,3) by (cases "w = 1") auto
    then have "(10 :: nat) ^ w = 10 * 10 ^ (w - 1)" by (metis gr_implies_not0 power_eq_if)
    then have "n div 10 < 10 ^ (w - 1)" using 1(2) by (simp add: less_mult_imp_div_less mult.commute)
    then have "length (decimal (w - 1) (n div 10)) = w - 1" using 1(1) [OF False] w by simp
    then show ?thesis using w decimal_step [of w n] by simp
  qed
qed

lemma of_digit_char: "d < 10 \<Longrightarrow> of_char (digit_char d) = (48 + d :: nat)"
  by (simp add: digit_char_def)

lemma digits_value_append:
  "digits_value acc (xs @ ys) = Option.bind (digits_value acc xs) (\<lambda>a. digits_value a ys)"
  by (induction xs arbitrary: acc) (simp_all add: Let_def)

lemma digits_value_decimal: "n \<le> u64_max \<Longrightarrow> digits_value 0 (decimal w n) = Some n"
proof (induction w n rule: decimal.induct)
  case (1 w n)
  show ?case
  proof (cases "w \<le> 1 \<and> n < 10")
    case True then show ?thesis
      using decimal_base [of w n] by (simp add: Let_def of_digit_char u64_max_def)
  next
    case False
    have "n div 10 \<le> u64_max" using 1(2) by (meson div_le_dividend order_trans)
    then have ih: "digits_value 0 (decimal (w - 1) (n div 10)) = Some (n div 10)"
      using 1(1) [OF False] by simp
    have m: "n mod 10 < 10" by simp
    have "n div 10 * 10 + n mod 10 = n" by simp
    then have "digits_value (n div 10) [digit_char (n mod 10)] = Some n"
      using m 1(2) by (simp add: Let_def of_digit_char)
    moreover have "1 < w \<or> 10 \<le> n" using False by auto
    ultimately show ?thesis using ih decimal_step [of w n] by (simp add: digits_value_append)
  qed
qed

lemma decimal_nonempty: "decimal w n \<noteq> []"
  by (subst decimal.simps) simp

lemma decimal_digits: "set (decimal w n) \<subseteq> digit_char ` {0..<10}"
proof (induction w n rule: decimal.induct)
  case (1 w n)
  show ?case
  proof (cases "w \<le> 1 \<and> n < 10")
    case True then show ?thesis using decimal_base [of w n] by simp
  next
    case False
    then have "1 < w \<or> 10 \<le> n" by auto
    then show ?thesis using 1 [OF False] decimal_step [of w n] by simp
  qed
qed

lemma hd_decimal: "hd (decimal w n) \<noteq> CHR ''+''"
proof
  assume eq: "hd (decimal w n) = CHR ''+''"
  have "hd (decimal w n) \<in> digit_char ` {0..<10}"
    using decimal_digits decimal_nonempty by (meson list.set_sel(1) subsetD)
  then obtain d where d: "d < 10" "CHR ''+'' = digit_char d" using eq by auto
  have "of_char (CHR ''+'') = (48 + d :: nat)" using of_digit_char [OF d(1)] d(2) by simp
  then show False by simp
qed

lemma parse_decimal: "n \<le> u64_max \<Longrightarrow> parse_u64 (decimal w n) = Some n"
  using hd_decimal decimal_nonempty by (simp add: parse_u64_def digits_value_decimal)

lemma segment_path_is_segment: "is_segment_file (segment_path i)"
  by (simp add: is_segment_file_def segment_path_def)

lemma parse_segment_path:
  "n \<le> u64_max \<Longrightarrow> parse_segment_index (segment_path n) = Some n"
  using segment_path_is_segment [of n]
  by (simp add: parse_segment_index_def parse_decimal segment_path_def)

lemma digit_char_less: "a < 10 \<Longrightarrow> b < 10 \<Longrightarrow> digit_char a < digit_char b \<longleftrightarrow> a < b"
  by (simp add: less_char_def of_digit_char)

lemma lex_less_append_same:
  fixes xs ys :: string
  assumes "length xs = length ys"
  shows "xs @ as < ys @ bs \<longleftrightarrow> xs < ys \<or> xs = ys \<and> as < bs"
  using assms
proof (induction xs ys rule: list_induct2)
  case (Cons x xs y ys) then show ?case by auto
qed simp

lemma div_mod_10_less:
  fixes a b :: nat
  shows "a < b \<longleftrightarrow> a div 10 < b div 10 \<or> a div 10 = b div 10 \<and> a mod 10 < b mod 10"
proof -
  have "a = 10 * (a div 10) + a mod 10" "b = 10 * (b div 10) + b mod 10" by simp_all
  moreover have "a mod 10 < 10" "b mod 10 < 10" by simp_all
  ultimately show ?thesis by linarith
qed

lemma decimal_less:
  "length (decimal w a) = w \<Longrightarrow> length (decimal w b) = w \<Longrightarrow> a < 10 ^ w \<Longrightarrow> b < 10 ^ w \<Longrightarrow> 0 < w \<Longrightarrow>
   decimal w a < decimal w b \<longleftrightarrow> a < b"
proof (induction w arbitrary: a b)
  case (Suc w)
  show ?case
  proof (cases "w = 0")
    case True
    then show ?thesis using Suc.prems by (simp add: decimal_base digit_char_less)
  next
    case False
    then have step: "decimal (Suc w) n = decimal w (n div 10) @ [digit_char (n mod 10)]" for n
      by (subst decimal_step) simp_all
    have small: "a div 10 < 10 ^ w" "b div 10 < 10 ^ w" using Suc.prems(3,4)
      by (simp_all add: less_mult_imp_div_less mult.commute)
    have len: "length (decimal w (a div 10)) = w" "length (decimal w (b div 10)) = w"
      using Suc.prems(1,2) by (simp_all add: step)
    note ih = Suc.IH [OF len small] Suc.IH [OF len(2,1) small(2,1)]
    have "decimal (Suc w) a < decimal (Suc w) b \<longleftrightarrow>
        a div 10 < b div 10 \<or> decimal w (a div 10) = decimal w (b div 10) \<and> a mod 10 < b mod 10"
      unfolding step using len ih(1) False
      by (subst lex_less_append_same) (simp_all add: digit_char_less)
    moreover have "decimal w (a div 10) = decimal w (b div 10) \<longleftrightarrow> a div 10 = b div 10"
      using ih False by (metis linorder_neqE less_irrefl not_gr_zero)
    moreover have "a < b \<longleftrightarrow> a div 10 < b div 10 \<or> a div 10 = b div 10 \<and> a mod 10 < b mod 10"
      by (rule div_mod_10_less)
    ultimately show ?thesis by simp
  qed
qed simp

lemma segment_path_less:
  assumes "a < 10 ^ 8" "b < 10 ^ 8"
  shows "segment_path a < segment_path b \<longleftrightarrow> a < b"
proof -
  have l: "length (decimal 8 a) = 8" "length (decimal 8 b) = 8"
    by (rule decimal_length; use assms in simp)+
  have "decimal 8 a < decimal 8 b \<longleftrightarrow> a < b" by (rule decimal_less [OF l assms]) simp
  moreover have "decimal 8 a @ ''.wal'' < decimal 8 b @ ''.wal'' \<longleftrightarrow> decimal 8 a < decimal 8 b"
    using l lex_less_append_same [of "decimal 8 a" "decimal 8 b" "''.wal''" "''.wal''"] by simp
  ultimately show ?thesis by (simp add: segment_path_def)
qed

lemma segment_path_inj: "inj_on segment_path {..u64_max}"
  by (rule inj_onI) (metis atMost_iff option.inject parse_segment_path)

text \<open>Eight digits order the names like the numbers; the ninth does not.\<close>

lemma segment_path_order_breaks: "segment_path 100000000 < segment_path 99999999"
proof -
  have step: "hd (decimal w n) = hd (decimal (w - 1) (n div 10))" if "1 < w \<or> 10 \<le> n" for w n
    using decimal_step [OF that] decimal_nonempty by simp
  have "hd (decimal 8 100000000) = digit_char 1" by (simp add: step decimal_base)
  moreover have "hd (decimal 8 99999999) = digit_char 9" by (simp add: step decimal_base)
  moreover have "digit_char 1 < digit_char 9" by (simp add: digit_char_less)
  ultimately show ?thesis
    using decimal_nonempty [of 8 100000000] decimal_nonempty [of 8 99999999]
    by (cases "decimal 8 99999999"; cases "decimal 8 100000000") (simp_all add: segment_path_def)
qed

end
