(* ===== verification/Mx_Wal_Read.thy ===== *)
theory Mx_Wal_Read
  imports Mx_Codec_Laws Mx_Files
begin

text \<open>
  The three consumers of a journal: \<open>reader.rs\<close> (all records of a file or of a directory of
  segments), \<open>recovery.rs\<close> (cut every file back to its last valid record) and
  \<open>streaming_reader.rs\<close> (one record at a time). The \<open>while\<close> loops over a buffer recurse on
  the bytes left.
\<close>

text \<open>Where a counter may overflow, an operation fails with an error of the journal or with a panic.\<close>

datatype failure = Failed journal_error | Panicked panic

definition or_fails :: "journal_error + 'a \<Rightarrow> failure + 'a" where
  "or_fails = map_sum Failed id"

definition or_panics :: "'a result \<Rightarrow> failure + 'a" where
  "or_panics = map_sum Panicked id"

lemma failure_results [simp]:
  "or_fails (Inr x) = Inr x" "or_fails (Inl e) = Inl (Failed e)"
  "or_panics (Inr x) = Inr x" "or_panics (Inl p) = Inl (Panicked p)"
  by (simp_all add: or_fails_def or_panics_def)

record journal_entry =
  je_sequence :: nat
  je_command :: command

datatype journal_path = Dir | File file_name

lemma decode_record_used:
  "decode_record crc data = Inr (sq, cmd, used) \<Longrightarrow> 16 \<le> used \<and> used \<le> length data"
  by (auto simp: decode_record_def Let_def rbind_eq_Inr split: if_splits)

subsection \<open>The batch reader\<close>

record journal_reader =
  jr_paths :: "file_name list"

definition reader_open :: "directory \<Rightarrow> journal_path \<Rightarrow> journal_error + journal_reader" where
  "reader_open fs path =
     (case path of
        Dir \<Rightarrow> Inr \<lparr>jr_paths = list_segment_paths fs\<rparr>
      | File name \<Rightarrow>
          (case fs_read fs name of None \<Rightarrow> Inl IoError | Some _ \<Rightarrow> Inr \<lparr>jr_paths = [name]\<rparr>))"

function read_records ::
  "crc_fun \<Rightarrow> byte list \<Rightarrow> nat \<Rightarrow> journal_entry list \<Rightarrow> journal_error + journal_entry list" where
  "read_records crc data pos entries =
     (if pos < length data then
        (case decode_record crc (drop pos data) of
           Inl e \<Rightarrow> Inl e
         | Inr (sq, cmd, used) \<Rightarrow>
             read_records crc data (pos + used)
               (entries @ [\<lparr>je_sequence = sq, je_command = cmd\<rparr>]))
      else Inr entries)"
  by pat_completeness auto
termination
  by (relation "measure (\<lambda>(crc, data, pos, entries). length data - pos)")
    (use decode_record_used in fastforce)+

declare read_records.simps [simp del]

definition read_path ::
  "crc_fun \<Rightarrow> directory \<Rightarrow> file_name \<Rightarrow> journal_entry list \<Rightarrow> journal_error + journal_entry list" where
  "read_path crc fs name entries =
     (case fs_read fs name of None \<Rightarrow> Inl IoError | Some data \<Rightarrow> read_records crc data 0 entries)"

definition read_all ::
  "crc_fun \<Rightarrow> directory \<Rightarrow> journal_reader \<Rightarrow> journal_error + journal_entry list" where
  "read_all crc fs r = rfold (read_path crc fs) (jr_paths r) []"

subsection \<open>Recovery\<close>

record recovery_report =
  last_valid_sequence :: nat
  truncated_bytes :: nat

definition default_report :: recovery_report where
  "default_report = \<lparr>last_valid_sequence = 0, truncated_bytes = 0\<rparr>"

text \<open>
  The loop stops at the first record that does not decode, invalid data or checksum alike;
  \<open>decode_record\<close> has no other error, but the code passes any other on.
\<close>

function scan_valid ::
  "crc_fun \<Rightarrow> byte list \<Rightarrow> nat \<Rightarrow> nat \<Rightarrow> nat \<Rightarrow> journal_error + (nat \<times> nat)" where
  "scan_valid crc data pos last_offset last_seq =
     (if pos < length data then
        (case decode_record crc (drop pos data) of
           Inr (sq, cmd, used) \<Rightarrow> scan_valid crc data (pos + used) (pos + used) sq
         | Inl InvalidData \<Rightarrow> Inr (last_offset, last_seq)
         | Inl CrcMismatch \<Rightarrow> Inr (last_offset, last_seq)
         | Inl e \<Rightarrow> Inl e)
      else Inr (last_offset, last_seq))"
  by pat_completeness auto
termination
  by (relation "measure (\<lambda>(crc, data, pos, lo, ls). length data - pos)")
    (use decode_record_used in fastforce)+

declare scan_valid.simps [simp del]

definition recover_file ::
  "crc_fun \<Rightarrow> directory \<Rightarrow> file_name \<Rightarrow> journal_error + (directory \<times> recovery_report)" where
  "recover_file crc fs name =
     (case fs_read fs name of
        None \<Rightarrow> Inl IoError
      | Some data \<Rightarrow>
          rbind (scan_valid crc data 0 0 0) (\<lambda>(last_offset, last_seq).
            let cut = length data - last_offset in
            Inr (if 0 < cut then fs_set_len fs name last_offset else fs,
                 \<lparr>last_valid_sequence = last_seq, truncated_bytes = cut\<rparr>)))"

definition recover_step ::
  "crc_fun \<Rightarrow> file_name \<Rightarrow> directory \<times> recovery_report \<Rightarrow>
   failure + (directory \<times> recovery_report)" where
  "recover_step crc name st =
     rbind (or_fails (recover_file crc (fst st) name)) (\<lambda>(fs', seg).
     rbind (or_panics (add_u64 (truncated_bytes (snd st)) (truncated_bytes seg))) (\<lambda>cut.
       Inr (fs', \<lparr>last_valid_sequence =
                    (if last_valid_sequence seg \<noteq> 0 then last_valid_sequence seg
                     else last_valid_sequence (snd st)),
                  truncated_bytes = cut\<rparr>)))"

definition recover_dir :: "crc_fun \<Rightarrow> directory \<Rightarrow> failure + (directory \<times> recovery_report)" where
  "recover_dir crc fs = rfold (recover_step crc) (list_segment_paths fs) (fs, default_report)"

definition recover_path ::
  "crc_fun \<Rightarrow> directory \<Rightarrow> journal_path \<Rightarrow> failure + (directory \<times> recovery_report)" where
  "recover_path crc fs path = (case path of Dir \<Rightarrow> recover_dir crc fs | File n \<Rightarrow> or_fails (recover_file crc fs n))"

subsection \<open>The streaming reader\<close>

text \<open>
  The open \<open>BufReader\<close> is the list of bytes of its file not yet read. The scratch array
  \<open>header_buf\<close> is not a field: it is written before each use. Every operation returns the reader as it
  leaves it, also with an error: a \<open>read_exact\<close> that finds too few bytes has consumed them, and an
  error in a complete record leaves the reader behind the record.
\<close>

record streaming_reader =
  sr_paths :: "file_name list"
  current_segment :: nat
  sr_reader :: "byte list option"

definition open_next_segment ::
  "directory \<Rightarrow> streaming_reader \<Rightarrow> (journal_error + bool) \<times> streaming_reader" where
  "open_next_segment fs s =
     (if length (sr_paths s) \<le> current_segment s then (Inr False, s\<lparr>sr_reader := None\<rparr>)
      else case fs_read fs (sr_paths s ! current_segment s) of
             None \<Rightarrow> (Inl IoError, s)
           | Some data \<Rightarrow> (Inr True, s\<lparr>sr_reader := Some data, current_segment := current_segment s + 1\<rparr>))"

definition streaming_open :: "directory \<Rightarrow> journal_path \<Rightarrow> journal_error + streaming_reader" where
  "streaming_open fs path =
     (case open_next_segment fs
             \<lparr>sr_paths = (case path of Dir \<Rightarrow> list_segment_paths fs | File n \<Rightarrow> [n]),
              current_segment = 0, sr_reader = None\<rparr> of
        (Inl e, s) \<Rightarrow> Inl e
      | (Inr _, s) \<Rightarrow> Inr s)"

text \<open>The record at the front of the open segment, once its four-byte header is complete, with the
  bytes left behind it.\<close>

definition stream_record ::
  "crc_fun \<Rightarrow> byte list \<Rightarrow> (journal_error + journal_entry) \<times> byte list" where
  "stream_record crc left =
     (let header_buf = take 4 left;
          payload_len = from_le_bytes header_buf;
          body_len = 8 + payload_len + 4
      in if length left < 4 + body_len then (Inl InvalidData, [])
         else
           let body = take body_len (drop 4 left);
               full_record = header_buf @ body
           in (rbind (decode_record crc full_record) (\<lambda>(sq, cmd, _). Inr \<lparr>je_sequence = sq, je_command = cmd\<rparr>),
               drop (4 + body_len) left))"

lemma open_next_segment_cases:
  "open_next_segment fs s = (Inr b, s') \<Longrightarrow>
   sr_paths s' = sr_paths s \<and>
   (b \<longrightarrow> current_segment s < length (sr_paths s) \<and> current_segment s' = Suc (current_segment s))"
  by (auto simp: open_next_segment_def split: if_splits option.splits)

function next_entry ::
  "crc_fun \<Rightarrow> directory \<Rightarrow> streaming_reader \<Rightarrow> (journal_error + journal_entry option) \<times> streaming_reader" where
  "next_entry crc fs s =
     (case sr_reader s of
        None \<Rightarrow> (Inr None, s)
      | Some left \<Rightarrow>
          if length left < 4 then
            (case open_next_segment fs (s\<lparr>sr_reader := Some []\<rparr>) of
               (Inl e, s') \<Rightarrow> (Inl e, s')
             | (Inr False, s') \<Rightarrow> (Inr None, s')
             | (Inr True, s') \<Rightarrow> next_entry crc fs s')
          else
            (case stream_record crc left of
               (Inl e, left') \<Rightarrow> (Inl e, s\<lparr>sr_reader := Some left'\<rparr>)
             | (Inr entry, left') \<Rightarrow> (Inr (Some entry), s\<lparr>sr_reader := Some left'\<rparr>)))"
  by pat_completeness auto
termination
  by (relation "measure (\<lambda>(crc, fs, s). length (sr_paths s) - current_segment s)")
    (auto dest!: open_next_segment_cases [OF sym])

declare next_entry.simps [simp del]

text \<open>The client's loop \<open>while let Some(entry) = reader.next_entry()?\<close>, for \<open>fuel\<close> calls.\<close>

fun read_stream ::
  "nat \<Rightarrow> crc_fun \<Rightarrow> directory \<Rightarrow> streaming_reader \<Rightarrow> journal_entry list \<Rightarrow>
   journal_error + journal_entry list option" where
  "read_stream 0 crc fs s entries = Inr None"
| "read_stream (Suc fuel) crc fs s entries =
     (case next_entry crc fs s of
        (Inl e, s') \<Rightarrow> Inl e
      | (Inr None, s') \<Rightarrow> Inr (Some entries)
      | (Inr (Some e), s') \<Rightarrow> read_stream fuel crc fs s' (entries @ [e]))"

end
