(* ===== verification/Mx_Wal_Laws.thy ===== *)
theory Mx_Wal_Laws
  imports Mx_Wal_Read
begin

text \<open>
  Laws of the consumers of a journal: what was written is what is read, recovery cuts a file to
  its longest valid prefix and loses nothing else, and the streaming reader yields what the batch
  reader yields.
\<close>

definition entry_ok :: "journal_entry \<Rightarrow> bool" where
  "entry_ok e \<longleftrightarrow> command_ok (je_command e) \<and> je_sequence e \<le> u64_max"

lemma entry_eta [simp]: "\<lparr>je_sequence = je_sequence e, je_command = je_command e\<rparr> = e"
  by simp

definition encode_entry :: "crc_fun \<Rightarrow> journal_entry \<Rightarrow> byte list" where
  "encode_entry crc e = encode_record crc (je_sequence e) (je_command e)"

definition encode_log :: "crc_fun \<Rightarrow> journal_entry list \<Rightarrow> byte list" where
  "encode_log crc es = concat (map (encode_entry crc) es)"

lemma encode_log_simps [simp]:
  "encode_log crc [] = []" "encode_log crc (e # es) = encode_entry crc e @ encode_log crc es"
  "encode_log crc (es @ fs) = encode_log crc es @ encode_log crc fs"
  by (simp_all add: encode_log_def)

lemma encode_entry_length: "16 \<le> length (encode_entry crc e)"
  by (simp add: encode_entry_def encode_record_length)

lemma decode_entry:
  "entry_ok e \<Longrightarrow> decode_record crc (encode_entry crc e @ rest) =
     Inr (je_sequence e, je_command e, length (encode_entry crc e))"
  by (simp add: entry_ok_def encode_entry_def decode_record_append)

subsection \<open>The framing\<close>

lemma decode_record_take:
  assumes "decode_record crc data = Inr (sq, cmd, used)" "used \<le> m"
  shows "decode_record crc (take m data) = Inr (sq, cmd, used)"
proof -
  define n where "n = from_le_bytes (take 4 data)"
  have u: "used = 4 + 8 + n + 4" "\<not> length data < 4" "n \<le> MAX_PAYLOAD" "used \<le> length data"
    using assms(1) by (auto simp: decode_record_def Let_def rbind_eq_Inr n_def split: if_splits)
  have m: "16 + n \<le> m" "16 + n \<le> length data" using u assms(2) by simp_all
  have t4: "take 4 (take m data) = take 4 data" using m by (simp add: min_def)
  have t8: "take 8 (drop 4 (take m data)) = take 8 (drop 4 data)" using m by (simp add: drop_take min_def)
  have tn: "take n (drop 12 (take m data)) = take n (drop 12 data)" using m by (simp add: drop_take min_def)
  have tc: "take 4 (drop (12 + n) (take m data)) = take 4 (drop (12 + n) data)"
    using m by (simp add: drop_take min_def)
  have len: "(length (take m data) < 4) = False" "(length data < 4) = False"
    "(length (take m data) < 4 + 8 + n + 4) = False" "(length data < 4 + 8 + n + 4) = False"
    using m by simp_all
  have "decode_record crc (take m data) = decode_record crc data"
    unfolding decode_record_def Let_def t4 n_def [symmetric] t8 tn tc len if_False ..
  then show ?thesis using assms(1) by simp
qed

lemma decode_record_frame:
  "decode_record crc data = Inr (sq, cmd, used) \<Longrightarrow> used = 16 + from_le_bytes (take 4 data)"
  by (auto simp: decode_record_def Let_def rbind_eq_Inr split: if_splits)

text \<open>The only error of a decoder of bytes is invalid data; a record can also fail its checksum.\<close>

definition fails_only :: "journal_error set \<Rightarrow> (journal_error + 'a) \<Rightarrow> bool" where
  "fails_only es m \<longleftrightarrow> (\<forall>e. m = Inl e \<longrightarrow> e \<in> es)"

lemma fails_only_simps [simp]: "fails_only es (Inr x)" "fails_only es (Inl e) \<longleftrightarrow> e \<in> es"
  by (simp_all add: fails_only_def)

lemma fails_only_rbind: "fails_only es m \<Longrightarrow> (\<And>x. fails_only es (f x)) \<Longrightarrow> fails_only es (rbind m f)"
  by (cases m) simp_all

lemma fails_only_if: "(b \<Longrightarrow> fails_only es m) \<Longrightarrow> (\<not> b \<Longrightarrow> fails_only es n) \<Longrightarrow> fails_only es (if b then m else n)"
  by simp

lemma fails_only_prod: "(\<And>x y. fails_only es (f x y)) \<Longrightarrow> fails_only es (case p of (x, y) \<Rightarrow> f x y)"
  by (cases p) simp

lemmas fails_only_intros = fails_only_rbind fails_only_if fails_only_prod

lemma fails_only_read:
  "fails_only {InvalidData} (read_u8 b p)" "fails_only {InvalidData} (read_u32 b p)"
  "fails_only {InvalidData} (read_u64 b p)" "fails_only {InvalidData} (decode_side x)"
  "fails_only {InvalidData} (decode_order_type x)" "fails_only {InvalidData} (decode_tif x)"
  by (simp_all add: read_u8_def read_u32_def read_u64_def decode_side_def decode_order_type_def decode_tif_def)

lemma fails_only_read_option:
  "(\<And>b p. fails_only {InvalidData} (rd b p)) \<Longrightarrow> fails_only {InvalidData} (read_option rd b p)"
  unfolding read_option_def by (intro fails_only_intros fails_only_read) simp_all

lemma decode_error: "fails_only {InvalidData} (decode bytes)"
  unfolding decode_def by (intro fails_only_intros fails_only_read fails_only_read_option) simp_all

lemma decode_record_error: "decode_record crc data = Inl e \<Longrightarrow> e = InvalidData \<or> e = CrcMismatch"
proof -
  have "fails_only {InvalidData, CrcMismatch} (decode bs)" for bs
    using decode_error [of bs] by (auto simp: fails_only_def)
  then have "fails_only {InvalidData, CrcMismatch} (decode_record crc data)"
    unfolding decode_record_def Let_def by (intro fails_only_intros) simp_all
  then show "decode_record crc data = Inl e \<Longrightarrow> ?thesis" by (simp add: fails_only_def)
qed

subsection \<open>Reading\<close>

lemma read_records_end [simp]: "length data \<le> pos \<Longrightarrow> read_records crc data pos acc = Inr acc"
  by (subst read_records.simps) simp

lemma read_records_more:
  "pos < length data \<Longrightarrow> read_records crc data pos acc =
     rbind (decode_record crc (drop pos data)) (\<lambda>(sq, cmd, used).
       read_records crc data (pos + used) (acc @ [\<lparr>je_sequence = sq, je_command = cmd\<rparr>]))"
  by (subst read_records.simps) (simp add: rbind_def split: sum.splits prod.splits)

lemma read_records_log:
  assumes "drop pos data = encode_log crc es @ rest" "list_all entry_ok es"
  shows "read_records crc data pos acc =
         read_records crc data (pos + length (encode_log crc es)) (acc @ es)"
  using assms
proof (induction es arbitrary: pos acc)
  case (Cons e es)
  let ?n = "length (encode_entry crc e)"
  have "drop pos data \<noteq> []" using Cons.prems(1) encode_entry_length [of crc e] by auto
  then have lt: "pos < length data" by simp
  have dec: "decode_record crc (drop pos data) = Inr (je_sequence e, je_command e, ?n)"
    using Cons.prems decode_entry [of e crc "encode_log crc es @ rest"] by simp
  have "drop ?n (drop pos data) = encode_log crc es @ rest" using Cons.prems(1) by simp
  then have "drop (pos + ?n) data = encode_log crc es @ rest" by (simp add: add.commute)
  from Cons.IH [OF this] show ?case using Cons.prems(2) read_records_more [OF lt] dec
    by (simp add: add.assoc)
qed simp

lemma read_encode_log: "list_all entry_ok es \<Longrightarrow> read_records crc (encode_log crc es) 0 acc = Inr (acc @ es)"
  using read_records_log [of 0 "encode_log crc es" crc es "[]" acc] by simp

lemma read_records_acc:
  "read_records crc data pos acc = rbind (read_records crc data pos []) (\<lambda>es. Inr (acc @ es))"
proof (induction "length data - pos" arbitrary: pos acc rule: less_induct)
  case less
  show ?case
  proof (cases "pos < length data")
    case True
    show ?thesis
    proof (cases "decode_record crc (drop pos data)")
      case (Inr r)
      obtain sq cmd used where r: "r = (sq, cmd, used)" by (cases r) auto
      have m: "length data - (pos + used) < length data - pos"
        using True decode_record_used [of crc "drop pos data" sq cmd used] Inr r by auto
      note ih = less [OF m]
      show ?thesis using Inr r True ih [of "acc @ [\<lparr>je_sequence = sq, je_command = cmd\<rparr>]"]
          ih [of "[\<lparr>je_sequence = sq, je_command = cmd\<rparr>]"]
        by (cases "read_records crc data (pos + used) []") (simp_all add: read_records_more)
    qed (simp add: read_records_more [OF True])
  qed simp
qed

lemma read_records_drop:
  "pos \<le> length data \<Longrightarrow> read_records crc data pos acc = read_records crc (drop pos data) 0 acc"
proof (induction "length data - pos" arbitrary: data pos acc rule: less_induct)
  case less
  show ?case
  proof (cases "pos < length data")
    case True
    show ?thesis
    proof (cases "decode_record crc (drop pos data)")
      case (Inr r)
      obtain sq cmd used where r: "r = (sq, cmd, used)" by (cases r) auto
      have u: "16 \<le> used" "used \<le> length data - pos"
        using decode_record_used [of crc "drop pos data" sq cmd used] Inr r by simp_all
      let ?acc = "acc @ [\<lparr>je_sequence = sq, je_command = cmd\<rparr>]"
      have "read_records crc data (pos + used) ?acc = read_records crc (drop (pos + used) data) 0 ?acc"
        by (rule less.hyps) (use u True in auto)
      moreover have "read_records crc (drop pos data) used ?acc =
          read_records crc (drop used (drop pos data)) 0 ?acc"
      proof (cases "pos = 0")
        case True
        then show ?thesis using calculation by simp
      next
        case False
        show ?thesis by (rule less.hyps) (use u True in auto)
      qed
      ultimately show ?thesis using Inr r True by (simp add: read_records_more add.commute)
    qed (use True in \<open>simp add: read_records_more\<close>)
  qed simp
qed

subsection \<open>Recovery\<close>

lemma scan_valid_end [simp]: "length data \<le> pos \<Longrightarrow> scan_valid crc data pos lo ls = Inr (lo, ls)"
  by (subst scan_valid.simps) simp

lemma scan_valid_record:
  "pos < length data \<Longrightarrow> decode_record crc (drop pos data) = Inr (sq, cmd, used) \<Longrightarrow>
   scan_valid crc data pos lo ls = scan_valid crc data (pos + used) (pos + used) sq"
  by (subst scan_valid.simps) simp

lemma scan_valid_stop:
  "pos < length data \<Longrightarrow> decode_record crc (drop pos data) = Inl e \<Longrightarrow>
   scan_valid crc data pos lo ls = Inr (lo, ls)"
  using decode_record_error [of crc "drop pos data" e] by (subst scan_valid.simps) auto

text \<open>
  The scan ends at a position up to which the file reads without error, with the sequence number
  of the last record read, and at which the file ends or does not decode.
\<close>

definition last_seq :: "nat \<Rightarrow> journal_entry list \<Rightarrow> nat" where
  "last_seq ls es = (if es = [] then ls else je_sequence (last es))"

lemma scan_valid_spec:
  assumes "pos \<le> length data"
  shows "\<exists>n es. scan_valid crc data pos pos ls = Inr (n, last_seq ls es) \<and> pos \<le> n \<and> n \<le> length data \<and>
    read_records crc (take n data) pos [] = Inr es \<and>
    (n < length data \<longrightarrow> (\<exists>e. decode_record crc (drop n data) = Inl e))"
  using assms
proof (induction "length data - pos" arbitrary: pos ls rule: less_induct)
  case less
  show ?case
  proof (cases "pos < length data")
    case True
    show ?thesis
    proof (cases "decode_record crc (drop pos data)")
      case (Inr r)
      obtain sq cmd used where r: "r = (sq, cmd, used)" by (cases r) auto
      have u: "16 \<le> used" "used \<le> length data - pos"
        using decode_record_used [of crc "drop pos data" sq cmd used] Inr r by simp_all
      have "length data - (pos + used) < length data - pos" "pos + used \<le> length data"
        using u True by simp_all
      from less.hyps [OF this] obtain n es where ih:
        "scan_valid crc data (pos + used) (pos + used) sq = Inr (n, last_seq sq es)"
        "pos + used \<le> n" "n \<le> length data" "read_records crc (take n data) (pos + used) [] = Inr es"
        "n < length data \<longrightarrow> (\<exists>e. decode_record crc (drop n data) = Inl e)" by blast
      let ?e = "\<lparr>je_sequence = sq, je_command = cmd\<rparr>"
      have "decode_record crc (drop pos (take n data)) = Inr (sq, cmd, used)"
        using decode_record_take [of crc "drop pos data" sq cmd used "n - pos"] Inr r ih(2)
        by (simp add: drop_take)
      moreover have "pos < length (take n data)" using ih(2,3) u by simp
      ultimately have "read_records crc (take n data) pos [] = Inr (?e # es)"
        using ih(4) read_records_acc [of crc "take n data" "pos + used" "[?e]"]
        by (simp add: read_records_more)
      moreover have "scan_valid crc data pos pos ls = Inr (n, last_seq ls (?e # es))"
        using ih(1) scan_valid_record [OF True, of crc sq cmd used] Inr r by (auto simp: last_seq_def)
      ultimately show ?thesis using ih by (metis add_leD1)
    next
      case (Inl e)
      then have "scan_valid crc data pos pos ls = Inr (pos, last_seq ls [])"
        using scan_valid_stop [OF True] by (simp add: last_seq_def)
      moreover have "read_records crc (take pos data) pos [] = Inr []" by simp
      ultimately show ?thesis using Inl True by (metis le_refl less_imp_le)
    qed
  next
    case False
    then have "scan_valid crc data pos pos ls = Inr (length data, last_seq ls [])"
      using less.prems by (simp add: last_seq_def)
    then show ?thesis using False less.prems by (metis le_refl less_irrefl nat_less_le not_le read_records_end take_all)
  qed
qed

lemma scan_valid_log:
  assumes "drop pos data = encode_log crc es @ rest" "list_all entry_ok es"
  shows "scan_valid crc data pos pos ls =
         scan_valid crc data (pos + length (encode_log crc es)) (pos + length (encode_log crc es)) (last_seq ls es)"
  using assms
proof (induction es arbitrary: pos ls)
  case (Cons e es)
  let ?n = "length (encode_entry crc e)"
  have "drop pos data \<noteq> []" using Cons.prems(1) encode_entry_length [of crc e] by auto
  then have lt: "pos < length data" by simp
  have dec: "decode_record crc (drop pos data) = Inr (je_sequence e, je_command e, ?n)"
    using Cons.prems decode_entry [of e crc "encode_log crc es @ rest"] by simp
  have "drop ?n (drop pos data) = encode_log crc es @ rest" using Cons.prems(1) by simp
  then have d: "drop (pos + ?n) data = encode_log crc es @ rest" by (simp add: add.commute)
  have "last_seq ls (e # es) = last_seq (je_sequence e) es" by (simp add: last_seq_def)
  then show ?case using Cons.IH [OF d] Cons.prems(2) scan_valid_record [OF lt dec] by (simp add: add.assoc)
qed (simp add: last_seq_def)

lemma recover_file_spec:
  assumes "fs_read fs name = Some data"
  obtains n es where
    "recover_file crc fs name = Inr (if n < length data then fs_set_len fs name n else fs,
       \<lparr>last_valid_sequence = last_seq 0 es, truncated_bytes = length data - n\<rparr>)"
    "n \<le> length data" "read_records crc (take n data) 0 [] = Inr es"
    "n < length data \<longrightarrow> (\<exists>e. decode_record crc (drop n data) = Inl e)"
  using scan_valid_spec [of 0 data crc 0] assms that by (auto simp: recover_file_def Let_def)

lemma recover_file_reads:
  assumes "recover_file crc fs name = Inr (fs', rep)"
  shows "\<exists>es. read_path crc fs' name [] = Inr es"
proof -
  obtain data where d: "fs_read fs name = Some data"
    using assms by (auto simp: recover_file_def split: option.splits)
  obtain n es where r: "recover_file crc fs name = Inr (if n < length data then fs_set_len fs name n else fs,
       \<lparr>last_valid_sequence = last_seq 0 es, truncated_bytes = length data - n\<rparr>)"
    "n \<le> length data" "read_records crc (take n data) 0 [] = Inr es"
    by (rule recover_file_spec [OF d, of crc])
  have "fs_read fs' name = Some (take n data)" using r(1,2) assms d by (auto split: if_splits)
  then show ?thesis using r(3) by (simp add: read_path_def)
qed

lemma recover_file_names:
  "recover_file crc fs name = Inr (fs', rep) \<Longrightarrow> map fst fs' = map fst fs"
  by (auto simp: recover_file_def Let_def rbind_eq_Inr fs_set_len_def fs_names_put
      split: option.splits if_splits prod.splits)

lemma recover_file_other:
  "recover_file crc fs name = Inr (fs', rep) \<Longrightarrow> n \<noteq> name \<Longrightarrow> fs_read fs' n = fs_read fs n"
  by (auto simp: recover_file_def Let_def rbind_eq_Inr split: option.splits if_splits prod.splits)

subsection \<open>Streaming\<close>

lemma stream_record_decoded:
  assumes "decode_record crc left = Inr (sq, cmd, used)"
  shows "stream_record crc left = (Inr \<lparr>je_sequence = sq, je_command = cmd\<rparr>, drop used left)"
proof -
  let ?n = "from_le_bytes (take 4 left)"
  have u: "used = 4 + (8 + ?n + 4)" "used \<le> length left"
    using decode_record_frame [OF assms] decode_record_used [OF assms] by simp_all
  have "take 4 left @ take (8 + ?n + 4) (drop 4 left) = take used left"
    unfolding u(1) by (rule take_add [symmetric])
  then show ?thesis using u decode_record_take [OF assms order_refl]
    by (simp add: stream_record_def Let_def)
qed

lemma next_entry_record:
  assumes "sr_reader s = Some left" "decode_record crc left = Inr (sq, cmd, used)"
  shows "next_entry crc fs s =
    (Inr (Some \<lparr>je_sequence = sq, je_command = cmd\<rparr>), s\<lparr>sr_reader := Some (drop used left)\<rparr>)"
  using assms stream_record_decoded [OF assms(2)] decode_record_used [OF assms(2)]
  by (subst next_entry.simps) simp

lemma next_entry_segment:
  assumes "sr_reader s = Some left" "length left < 4" "current_segment s < length (sr_paths s)"
    "fs_read fs (sr_paths s ! current_segment s) = Some data"
  shows "next_entry crc fs s =
    next_entry crc fs (s\<lparr>sr_reader := Some data, current_segment := current_segment s + 1\<rparr>)"
  using assms by (subst next_entry.simps) (simp add: open_next_segment_def)

lemma next_entry_end:
  assumes "sr_reader s = Some left" "length left < 4" "length (sr_paths s) \<le> current_segment s"
  shows "next_entry crc fs s = (Inr None, s\<lparr>sr_reader := None\<rparr>)"
  using assms by (subst next_entry.simps) (simp add: open_next_segment_def)

lemma rfold_read_path_grows:
  "rfold (read_path crc fs) names acc = Inr out \<Longrightarrow> \<exists>es. out = acc @ es"
proof (induction names arbitrary: acc)
  case (Cons n names)
  then obtain mid where m: "read_path crc fs n acc = Inr mid" "rfold (read_path crc fs) names mid = Inr out"
    by (auto elim: rbind_InrE)
  obtain es where "mid = acc @ es"
    using m(1) read_records_acc [of crc _ 0 acc]
    by (auto simp: read_path_def rbind_eq_Inr split: option.splits)
  then show ?case using Cons.IH [OF m(2)] by auto
qed simp

lemma read_stream_file:
  assumes "sr_reader s = Some left" "read_records crc left 0 acc = Inr mid"
  shows "\<exists>es. mid = acc @ es \<and>
    read_stream (length es + f) crc fs s acc = read_stream f crc fs (s\<lparr>sr_reader := Some []\<rparr>) mid"
  using assms
proof (induction "length left" arbitrary: s left acc rule: less_induct)
  case less
  show ?case
  proof (cases left)
    case Nil
    then have "mid = acc" using less.prems(2) by simp
    moreover have "s\<lparr>sr_reader := Some []\<rparr> = s" using less.prems(1) Nil by simp
    ultimately show ?thesis by simp
  next
    case (Cons b bs)
    then obtain sq cmd used where dec: "decode_record crc left = Inr (sq, cmd, used)"
      and more: "read_records crc left used (acc @ [\<lparr>je_sequence = sq, je_command = cmd\<rparr>]) = Inr mid"
      using less.prems(2) by (auto simp: read_records_more rbind_eq_Inr)
    have u: "16 \<le> used" "used \<le> length left" using decode_record_used [OF dec] by simp_all
    let ?e = "\<lparr>je_sequence = sq, je_command = cmd\<rparr>"
    let ?s = "s\<lparr>sr_reader := Some (drop used left)\<rparr>"
    have shorter: "length (drop used left) < length left" using u by simp
    have rest: "read_records crc (drop used left) 0 (acc @ [?e]) = Inr mid"
      using more read_records_drop [OF u(2), of crc "acc @ [?e]"] by simp
    obtain es where es: "mid = (acc @ [?e]) @ es"
      "read_stream (length es + f) crc fs ?s (acc @ [?e]) = read_stream f crc fs (?s\<lparr>sr_reader := Some []\<rparr>) mid"
      using less.hyps [OF shorter _ rest, of ?s] by auto
    have "mid = acc @ ?e # es \<and> read_stream (length (?e # es) + f) crc fs s acc =
        read_stream f crc fs (s\<lparr>sr_reader := Some []\<rparr>) mid"
      using es next_entry_record [OF less.prems(1) dec, of fs] by simp
    then show ?thesis by blast
  qed
qed

lemma read_stream_segments:
  assumes "sr_reader s = Some []"
    "rfold (read_path crc fs) (drop (current_segment s) (sr_paths s)) acc = Inr out"
  shows "\<exists>es. out = acc @ es \<and> read_stream (length es + Suc f) crc fs s acc = Inr (Some out)"
  using assms
proof (induction "length (sr_paths s) - current_segment s" arbitrary: s acc rule: less_induct)
  case less
  show ?case
  proof (cases "current_segment s < length (sr_paths s)")
    case False
    then show ?thesis using less.prems next_entry_end [of s "[]" crc fs] by simp
  next
    case True
    let ?name = "sr_paths s ! current_segment s"
    have "drop (current_segment s) (sr_paths s) = ?name # drop (Suc (current_segment s)) (sr_paths s)"
      by (rule Cons_nth_drop_Suc [OF True, symmetric])
    then obtain data mid where d: "fs_read fs ?name = Some data"
      and mid: "read_records crc data 0 acc = Inr mid"
      and rest: "rfold (read_path crc fs) (drop (Suc (current_segment s)) (sr_paths s)) mid = Inr out"
      using less.prems(2) by (auto simp: read_path_def elim!: rbind_InrE split: option.splits)
    let ?s = "s\<lparr>sr_reader := Some data, current_segment := current_segment s + 1\<rparr>"
    let ?t = "?s\<lparr>sr_reader := Some []\<rparr>"
    have ih: "\<exists>es. out = mid @ es \<and> read_stream (length es + Suc f) crc fs ?t mid = Inr (Some out)"
      by (rule less.hyps) (use True rest in auto)
    obtain es1 where es1: "out = mid @ es1" "read_stream (length es1 + Suc f) crc fs ?t mid = Inr (Some out)"
      using ih by blast
    obtain es2 where es2: "mid = acc @ es2"
      "read_stream (length es2 + (length es1 + Suc f)) crc fs ?s acc =
         read_stream (length es1 + Suc f) crc fs ?t mid"
      using read_stream_file [of ?s data crc acc mid "length es1 + Suc f" fs] mid by auto
    have "next_entry crc fs s = next_entry crc fs ?s"
      by (rule next_entry_segment [OF less.prems(1) _ True d]) simp
    then have "read_stream (length es2 + (length es1 + Suc f)) crc fs s acc =
        read_stream (length es2 + (length es1 + Suc f)) crc fs ?s acc" by simp
    then have "out = acc @ (es2 @ es1) \<and>
        read_stream (length (es2 @ es1) + Suc f) crc fs s acc = Inr (Some out)"
      using es1 es2 by (simp add: add.assoc)
    then show ?thesis by blast
  qed
qed

lemma streaming_equals_batch_aux:
  assumes "reader_open fs path = Inr r" "read_all crc fs r = Inr es" "streaming_open fs path = Inr s"
  shows "read_stream (Suc (length es)) crc fs s [] = Inr (Some es)"
proof -
  let ?paths = "case path of Dir \<Rightarrow> list_segment_paths fs | File n \<Rightarrow> [n]"
  let ?s0 = "\<lparr>sr_paths = ?paths, current_segment = 0, sr_reader = None\<rparr>"
  have paths: "jr_paths r = ?paths"
    using assms(1) by (auto simp: reader_open_def split: journal_path.splits option.splits)
  have batch: "rfold (read_path crc fs) ?paths [] = Inr es" using assms(2) by (simp add: read_all_def paths)
  have s: "open_next_segment fs ?s0 = (Inr (?paths \<noteq> []), s)"
    using assms(3) unfolding streaming_open_def
    by (auto simp: open_next_segment_def elim!: rbind_InrE split: if_splits option.splits)
  show ?thesis
  proof (cases "?paths = []")
    case True
    then have "es = []" "sr_reader s = None" using batch s by (auto simp: open_next_segment_def)
    then show ?thesis by (simp add: next_entry.simps)
  next
    case False
    let ?t = "\<lparr>sr_paths = ?paths, current_segment = 0, sr_reader = Some []\<rparr>"
    obtain data where d: "fs_read fs (?paths ! 0) = Some data"
      using s False by (auto simp: open_next_segment_def split: option.splits)
    have "s = ?t\<lparr>sr_reader := Some data, current_segment := current_segment ?t + 1\<rparr>"
      using s False d by (simp add: open_next_segment_def)
    then have "next_entry crc fs ?t = next_entry crc fs s"
      using next_entry_segment [of ?t "[]" fs data crc] d False by simp
    then have "read_stream (Suc (length es)) crc fs s [] = read_stream (Suc (length es)) crc fs ?t []"
      by simp
    also have "\<dots> = Inr (Some es)"
      using read_stream_segments [of ?t crc fs "[]" es 0] batch by auto
    finally show ?thesis .
  qed
qed

subsection \<open>Recovering twice, and stray bytes\<close>

lemma scan_valid_accepted:
  "read_records crc data pos [] = Inr es \<Longrightarrow> pos \<le> length data \<Longrightarrow>
   scan_valid crc data pos pos ls = Inr (length data, last_seq ls es)"
proof (induction "length data - pos" arbitrary: pos es ls rule: less_induct)
  case less
  show ?case
  proof (cases "pos < length data")
    case True
    then obtain sq cmd used where dec: "decode_record crc (drop pos data) = Inr (sq, cmd, used)"
      and more: "read_records crc data (pos + used) [\<lparr>je_sequence = sq, je_command = cmd\<rparr>] = Inr es"
      using less.prems(1) by (auto simp: read_records_more rbind_eq_Inr)
    have u: "16 \<le> used" "used \<le> length data - pos" using decode_record_used [OF dec] by simp_all
    obtain es' where es': "read_records crc data (pos + used) [] = Inr es'"
      "es = \<lparr>je_sequence = sq, je_command = cmd\<rparr> # es'"
      using more read_records_acc [of crc data "pos + used" "[\<lparr>je_sequence = sq, je_command = cmd\<rparr>]"]
      by (auto simp: rbind_eq_Inr)
    have "scan_valid crc data (pos + used) (pos + used) sq = Inr (length data, last_seq sq es')"
      by (rule less.hyps [OF _ es'(1)]) (use u True in auto)
    then show ?thesis using scan_valid_record [OF True dec] es'(2) by (simp add: last_seq_def)
  next
    case False
    then show ?thesis using less.prems by (simp add: last_seq_def)
  qed
qed

lemma recover_file_valid:
  assumes "fs_read fs name = Some data" "read_records crc data 0 [] = Inr es"
  shows "recover_file crc fs name = Inr (fs, \<lparr>last_valid_sequence = last_seq 0 es, truncated_bytes = 0\<rparr>)"
  using scan_valid_accepted [OF assms(2), of 0] assms(1) by (simp add: recover_file_def Let_def)

lemma read_log_stray:
  assumes "list_all entry_ok es" "stray \<noteq> []" "length stray < 4"
  shows "read_records crc (encode_log crc es @ stray) 0 acc = Inl InvalidData"
proof -
  let ?data = "encode_log crc es @ stray"
  have "read_records crc ?data 0 acc = read_records crc ?data (length (encode_log crc es)) (acc @ es)"
    using read_records_log [of 0 ?data crc es stray acc] assms(1) by simp
  also have "\<dots> = Inl InvalidData"
    using assms(2,3) by (simp add: read_records_more decode_record_def)
  finally show ?thesis .
qed

text \<open>The streaming reader over one open segment that holds a log and a few stray bytes.\<close>

lemma read_stream_log:
  assumes "sr_reader s = Some (encode_log crc es @ stray)" "list_all entry_ok es" "length stray < 4"
    "length (sr_paths s) \<le> current_segment s"
  shows "read_stream (Suc (length es)) crc fs s acc = Inr (Some (acc @ es))"
  using assms
proof (induction es arbitrary: s acc)
  case Nil
  then show ?case using next_entry_end [of s stray crc fs] by simp
next
  case (Cons e es)
  let ?s = "s\<lparr>sr_reader := Some (encode_log crc es @ stray)\<rparr>"
  have "decode_record crc (encode_log crc (e # es) @ stray) =
      Inr (je_sequence e, je_command e, length (encode_entry crc e))"
    using decode_entry [of e crc "encode_log crc es @ stray"] Cons.prems(2) by simp
  from next_entry_record [OF Cons.prems(1) this, of fs]
  have "next_entry crc fs s = (Inr (Some e), ?s)" by simp
  moreover have "read_stream (Suc (length es)) crc fs ?s (acc @ [e]) = Inr (Some ((acc @ [e]) @ es))"
    by (rule Cons.IH) (use Cons.prems in simp_all)
  ultimately show ?case by simp
qed

lemma stream_log_stray:
  assumes "list_all entry_ok es" "length stray < 4" "fs_read fs name = Some (encode_log crc es @ stray)"
  shows "\<exists>s. streaming_open fs (File name) = Inr s \<and> read_stream (Suc (length es)) crc fs s [] = Inr (Some es)"
  using read_stream_log [of "\<lparr>sr_paths = [name], current_segment = 1,
      sr_reader = Some (encode_log crc es @ stray)\<rparr>" crc es stray fs "[]"] assms
  by (simp add: streaming_open_def open_next_segment_def)

end
