(* ===== verification/Mx_Wal_Write.thy ===== *)
theory Mx_Wal_Write
  imports Mx_Wal_Laws "HOL-Library.Multiset"
begin

text \<open>
  \<open>writer.rs\<close>: the append-only journal writer, on one file or on rotated segments. Every
  operation returns the directory and the writer as they are left, and what went wrong if something
  did: a failed write leaves part of a record behind, a failed rotation leaves the index advanced, and a
  counter at its width panics.
\<close>

record segmented_writer =
  max_segment_bytes :: nat
  current_segment_index :: nat
  current_segment_size :: nat
  seg_file :: file_name

datatype writer = Single file_name | Segmented segmented_writer

type_synonym 'w io = "directory \<times> 'w \<times> failure option"

definition write_all :: "disk \<Rightarrow> directory \<Rightarrow> file_name \<Rightarrow> byte list \<Rightarrow> directory \<times> journal_error option" where
  "write_all d fs name data =
     (case faults d fs name data of
        None \<Rightarrow> (fs_append fs name data, None)
      | Some n \<Rightarrow> (fs_append fs name (take n data), Some IoError))"

text \<open>A path without a file name (an empty path, a root, \<open>..\<close>) names no regular file to open.\<close>

definition writer_open :: "disk \<Rightarrow> directory \<Rightarrow> path \<Rightarrow> directory \<times> (journal_error + writer)" where
  "writer_open d fs path =
     (if create_parent_fails d fs path then (fs, Inl IoError)
      else case path_file_name path of
          None \<Rightarrow> (fs, Inl IoError)
        | Some name \<Rightarrow>
            if open_fails d fs name then (fs, Inl IoError)
            else (fs_open_append fs name, Inr (Single name)))"

definition open_segmented :: "disk \<Rightarrow> directory \<Rightarrow> nat \<Rightarrow> directory \<times> (journal_error + writer)" where
  "open_segmented d fs max_bytes =
     (if mkdir_fails d fs then (fs, Inl IoError)
      else
      let max_bytes = max max_bytes 1;
          segments = list_writer_segments fs;
          (index, file) =
            (if segments \<noteq> [] then
               ((case parse_segment_index (last segments) of Some i \<Rightarrow> i | None \<Rightarrow> 1), last segments)
             else (1, segment_path 1))
      in if open_fails d fs file then (fs, Inl IoError)
         else
           let fs' = fs_open_append fs file in
           (fs', Inr (Segmented \<lparr>max_segment_bytes = max_bytes, current_segment_index = index,
                                 current_segment_size = fs_len fs' file, seg_file = file\<rparr>)))"

definition rotate_segment :: "disk \<Rightarrow> directory \<Rightarrow> segmented_writer \<Rightarrow> segmented_writer io" where
  "rotate_segment d fs w =
     (case add_u64 (current_segment_index w) 1 of
        Inl p \<Rightarrow> (fs, w, Some (Panicked p))
      | Inr index \<Rightarrow>
          let w1 = w\<lparr>current_segment_index := index\<rparr>;
              next_path = segment_path index
          in if open_fails d fs next_path then (fs, w1, Some (Failed IoError))
             else (fs_open_append fs next_path, w1\<lparr>seg_file := next_path, current_segment_size := 0\<rparr>, None))"

definition write_segment :: "disk \<Rightarrow> directory \<Rightarrow> segmented_writer \<Rightarrow> byte list \<Rightarrow> segmented_writer io" where
  "write_segment d fs w bytes =
     (case write_all d fs (seg_file w) bytes of
        (fs', Some e) \<Rightarrow> (fs', w, Some (Failed e))
      | (fs', None) \<Rightarrow>
          (case add_u64 (current_segment_size w) (length bytes) of
             Inl p \<Rightarrow> (fs', w, Some (Panicked p))
           | Inr new_size \<Rightarrow> (fs', w\<lparr>current_segment_size := new_size\<rparr>, None)))"

definition append_segmented :: "disk \<Rightarrow> directory \<Rightarrow> segmented_writer \<Rightarrow> byte list \<Rightarrow> segmented_writer io" where
  "append_segmented d fs w bytes =
     (case add_u64 (current_segment_size w) (length bytes) of
        Inl p \<Rightarrow> (fs, w, Some (Panicked p))
      | Inr next_size \<Rightarrow>
          if 0 < current_segment_size w \<and> max_segment_bytes w < next_size then
            (case rotate_segment d fs w of
               (fs', w', Some e) \<Rightarrow> (fs', w', Some e)
             | (fs', w', None) \<Rightarrow> write_segment d fs' w' bytes)
          else write_segment d fs w bytes)"

fun append_raw :: "disk \<Rightarrow> directory \<Rightarrow> writer \<Rightarrow> byte list \<Rightarrow> writer io" where
  "append_raw d fs (Single name) bytes =
     (case write_all d fs name bytes of (fs', err) \<Rightarrow> (fs', Single name, map_option Failed err))"
| "append_raw d fs (Segmented w) bytes =
     (case append_segmented d fs w bytes of (fs', w', err) \<Rightarrow> (fs', Segmented w', err))"

text \<open>\<open>File::flush\<close> does nothing: the data is with the operating system already.\<close>

fun append_raw_batch :: "disk \<Rightarrow> directory \<Rightarrow> writer \<Rightarrow> byte list list \<Rightarrow> writer io" where
  "append_raw_batch d fs w [] = (fs, w, None)"
| "append_raw_batch d fs w (bytes # batch) =
     (case append_raw d fs w bytes of
        (fs', w', Some e) \<Rightarrow> (fs', w', Some e)
      | (fs', w', None) \<Rightarrow> append_raw_batch d fs' w' batch)"

definition writer_append :: "crc_fun \<Rightarrow> disk \<Rightarrow> directory \<Rightarrow> writer \<Rightarrow> nat \<Rightarrow> command \<Rightarrow> writer io" where
  "writer_append crc d fs w sq cmd = append_raw d fs w (encode_record crc sq cmd)"

subsection \<open>A directory of segments\<close>

text \<open>
  The segment files are number 1 to \<open>length segs\<close>, each the log of its entries; the last one may
  have a tail of bytes that are no complete record.
\<close>

definition segment_names :: "nat \<Rightarrow> file_name list" where
  "segment_names k = map segment_path [1..<Suc k]"

definition wal_files :: "crc_fun \<Rightarrow> directory \<Rightarrow> journal_entry list list \<Rightarrow> byte list \<Rightarrow> bool" where
  "wal_files crc fs segs torn \<longleftrightarrow>
     segs \<noteq> [] \<and> length segs < 10 ^ 8 \<and> (\<forall>es \<in> set segs. list_all entry_ok es) \<and>
     list_segment_paths fs = segment_names (length segs) \<and>
     (\<forall>i < length segs. fs_read fs (segment_path (Suc i)) =
        Some (encode_log crc (segs ! i) @ (if Suc i = length segs then torn else [])))"

definition wal_writer :: "crc_fun \<Rightarrow> segmented_writer \<Rightarrow> journal_entry list list \<Rightarrow> bool" where
  "wal_writer crc w segs \<longleftrightarrow>
     current_segment_index w = length segs \<and> seg_file w = segment_path (length segs) \<and>
     current_segment_size w = length (encode_log crc (last segs))"

lemma segment_names_Suc: "segment_names (Suc k) = segment_names k @ [segment_path (Suc k)]"
  by (simp add: segment_names_def)

lemma segment_names_sorted: "k < 10 ^ 8 \<Longrightarrow> sorted (segment_names k)"
  by (auto simp: sorted_iff_nth_mono_less segment_names_def less_imp_le segment_path_less
      simp del: upt_Suc)

lemma sort_add_max:
  fixes xs :: "file_name list"
  assumes "sorted (ys @ [y])" "sort xs = ys"
  shows "sort (xs @ [y]) = ys @ [y]"
  by (rule properties_for_sort) (use assms in auto)

lemma wal_files_bound: "wal_files crc fs segs torn \<Longrightarrow> length segs \<le> u64_max"
  by (simp add: wal_files_def u64_max_def)

lemma wal_files_new_segment:
  assumes "wal_files crc fs segs []" "Suc (length segs) < 10 ^ 8"
  shows "wal_files crc (fs_open_append fs (segment_path (Suc (length segs)))) (segs @ [[]]) []"
proof -
  let ?new = "segment_path (Suc (length segs))"
  have paths: "list_segment_paths fs = segment_names (length segs)" using assms(1) by (simp add: wal_files_def)
  have sorted: "sorted (segment_names (length segs) @ [?new])"
    using segment_names_sorted [OF assms(2)] by (simp add: segment_names_Suc)
  have fresh: "?new \<notin> set (segment_names (length segs))"
  proof
    assume "?new \<in> set (segment_names (length segs))"
    then obtain i where i: "?new = segment_path i" "i \<in> set [1..<Suc (length segs)]"
      unfolding segment_names_def set_map by (elim imageE)
    then have "i < Suc (length segs)" by (simp del: upt_Suc)
    then show False using i(1) using segment_path_less [of i "Suc (length segs)"] assms(2) by simp
  qed
  have none: "fs_read fs ?new = None"
  proof -
    have "set (segment_names (length segs)) = {n \<in> fst ` set fs. is_segment_file n}"
      using arg_cong [OF paths, of set] by (auto simp: list_segment_paths_def)
    then show ?thesis using fresh segment_path_is_segment by (auto simp: fs_read_None_iff)
  qed
  then have "list_segment_paths (fs_open_append fs ?new) = segment_names (length segs) @ [?new]"
    using sort_add_max [OF sorted] paths segment_path_is_segment
    by (simp add: list_segment_paths_def fs_open_append_def fs_names_put)
  moreover have "segment_path (Suc i) \<noteq> ?new" if "i < length segs" for i
    using that assms(2) segment_path_less [of "Suc i" "Suc (length segs)"] by auto
  ultimately show ?thesis
    using assms none by (auto simp: wal_files_def segment_names_Suc nth_append less_Suc_eq)
qed

lemma wal_files_append_last:
  assumes "wal_files crc fs segs []"
  shows "wal_files crc (fs_append fs (segment_path (length segs)) bytes) segs bytes"
proof -
  let ?last = "segment_path (length segs)"
  have k: "0 < length segs" "length segs < 10 ^ 8" using assms by (auto simp: wal_files_def)
  then have at: "fs_read fs ?last = Some (encode_log crc (segs ! (length segs - 1)))"
    using assms by (auto simp: wal_files_def dest: spec [of _ "length segs - 1"])
  have names: "map fst (fs_append fs ?last bytes) = map fst fs"
    using at by (simp add: fs_append_def fs_names_put)
  have other: "segment_path (Suc i) \<noteq> ?last" if "i < length segs" "Suc i \<noteq> length segs" for i
    using segment_path_less [of "Suc i" "length segs"] that k by auto
  have final: "segs ! (length segs - Suc 0) = segs ! i" if "Suc i = length segs" for i
    by (simp flip: that)
  have "fs_read (fs_append fs ?last bytes) (segment_path (Suc i)) =
      Some (encode_log crc (segs ! i) @ (if Suc i = length segs then bytes else []))" if "i < length segs" for i
  proof (cases "Suc i = length segs")
    case True then show ?thesis using at final [OF True] by simp
  next
    case False then show ?thesis using assms other that by (simp add: wal_files_def)
  qed
  then show ?thesis
    using assms names by (simp add: wal_files_def list_segment_paths_def)
qed

lemma wal_files_absorb:
  assumes "wal_files crc fs segs (encode_entry crc e)" "entry_ok e"
  shows "wal_files crc fs (butlast segs @ [last segs @ [e]]) []"
proof -
  have ne: "segs \<noteq> []" using assms(1) by (simp add: wal_files_def)
  have len: "length (butlast segs @ [last segs @ [e]]) = length segs" using ne by simp
  have "set (butlast segs @ [last segs @ [e]]) \<subseteq> set segs \<union> {last segs @ [e]}"
    using in_set_butlastD by force
  moreover have "(butlast segs @ [last segs @ [e]]) ! i =
      (if Suc i = length segs then last segs @ [e] else segs ! i)" if "i < length segs" for i
    using that ne by (auto simp: nth_append nth_butlast)
  moreover have "segs ! i = last segs" if "Suc i = length segs" for i
    using that ne by (simp add: last_conv_nth flip: that)
  ultimately show ?thesis using assms len ne last_in_set [OF ne]
    unfolding wal_files_def by auto
qed

lemma wal_files_append_entry:
  assumes "wal_files crc fs segs []" "entry_ok e"
  shows "wal_files crc (fs_append fs (segment_path (length segs)) (encode_entry crc e))
           (butlast segs @ [last segs @ [e]]) []"
  by (rule wal_files_absorb [OF wal_files_append_last [OF assms(1)] assms(2)])

text \<open>
  Appending one record: on success the entry is in the last segment or opens the next one; on
  failure the segments are as they were, with an incomplete record at the end at most.
\<close>

definition torn_tail :: "crc_fun \<Rightarrow> byte list \<Rightarrow> bool" where
  "torn_tail crc bs \<longleftrightarrow> (\<exists>e n. n < length (encode_entry crc e) \<and> bs = take n (encode_entry crc e))"

definition honest_faults :: "disk \<Rightarrow> bool" where
  "honest_faults d \<longleftrightarrow> (\<forall>fs name bytes n. faults d fs name bytes = Some n \<longrightarrow> n < length bytes)"

lemma torn_tail_Nil: "torn_tail crc []"
proof -
  have "[] = take 0 (encode_entry crc e)" "0 < length (encode_entry crc e)" for e :: journal_entry
    by (simp, use encode_entry_length [of crc e] in linarith)
  then show ?thesis unfolding torn_tail_def by blast
qed

lemma write_segment_outcome:
  assumes "wal_files crc fs segs []" "wal_writer crc w segs" "entry_ok e" "honest_faults d"
    "write_segment d fs w (encode_entry crc e) = (fs', w', err)"
    and size: "current_segment_size w + length (encode_entry crc e) \<le> u64_max"
  shows "(err = None \<longrightarrow> wal_files crc fs' (butlast segs @ [last segs @ [e]]) [] \<and>
            wal_writer crc w' (butlast segs @ [last segs @ [e]])) \<and>
         (err \<noteq> None \<longrightarrow> (\<exists>bs. wal_files crc fs' segs bs \<and> torn_tail crc bs))"
proof -
  have handle: "seg_file w = segment_path (length segs)" and ne: "segs \<noteq> []"
    using assms(1,2) by (simp_all add: wal_writer_def wal_files_def)
  show ?thesis
  proof (cases "faults d fs (seg_file w) (encode_entry crc e)")
    case None
    then have "fs' = fs_append fs (segment_path (length segs)) (encode_entry crc e)"
      "w' = w\<lparr>current_segment_size := current_segment_size w + length (encode_entry crc e)\<rparr>" "err = None"
      using assms(5) handle size by (simp_all add: write_segment_def write_all_def add_u64_def)
    moreover have "length (butlast segs @ [last segs @ [e]]) = length segs" using ne by simp
    ultimately show ?thesis using wal_files_append_entry [OF assms(1,3)] assms(2)
      by (simp add: wal_writer_def)
  next
    case (Some n)
    then have "fs' = fs_append fs (segment_path (length segs)) (take n (encode_entry crc e))" "err \<noteq> None"
      using assms(5) handle by (auto simp: write_segment_def write_all_def)
    moreover have "n < length (encode_entry crc e)" using assms(4) Some by (auto simp: honest_faults_def)
    ultimately show ?thesis using wal_files_append_last [OF assms(1)] unfolding torn_tail_def by blast
  qed
qed

lemma append_segmented_outcome:
  assumes "wal_files crc fs segs []" "wal_writer crc w segs" "entry_ok e" "honest_faults d"
    "Suc (length segs) < 10 ^ 8"
    "append_segmented d fs w (encode_entry crc e) = (fs', w', err)"
  shows "(err = None \<longrightarrow> (\<exists>segs'. wal_files crc fs' segs' [] \<and> wal_writer crc w' segs' \<and>
            concat segs' = concat segs @ [e] \<and> length segs' \<le> Suc (length segs))) \<and>
         (err \<noteq> None \<longrightarrow> (\<exists>segs' bs. wal_files crc fs' segs' bs \<and> torn_tail crc bs \<and>
            concat segs' = concat segs \<and> length segs' \<le> Suc (length segs)))"
proof (cases "0 < current_segment_size w \<and>
    max_segment_bytes w < current_segment_size w + length (encode_entry crc e) \<and>
    current_segment_size w + length (encode_entry crc e) \<le> u64_max")
  case False
  show ?thesis
  proof (cases "current_segment_size w + length (encode_entry crc e) \<le> u64_max")
    case over: False
    then have "fs' = fs" "err \<noteq> None" using assms(6) by (auto simp: append_segmented_def add_u64_def)
    then show ?thesis using assms(1) torn_tail_Nil by (metis le_SucI order_refl)
  next
    case size: True
    have small: "\<not> (0 < current_segment_size w \<and> max_segment_bytes w < current_segment_size w + length (encode_entry crc e))"
      using False size by blast
    have sum: "add_u64 (current_segment_size w) (length (encode_entry crc e)) =
        Inr (current_segment_size w + length (encode_entry crc e))" using size by (simp add: add_u64_def)
    have w: "write_segment d fs w (encode_entry crc e) = (fs', w', err)"
      using assms(6) unfolding append_segmented_def sum sum.case if_not_P [OF small] .
    have ne: "segs \<noteq> []" using assms(1) by (simp add: wal_files_def)
    have "concat (butlast segs @ [last segs @ [e]]) = concat (butlast segs @ [last segs]) @ [e]" by simp
    then have "concat (butlast segs @ [last segs @ [e]]) = concat segs @ [e]" using ne by simp
    moreover have "length (butlast segs @ [last segs @ [e]]) \<le> Suc (length segs)"
      "length segs \<le> Suc (length segs)" by simp_all
    ultimately show ?thesis using write_segment_outcome [OF assms(1-4) w size] by blast
  qed
next
  case True
  then have sum: "add_u64 (current_segment_size w) (length (encode_entry crc e)) =
      Inr (current_segment_size w + length (encode_entry crc e))" by (simp add: add_u64_def)
  have index: "add_u64 (current_segment_index w) 1 = Inr (Suc (length segs))" "current_segment_index w = length segs"
    using assms(2,5) by (simp_all add: wal_writer_def add_u64_def u64_max_def)
  show ?thesis
  proof (cases "open_fails d fs (segment_path (Suc (current_segment_index w)))")
    case fails: True
    then have "fs' = fs" "err \<noteq> None" using assms(6) True sum index by (auto simp: append_segmented_def rotate_segment_def Let_def)
    moreover have "length segs \<le> Suc (length segs)" by simp
    ultimately show ?thesis using assms(1) torn_tail_Nil by blast
  next
    case False
    let ?fs = "fs_open_append fs (segment_path (Suc (length segs)))"
    let ?w = "w\<lparr>current_segment_index := Suc (length segs),
                seg_file := segment_path (Suc (length segs)), current_segment_size := 0\<rparr>"
    have w: "write_segment d ?fs ?w (encode_entry crc e) = (fs', w', err)"
      using assms(6) True False sum index by (simp add: append_segmented_def rotate_segment_def Let_def)
    have files: "wal_files crc ?fs (segs @ [[]]) []" by (rule wal_files_new_segment [OF assms(1,5)])
    have writer: "wal_writer crc ?w (segs @ [[]])" by (simp add: wal_writer_def)
    have "concat (butlast (segs @ [[]]) @ [last (segs @ [[]]) @ [e]]) = concat segs @ [e]"
      "length (butlast (segs @ [[]]) @ [last (segs @ [[]]) @ [e]]) \<le> Suc (length segs)"
      "concat (segs @ [[]]) = concat segs" "length (segs @ [[]]) \<le> Suc (length segs)" by simp_all
    moreover have "current_segment_size ?w + length (encode_entry crc e) \<le> u64_max" using True by simp
    ultimately show ?thesis using write_segment_outcome [OF files writer assms(3,4) w] by blast
  qed
qed

subsection \<open>Opening\<close>

lemma wal_files_writer_segments:
  assumes "wal_files crc fs segs torn"
  shows "list_writer_segments fs = segment_names (length segs)"
proof -
  have paths: "sort (filter is_segment_file (map fst fs)) = segment_names (length segs)"
    using assms by (simp add: wal_files_def list_segment_paths_def)
  have "parse_segment_index n \<noteq> None \<longleftrightarrow> is_segment_file n" if "n \<in> set (map fst fs)" for n
  proof
    assume "is_segment_file n"
    then have "n \<in> set (segment_names (length segs))" using that by (simp flip: paths)
    then obtain i where "i \<in> set [1..<Suc (length segs)]" "n = segment_path i"
      unfolding segment_names_def set_map by (elim imageE)
    moreover from this have "i \<le> u64_max" using wal_files_bound [OF assms] by (simp del: upt_Suc)
    ultimately show "parse_segment_index n \<noteq> None" by (simp add: parse_segment_path)
  qed (simp add: parse_segment_index_def split: if_splits)
  then have "filter (\<lambda>n. parse_segment_index n \<noteq> None) (map fst fs) = filter is_segment_file (map fst fs)"
    by (rule filter_cong [OF refl])
  then show ?thesis using paths by (simp add: list_writer_segments_def)
qed

lemma open_segmented_resumes:
  assumes "wal_files crc fs segs []" "\<not> open_fails d fs (segment_path (length segs))" "\<not> mkdir_fails d fs"
  shows "\<exists>w. open_segmented d fs m = (fs, Inr (Segmented w)) \<and> wal_writer crc w segs \<and>
             max_segment_bytes w = max m 1"
proof -
  have ne: "segs \<noteq> []" using assms(1) by (simp add: wal_files_def)
  have segs: "list_writer_segments fs = segment_names (length segs)" by (rule wal_files_writer_segments [OF assms(1)])
  have last: "segment_names (length segs) \<noteq> []" "last (segment_names (length segs)) = segment_path (length segs)"
    using ne by (cases "length segs"; simp add: segment_names_Suc)+
  have "Suc (length segs - 1) = length segs" "length segs - 1 < length segs" using ne by auto
  then have "fs_read fs (segment_path (length segs)) = Some (encode_log crc (last segs))"
    using assms(1) ne unfolding wal_files_def by (metis append_Nil2 last_conv_nth)
  then show ?thesis
    using segs last assms(2,3) parse_segment_path [OF wal_files_bound [OF assms(1)]]
    by (simp add: open_segmented_def Let_def fs_open_append_def fs_len_def wal_writer_def)
qed

lemma open_segmented_fresh:
  assumes "filter is_segment_file (map fst fs) = []" "\<not> open_fails d fs (segment_path 1)" "\<not> mkdir_fails d fs"
  shows "\<exists>fs' w. open_segmented d fs m = (fs', Inr (Segmented w)) \<and>
    wal_files crc fs' [[]] [] \<and> wal_writer crc w [[]]"
proof -
  have none: "\<And>n. n \<in> fst ` set fs \<Longrightarrow> \<not> is_segment_file n"
    using assms(1) by (auto simp: filter_empty_conv)
  then have segs: "list_writer_segments fs = []"
    by (auto simp: list_writer_segments_def filter_empty_conv parse_segment_index_def)
  have new: "fs_read fs (segment_path 1) = None"
    using none segment_path_is_segment by (auto simp: fs_read_None_iff)
  have "list_segment_paths (fs_open_append fs (segment_path 1)) = segment_names 1"
    using new assms(1) segment_path_is_segment
    by (simp add: list_segment_paths_def fs_open_append_def fs_names_put segment_names_def)
  then have "wal_files crc (fs_open_append fs (segment_path 1)) [[]] []"
    using new by (simp add: wal_files_def)
  then show ?thesis using segs assms(2,3) new
    by (simp add: open_segmented_def Let_def wal_writer_def fs_len_def)
qed

subsection \<open>Reading back and recovering a directory of segments\<close>

lemma read_paths_log:
  assumes "\<And>i. i < length segs \<Longrightarrow> fs_read fs (names ! i) = Some (encode_log crc (segs ! i))"
    "length names = length segs" "\<forall>es \<in> set segs. list_all entry_ok es"
  shows "rfold (read_path crc fs) names acc = Inr (acc @ concat segs)"
  using assms
proof (induction segs arbitrary: names acc)
  case (Cons es segs)
  then obtain n ns where n: "names = n # ns" by (cases names) auto
  have "fs_read fs (ns ! i) = Some (encode_log crc (segs ! i))" if "i < length segs" for i
    using Cons.prems(1) [of "Suc i"] that n by simp
  note ih = Cons.IH [OF this]
  show ?case using Cons.prems(1) [of 0] Cons.prems(2,3) n ih
    by (simp add: read_path_def read_encode_log)
qed simp

lemma segment_names_nth: "i < k \<Longrightarrow> segment_names k ! i = segment_path (Suc i)"
  by (simp add: segment_names_def del: upt_Suc)

lemma segment_names_length [simp]: "length (segment_names k) = k"
  by (simp add: segment_names_def)

lemma wal_files_read_all:
  assumes "wal_files crc fs segs []"
  shows "\<exists>r. reader_open fs Dir = Inr r \<and> read_all crc fs r = Inr (concat segs)"
  using read_paths_log [of segs fs "segment_names (length segs)" crc "[]"] assms
  by (auto simp: wal_files_def reader_open_def read_all_def segment_names_nth)

end
