(* ===== verification/Mx_Wal_Crash.thy ===== *)
theory Mx_Wal_Crash
  imports Mx_Wal_Write
begin

text \<open>
  Writing, crashing, recovering, reading: the writer, the recovery and the readers on one
  directory. Whatever append fails, and wherever in its record, recovery leaves exactly the entries
  whose append succeeded, in order, and the writer resumes from there.
\<close>

text \<open>A client's loop over \<open>append\<close> that stops at the first error; it counts the successes.\<close>

fun append_entries ::
  "crc_fun \<Rightarrow> disk \<Rightarrow> directory \<Rightarrow> writer \<Rightarrow> journal_entry list \<Rightarrow>
   directory \<times> writer \<times> nat \<times> failure option" where
  "append_entries crc d fs w [] = (fs, w, 0, None)"
| "append_entries crc d fs w (e # es) =
     (case writer_append crc d fs w (je_sequence e) (je_command e) of
        (fs', w', Some err) \<Rightarrow> (fs', w', 0, Some err)
      | (fs', w', None) \<Rightarrow>
          (case append_entries crc d fs' w' es of (fs'', w'', k, err) \<Rightarrow> (fs'', w'', Suc k, err)))"

definition append_post where
  "append_post crc segs es fs' w' k err \<longleftrightarrow>
     k \<le> length es \<and> (err = None \<longrightarrow> k = length es) \<and>
     (\<exists>segs' bs. wal_files crc fs' segs' bs \<and> torn_tail crc bs \<and>
        concat segs' = concat segs @ take k es \<and>
        (err = None \<longrightarrow> bs = [] \<and> (\<exists>sw. w' = Segmented sw \<and> wal_writer crc sw segs')))"

lemma append_entries_post:
  assumes "wal_files crc fs segs []" "wal_writer crc sw segs" "list_all entry_ok es" "honest_faults d"
    "length segs + length es < 10 ^ 8"
    "append_entries crc d fs (Segmented sw) es = (fs', w', k, err)"
  shows "append_post crc segs es fs' w' k err"
  using assms
proof (induction es arbitrary: fs sw segs k)
  case Nil
  then show ?case using torn_tail_Nil by (auto simp: append_post_def)
next
  case (Cons e es)
  obtain fs1 sw1 err1 where one: "append_segmented d fs sw (encode_entry crc e) = (fs1, sw1, err1)"
    by (metis prod_cases3)
  then have wa: "writer_append crc d fs (Segmented sw) (je_sequence e) (je_command e) = (fs1, Segmented sw1, err1)"
    by (simp add: writer_append_def encode_entry_def)
  have e: "entry_ok e" "list_all entry_ok es" using Cons.prems(3) by simp_all
  have room: "Suc (length segs) < 10 ^ 8" using Cons.prems(5) by simp
  note out = append_segmented_outcome [OF Cons.prems(1,2) e(1) Cons.prems(4) room one]
  show ?case
  proof (cases err1)
    case (Some x)
    then have r: "fs' = fs1" "k = 0" "err \<noteq> None" using Cons.prems(6) wa by auto
    obtain segs' bs where "wal_files crc fs1 segs' bs" "torn_tail crc bs" "concat segs' = concat segs"
      using out Some by blast
    then show ?thesis using r unfolding append_post_def by (metis append_Nil2 le0 take0)
  next
    case None
    then obtain segs1 where s1: "wal_files crc fs1 segs1 []" "wal_writer crc sw1 segs1"
      "concat segs1 = concat segs @ [e]" "length segs1 \<le> Suc (length segs)" using out by blast
    obtain k1 where k1: "append_entries crc d fs1 (Segmented sw1) es = (fs', w', k1, err)" "k = Suc k1"
      using Cons.prems(6) wa None by (auto split: prod.splits)
    have "length segs1 + length es < 10 ^ 8" using s1(4) Cons.prems(5) by simp
    then have "append_post crc segs1 es fs' w' k1 err"
      using Cons.IH [OF s1(1,2) e(2) Cons.prems(4) _ k1(1)] by blast
    then show ?thesis using s1(3) k1(2) unfolding append_post_def by simp
  qed
qed

text \<open>On a disk that works, with fewer than \<open>10 ^ 8\<close> entries, nothing fails: a record has at most 71 bytes,
  so no counter comes near its width.\<close>

lemma encode_log_length_le: "length (encode_log crc es) \<le> 71 * length es"
proof (induction es)
  case (Cons e es)
  have "length (encode_entry crc e) \<le> 71"
    using encode_length [of "je_command e"] by (simp add: encode_entry_def encode_record_length)
  then show ?case using Cons by simp
qed simp

lemma append_segmented_healthy:
  assumes "current_segment_size w + length bytes \<le> u64_max" "current_segment_index w < u64_max"
  shows "\<exists>fs' w'. append_segmented healthy_disk fs w bytes = (fs', w', None)"
  using assms by (auto simp: append_segmented_def rotate_segment_def write_segment_def write_all_def add_u64_def Let_def)

lemma append_entries_healthy:
  assumes "wal_files crc fs segs []" "wal_writer crc sw segs" "list_all entry_ok es"
    "length segs + length es < 10 ^ 8" "length (concat segs) + length es < 10 ^ 8"
    "append_entries crc healthy_disk fs (Segmented sw) es = (fs', w', k, err)"
  shows "err = None"
  using assms
proof (induction es arbitrary: fs sw segs k)
  case (Cons e es)
  have honest: "honest_faults healthy_disk" by (simp add: honest_faults_def)
  have ne: "segs \<noteq> []" using Cons.prems(1) by (simp add: wal_files_def)
  have "length (last segs) \<le> length (concat segs)"
    using ne by (metis append_butlast_last_id concat_append concat.simps append_Nil2 length_append le_add2)
  moreover have "current_segment_size sw = length (encode_log crc (last segs))" "current_segment_index sw = length segs"
    using Cons.prems(2) by (simp_all add: wal_writer_def)
  moreover have "length (encode_entry crc e) \<le> 71" using encode_log_length_le [of crc "[e]"] by simp
  ultimately obtain fs1 sw1 where one: "append_segmented healthy_disk fs sw (encode_entry crc e) = (fs1, sw1, None)"
    using append_segmented_healthy [of sw "encode_entry crc e" fs] encode_log_length_le [of crc "last segs"] Cons.prems(4,5)
    by (auto simp: u64_max_def)
  then have wa: "writer_append crc healthy_disk fs (Segmented sw) (je_sequence e) (je_command e) = (fs1, Segmented sw1, None)"
    by (simp add: writer_append_def encode_entry_def)
  obtain segs1 where s1: "wal_files crc fs1 segs1 []" "wal_writer crc sw1 segs1"
    "concat segs1 = concat segs @ [e]" "length segs1 \<le> Suc (length segs)"
    using append_segmented_outcome [OF Cons.prems(1,2) _ honest _ one] Cons.prems(3,4) by auto
  obtain k1 where "append_entries crc healthy_disk fs1 (Segmented sw1) es = (fs', w', k1, err)"
    using Cons.prems(6) wa by (auto split: prod.splits)
  then show ?case using Cons.IH [OF s1(1,2)] s1(3,4) Cons.prems(3-5) by simp
qed simp

subsection \<open>Recovery of what a crash leaves\<close>

lemma recover_file_log:
  assumes "fs_read fs name = Some (encode_log crc es @ bs)" "torn_tail crc bs" "list_all entry_ok es"
  shows "recover_file crc fs name =
     Inr (if bs = [] then fs else fs_set_len fs name (length (encode_log crc es)),
          \<lparr>last_valid_sequence = last_seq 0 es, truncated_bytes = length bs\<rparr>)"
proof -
  let ?data = "encode_log crc es @ bs"
  let ?n = "length (encode_log crc es)"
  have "scan_valid crc ?data 0 0 0 = scan_valid crc ?data ?n ?n (last_seq 0 es)"
    using scan_valid_log [of 0 ?data crc es bs 0] assms(3) by simp
  also have "\<dots> = Inr (?n, last_seq 0 es)"
  proof (cases "bs = []")
    case False
    obtain e n where "n < length (encode_entry crc e)" "bs = take n (encode_entry crc e)"
      using assms(2) by (auto simp: torn_tail_def)
    then have "decode_record crc (drop ?n ?data) = Inl InvalidData"
      using decode_record_torn by (simp add: encode_entry_def)
    then show ?thesis using False by (intro scan_valid_stop) auto
  qed simp
  finally show ?thesis using assms(1) by (auto simp: recover_file_def Let_def)
qed

lemma recover_file_reads_log:
  assumes "fs_read fs name = Some (encode_log crc es @ bs)" "torn_tail crc bs" "list_all entry_ok es"
  shows "\<exists>fs' rep. recover_file crc fs name = Inr (fs', rep) \<and> read_path crc fs' name [] = Inr es"
proof -
  let ?fs = "if bs = [] then fs else fs_set_len fs name (length (encode_log crc es))"
  have "fs_read ?fs name = Some (encode_log crc es)" using assms(1) by simp
  then have "read_path crc ?fs name [] = Inr es" using read_encode_log [OF assms(3)] by (simp add: read_path_def)
  then show ?thesis using recover_file_log [OF assms] by blast
qed

lemma recover_step_log:
  assumes "fs_read fs name = Some (encode_log crc es @ bs)" "torn_tail crc bs" "list_all entry_ok es"
    and room: "truncated_bytes rep + length bs \<le> u64_max"
  obtains fs' where
    "recover_step crc name (fs, rep) = Inr (fs', \<lparr>last_valid_sequence =
       (if last_seq 0 es \<noteq> 0 then last_seq 0 es else last_valid_sequence rep),
       truncated_bytes = truncated_bytes rep + length bs\<rparr>)"
    "fs_read fs' name = Some (encode_log crc es)" "map fst fs' = map fst fs"
    "\<And>n. n \<noteq> name \<Longrightarrow> fs_read fs' n = fs_read fs n"
proof -
  note rf = recover_file_log [OF assms(1-3)]
  let ?fs = "if bs = [] then fs else fs_set_len fs name (length (encode_log crc es))"
  show thesis
  proof (rule that [of ?fs])
    show "fs_read ?fs name = Some (encode_log crc es)" using assms(1) by simp
    show "map fst ?fs = map fst fs" using recover_file_names [OF rf] .
    show "fs_read ?fs n = fs_read fs n" if "n \<noteq> name" for n using that by simp
  qed (use room in \<open>simp add: recover_step_def rf add_u64_def\<close>)
qed

definition nonzero_seqs :: "journal_entry list \<Rightarrow> bool" where
  "nonzero_seqs es \<longleftrightarrow> (\<forall>e \<in> set es. je_sequence e \<noteq> 0)"

lemma last_seq_append:
  "last_seq ls (es @ fs) = last_seq (last_seq ls es) fs"
  by (simp add: last_seq_def)

lemma last_seq_0:
  "nonzero_seqs es \<Longrightarrow> (if last_seq 0 es \<noteq> 0 then last_seq 0 es else ls) = last_seq ls es"
  by (auto simp: last_seq_def nonzero_seqs_def)

lemma recover_paths_log:
  assumes "\<And>i. i < length segs \<Longrightarrow> fs_read fs (names ! i) =
      Some (encode_log crc (segs ! i) @ (if Suc i = length segs then bs else []))"
    "length names = length segs" "distinct names" "\<forall>es \<in> set segs. list_all entry_ok es"
    "torn_tail crc bs" "segs \<noteq> []" "nonzero_seqs (concat segs)" "truncated_bytes rep + length bs \<le> u64_max"
  shows "\<exists>fs'. rfold (recover_step crc) names (fs, rep) =
      Inr (fs', \<lparr>last_valid_sequence = last_seq (last_valid_sequence rep) (concat segs),
                truncated_bytes = truncated_bytes rep + length bs\<rparr>) \<and>
    (\<forall>i < length segs. fs_read fs' (names ! i) = Some (encode_log crc (segs ! i))) \<and>
    map fst fs' = map fst fs \<and> (\<forall>n. n \<notin> set names \<longrightarrow> fs_read fs' n = fs_read fs n)"
  using assms
proof (induction segs arbitrary: fs names rep)
  case (Cons es segs)
  obtain n ns where n: "names = n # ns" using Cons.prems(2) by (cases names) auto
  define cut where "cut = (if segs = [] then bs else [])"
  have at: "fs_read fs n = Some (encode_log crc es @ cut)"
    using Cons.prems(1) [of 0] n by (auto simp: cut_def)
  have torn: "torn_tail crc cut" using Cons.prems(5) torn_tail_Nil by (simp add: cut_def)
  have room: "truncated_bytes rep + length cut \<le> u64_max" using Cons.prems(8) by (simp add: cut_def)
  have ok: "list_all entry_ok es" "nonzero_seqs es" "nonzero_seqs (concat segs)"
    using Cons.prems(4,7) by (simp_all add: nonzero_seqs_def)
  obtain fs1 where s1: "recover_step crc n (fs, rep) = Inr (fs1, \<lparr>last_valid_sequence =
       (if last_seq 0 es \<noteq> 0 then last_seq 0 es else last_valid_sequence rep),
       truncated_bytes = truncated_bytes rep + length cut\<rparr>)"
    "fs_read fs1 n = Some (encode_log crc es)" "map fst fs1 = map fst fs"
    "\<And>m. m \<noteq> n \<Longrightarrow> fs_read fs1 m = fs_read fs m"
    using recover_step_log [OF at torn ok(1) room] by blast
  note step = s1(1) [unfolded last_seq_0 [OF ok(2)]]
  show ?case
  proof (cases "segs = []")
    case True
    then show ?thesis using n Cons.prems(2) step s1 by (simp add: cut_def)
  next
    case False
    let ?rep = "\<lparr>last_valid_sequence = last_seq (last_valid_sequence rep) es,
                truncated_bytes = truncated_bytes rep\<rparr>"
    have fresh: "n \<notin> set ns" "distinct ns" "length ns = length segs" using Cons.prems(2,3) n by auto
    have "fs_read fs1 (ns ! i) = Some (encode_log crc (segs ! i) @ (if Suc i = length segs then bs else []))"
      if "i < length segs" for i
    proof -
      have "ns ! i \<in> set ns" using that fresh(3) by simp
      then have "ns ! i \<noteq> n" using fresh(1) by metis
      from s1(4) [OF this] show ?thesis using Cons.prems(1) [of "Suc i"] that n by simp
    qed
    from Cons.IH [OF this fresh(3,2) _ Cons.prems(5) False ok(3), of ?rep] Cons.prems(4,8)
    obtain fs2 where s2: "rfold (recover_step crc) ns (fs1, ?rep) =
      Inr (fs2, \<lparr>last_valid_sequence = last_seq (last_valid_sequence ?rep) (concat segs),
                truncated_bytes = truncated_bytes ?rep + length bs\<rparr>)"
      "\<forall>i < length segs. fs_read fs2 (ns ! i) = Some (encode_log crc (segs ! i))"
      "map fst fs2 = map fst fs1" "\<forall>m. m \<notin> set ns \<longrightarrow> fs_read fs2 m = fs_read fs1 m" by auto
    have "cut = []" using False by (simp add: cut_def)
    then have "rfold (recover_step crc) names (fs, rep) = rfold (recover_step crc) ns (fs1, ?rep)"
      using n step by simp
    moreover have "fs_read fs2 (names ! i) = Some (encode_log crc ((es # segs) ! i))"
      if "i < length (es # segs)" for i
      using that s2(2,4) s1(2) fresh n by (cases i) auto
    moreover have "\<forall>m. m \<notin> set names \<longrightarrow> fs_read fs2 m = fs_read fs m" using s2(4) s1(4) n by simp
    ultimately show ?thesis using s2(1,3) s1(3) by (simp add: last_seq_append)
  qed
qed simp

lemma segment_names_distinct: "k \<le> u64_max \<Longrightarrow> distinct (segment_names k)"
  unfolding segment_names_def distinct_map
  by (auto intro: inj_on_subset [OF segment_path_inj] simp del: upt_Suc)

lemma recover_dir_wal:
  assumes "wal_files crc fs segs bs" "torn_tail crc bs" "nonzero_seqs (concat segs)"
  shows "\<exists>fs'. recover_dir crc fs = Inr (fs', \<lparr>last_valid_sequence = last_seq 0 (concat segs),
            truncated_bytes = length bs\<rparr>) \<and> wal_files crc fs' segs []"
proof -
  have w: "segs \<noteq> []" "\<forall>es \<in> set segs. list_all entry_ok es"
    "list_segment_paths fs = segment_names (length segs)"
    using assms(1) by (simp_all add: wal_files_def)
  have files: "fs_read fs (segment_names (length segs) ! i) =
      Some (encode_log crc (segs ! i) @ (if Suc i = length segs then bs else []))" if "i < length segs" for i
    using assms(1) that by (simp add: wal_files_def segment_names_nth)
  obtain e n where "n < length (encode_entry crc e)" "bs = take n (encode_entry crc e)"
    using assms(2) by (auto simp: torn_tail_def)
  then have room: "truncated_bytes default_report + length bs \<le> u64_max"
    using encode_log_length_le [of crc "[e]"] by (simp add: default_report_def u64_max_def)
  from recover_paths_log [OF files segment_names_length segment_names_distinct [OF wal_files_bound [OF assms(1)]]
      w(2) assms(2) w(1) assms(3) room]
  obtain fs' where r: "rfold (recover_step crc) (segment_names (length segs)) (fs, default_report) =
      Inr (fs', \<lparr>last_valid_sequence = last_seq 0 (concat segs), truncated_bytes = length bs\<rparr>)"
    "\<forall>i < length segs. fs_read fs' (segment_names (length segs) ! i) = Some (encode_log crc (segs ! i))"
    "map fst fs' = map fst fs"
    by (auto simp: default_report_def)
  have "list_segment_paths fs' = list_segment_paths fs" using r(3) by (simp add: list_segment_paths_def)
  then have "wal_files crc fs' segs []" using assms(1) r(2) by (simp add: wal_files_def segment_names_nth)
  then show ?thesis using r(1) w(3) by (simp add: recover_dir_def)
qed

lemma nonzero_seqs_take: "nonzero_seqs es \<Longrightarrow> nonzero_seqs (take k es)"
  by (auto simp: nonzero_seqs_def dest: in_set_takeD)

end
