(* ===== verification/Mx_Async_Journal.thy ===== *)
theory Mx_Async_Journal
  imports Mx_Wal_Crash
begin

text \<open>
  \<open>async_journal.rs\<close>: clients append through a bounded channel to one worker thread that
  writes in batches. Clients and worker interleave at the granularity of their atomic operations:
  each load, store or swap of a shared flag or counter, each channel operation, each record written, the
  drop of the receiver is one step. \<open>accepted\<close>, \<open>durable\<close>, \<open>degraded\<close> and \<open>closed\<close> are the shared
  atomics. The channel holds at most \<open>queue_capacity\<close> messages; a rendezvous channel
  (capacity 0) and the failure injected by the tests are not modelled. When the worker leaves its loop it
  drops the receiver, and with it what the channel still holds; until then sends succeed. The channel is
  never disconnected on the other side while the worker runs: the journal closes before it is dropped.
\<close>

record async_config =
  queue_capacity :: nat
  batch_size :: nat
  flush_interval_ms :: nat
  segment_max_bytes :: nat

definition default_config :: async_config where
  "default_config = \<lparr>queue_capacity = 1024, batch_size = 64, flush_interval_ms = 10,
     segment_max_bytes = 64 * 1024 * 1024\<rparr>"

datatype message = Append nat "byte list" | Shutdown

text \<open>Where a client is: in \<open>append\<close> after its first check, after its second, after the send;
  in \<open>close\<close> after the swap, after the send; or done, with the error returned.\<close>

datatype client =
    Idle
  | CheckClosed nat command
  | Sending nat command
  | Publishing nat
  | SendShutdown
  | Joining
  | Done "journal_error option"

text \<open>Where the worker is: waiting for the first message of a batch; collecting more; writing the records
  that are left of the batch; about to store that it is degraded; about to store what is durable; out of
  the loop; gone, with the receiver.\<close>

datatype worker =
    Receiving
  | Collecting "byte list list" nat
  | Writing "byte list list" nat bool
  | Degrading
  | Storing nat bool
  | Leaving
  | Exited

text \<open>\<open>sent\<close> is a history variable: the entries whose \<open>try_send\<close> succeeded, in order.\<close>

record async_journal =
  queue :: "message list"
  accepted :: nat
  durable :: nat
  degraded :: bool
  closed :: bool
  worker :: worker
  aj_writer :: writer
  aj_dir :: directory
  clients :: "nat \<Rightarrow> client"
  sent :: "journal_entry list"

definition first_segment_path :: "path \<Rightarrow> path" where
  "first_segment_path path_prefix = with_extension path_prefix ''wal''"

definition async_open :: "disk \<Rightarrow> directory \<Rightarrow> path \<Rightarrow> journal_error + async_journal" where
  "async_open d fs path_prefix =
     (if create_parent_fails d fs path_prefix then Inl IoError
      else case writer_open d fs (first_segment_path path_prefix) of
        (fs', Inl e) \<Rightarrow> Inl e
      | (fs', Inr w) \<Rightarrow>
          Inr \<lparr>queue = [], accepted = 0, durable = 0, degraded = False, closed = False,
               worker = Receiving, aj_writer = w, aj_dir = fs', clients = (\<lambda>_. Idle), sent = []\<rparr>)"

definition at_rest :: "client \<Rightarrow> bool" where
  "at_rest c \<longleftrightarrow> c = Idle \<or> (\<exists>r. c = Done r)"

definition set_client :: "nat \<Rightarrow> client \<Rightarrow> async_journal \<Rightarrow> async_journal" where
  "set_client c ph s = s\<lparr>clients := (clients s)(c := ph)\<rparr>"

definition begin_append :: "nat \<Rightarrow> nat \<Rightarrow> command \<Rightarrow> async_journal \<Rightarrow> async_journal" where
  "begin_append c sq cmd s =
     set_client c (if degraded s then Done (Some WriterDegraded) else CheckClosed sq cmd) s"

definition check_closed :: "nat \<Rightarrow> nat \<Rightarrow> command \<Rightarrow> async_journal \<Rightarrow> async_journal" where
  "check_closed c sq cmd s =
     set_client c (if closed s then Done (Some WriterStopped) else Sending sq cmd) s"

definition try_send ::
  "crc_fun \<Rightarrow> async_config \<Rightarrow> nat \<Rightarrow> nat \<Rightarrow> command \<Rightarrow> async_journal \<Rightarrow> async_journal" where
  "try_send crc cfg c sq cmd s =
     (if worker s = Exited then set_client c (Done (Some WriterStopped)) s
      else if queue_capacity cfg \<le> length (queue s) then set_client c (Done (Some QueueFull)) s
      else set_client c (Publishing sq)
             (s\<lparr>queue := queue s @ [Append sq (encode_record crc sq cmd)],
                sent := sent s @ [\<lparr>je_sequence = sq, je_command = cmd\<rparr>]\<rparr>))"

definition publish :: "nat \<Rightarrow> nat \<Rightarrow> async_journal \<Rightarrow> async_journal" where
  "publish c sq s = set_client c (Done None) (s\<lparr>accepted := sq\<rparr>)"

definition begin_close :: "nat \<Rightarrow> async_journal \<Rightarrow> async_journal" where
  "begin_close c s =
     (if closed s then set_client c (Done None) s
      else set_client c SendShutdown (s\<lparr>closed := True\<rparr>))"

text \<open>\<open>tx.send\<close> waits for room; when the receiver is gone its error is dropped.\<close>

definition send_shutdown :: "async_config \<Rightarrow> nat \<Rightarrow> async_journal \<Rightarrow> async_journal option" where
  "send_shutdown cfg c s =
     (if worker s = Exited then Some (set_client c Joining s)
      else if queue_capacity cfg \<le> length (queue s) then None
      else Some (set_client c Joining (s\<lparr>queue := queue s @ [Shutdown]\<rparr>)))"

text \<open>One step of the worker: \<open>None\<close> while it waits for a message and when it is gone. The record's bytes go
  out one \<open>append_raw\<close> at a time (the loop of \<open>append_raw_batch\<close>, see below); a panic there would
  unwind the thread, which drops the receiver without a store.\<close>

definition worker_step :: "disk \<Rightarrow> async_config \<Rightarrow> async_journal \<Rightarrow> async_journal option" where
  "worker_step d cfg s =
     (case worker s of
        Receiving \<Rightarrow>
          (case queue s of
             [] \<Rightarrow> None
           | Append sq bytes # q \<Rightarrow> Some (s\<lparr>queue := q, worker := Collecting [bytes] sq\<rparr>)
           | Shutdown # q \<Rightarrow> Some (s\<lparr>queue := q, worker := Leaving\<rparr>))
      | Collecting batch last_sequence \<Rightarrow>
          if length batch < max (batch_size cfg) 1 then
            (case queue s of
               [] \<Rightarrow> Some (s\<lparr>worker := Writing batch last_sequence False\<rparr>)
             | Append sq bytes # q \<Rightarrow> Some (s\<lparr>queue := q, worker := Collecting (batch @ [bytes]) sq\<rparr>)
             | Shutdown # q \<Rightarrow> Some (s\<lparr>queue := q, worker := Writing batch last_sequence True\<rparr>))
          else Some (s\<lparr>worker := Writing batch last_sequence False\<rparr>)
      | Writing [] last_sequence should_exit \<Rightarrow> Some (s\<lparr>worker := Storing last_sequence should_exit\<rparr>)
      | Writing (bytes # rest) last_sequence should_exit \<Rightarrow>
          (case append_raw d (aj_dir s) (aj_writer s) bytes of (fs, w, err) \<Rightarrow>
             Some (s\<lparr>aj_dir := fs, aj_writer := w, worker :=
               (case err of
                  None \<Rightarrow> Writing rest last_sequence should_exit
                | Some (Failed e) \<Rightarrow> Degrading
                | Some (Panicked p) \<Rightarrow> Leaving)\<rparr>))
      | Degrading \<Rightarrow> Some (s\<lparr>degraded := True, worker := Leaving\<rparr>)
      | Storing last_sequence should_exit \<Rightarrow>
          Some (s\<lparr>durable := last_sequence, worker := (if should_exit then Leaving else Receiving)\<rparr>)
      | Leaving \<Rightarrow> Some (s\<lparr>worker := Exited, queue := []\<rparr>)
      | Exited \<Rightarrow> None)"

inductive async_step :: "crc_fun \<Rightarrow> disk \<Rightarrow> async_config \<Rightarrow> async_journal \<Rightarrow> async_journal \<Rightarrow> bool"
  for crc d cfg where
  step_append: "at_rest (clients s c) \<Longrightarrow> command_ok cmd \<Longrightarrow> sq \<le> u64_max \<Longrightarrow>
     async_step crc d cfg s (begin_append c sq cmd s)"
| step_check: "clients s c = CheckClosed sq cmd \<Longrightarrow> async_step crc d cfg s (check_closed c sq cmd s)"
| step_send: "clients s c = Sending sq cmd \<Longrightarrow> async_step crc d cfg s (try_send crc cfg c sq cmd s)"
| step_publish: "clients s c = Publishing sq \<Longrightarrow> async_step crc d cfg s (publish c sq s)"
| step_close: "at_rest (clients s c) \<Longrightarrow> async_step crc d cfg s (begin_close c s)"
| step_shutdown: "clients s c = SendShutdown \<Longrightarrow> send_shutdown cfg c s = Some t \<Longrightarrow>
     async_step crc d cfg s t"
| step_join: "clients s c = Joining \<Longrightarrow> worker s = Exited \<Longrightarrow>
     async_step crc d cfg s (set_client c (Done None) s)"
| step_worker: "worker_step d cfg s = Some t \<Longrightarrow> async_step crc d cfg s t"

inductive async_reachable ::
  "crc_fun \<Rightarrow> disk \<Rightarrow> async_config \<Rightarrow> async_journal \<Rightarrow> async_journal \<Rightarrow> bool"
  for crc d cfg s0 where
  reach_start: "async_reachable crc d cfg s0 s0"
| reach_step: "async_reachable crc d cfg s0 s \<Longrightarrow> async_step crc d cfg s t \<Longrightarrow>
     async_reachable crc d cfg s0 t"

subsection \<open>The invariant of the pipeline\<close>

fun appends :: "message list \<Rightarrow> (nat \<times> byte list) list" where
  "appends [] = []"
| "appends (Append sq bytes # q) = (sq, bytes) # appends q"
| "appends (Shutdown # q) = appends q"

lemma appends_append [simp]: "appends (q1 @ q2) = appends q1 @ appends q2"
  by (induction q1 rule: appends.induct) simp_all

definition record_of :: "crc_fun \<Rightarrow> journal_entry \<Rightarrow> nat \<times> byte list" where
  "record_of crc e = (je_sequence e, encode_entry crc e)"

text \<open>
  \<open>k\<close> entries are in the file; \<open>j\<close> of them are durable; \<open>es0\<close> is what the file held when
  the journal was opened.
\<close>

definition file_holds where
  "file_holds crc name es0 s k bs \<longleftrightarrow> k \<le> length (sent s) \<and> aj_writer s = Single name \<and>
     fs_read (aj_dir s) name = Some (encode_log crc (es0 @ take k (sent s)) @ bs)"

text \<open>\<open>es\<close> is what the worker has taken from the channel and not yet written.\<close>

definition in_hand where
  "in_hand crc name es0 s k batch sq \<longleftrightarrow> (\<exists>es more. file_holds crc name es0 s k [] \<and> batch = map (encode_entry crc) es \<and>
     sq = last_seq 0 (take k (sent s) @ es) \<and> drop k (sent s) = es @ more \<and>
     appends (queue s) = map (record_of crc) more)"

fun worker_inv where
  "worker_inv crc name es0 s k Receiving \<longleftrightarrow>
     file_holds crc name es0 s k [] \<and> appends (queue s) = map (record_of crc) (drop k (sent s))"
| "worker_inv crc name es0 s k (Collecting batch sq) \<longleftrightarrow> in_hand crc name es0 s k batch sq"
| "worker_inv crc name es0 s k (Writing batch sq ex) \<longleftrightarrow> in_hand crc name es0 s k batch sq"
| "worker_inv crc name es0 s k (Storing sq ex) \<longleftrightarrow> in_hand crc name es0 s k [] sq"
| "worker_inv crc name es0 s k Degrading \<longleftrightarrow> (\<exists>bs. file_holds crc name es0 s k bs \<and> torn_tail crc bs)"
| "worker_inv crc name es0 s k Leaving \<longleftrightarrow>
     (\<exists>bs. file_holds crc name es0 s k bs \<and> torn_tail crc bs \<and> (bs \<noteq> [] \<longrightarrow> degraded s))"
| "worker_inv crc name es0 s k Exited \<longleftrightarrow>
     (\<exists>bs. file_holds crc name es0 s k bs \<and> torn_tail crc bs \<and> (bs \<noteq> [] \<longrightarrow> degraded s))"

definition client_ok :: "client \<Rightarrow> bool" where
  "client_ok ph \<longleftrightarrow> (\<forall>sq cmd. ph = CheckClosed sq cmd \<or> ph = Sending sq cmd \<longrightarrow>
     command_ok cmd \<and> sq \<le> u64_max)"

definition async_inv where
  "async_inv crc cfg name es0 s \<longleftrightarrow>
     (\<exists>k. worker_inv crc name es0 s k (worker s) \<and>
        (\<exists>j \<le> k. durable s = last_seq 0 (take j (sent s)))) \<and>
     list_all entry_ok (sent s) \<and> (\<forall>c. client_ok (clients s c)) \<and>
     length (queue s) \<le> queue_capacity cfg \<and>
     (degraded s \<longrightarrow> worker s = Leaving \<or> worker s = Exited)"

lemma worker_inv_file:
  "worker_inv crc name es0 s k w \<Longrightarrow> \<exists>bs. file_holds crc name es0 s k bs \<and> torn_tail crc bs"
  by (cases w) (auto simp: in_hand_def intro: torn_tail_Nil)

lemma worker_inv_cong:
  "queue s' = queue s \<Longrightarrow> aj_writer s' = aj_writer s \<Longrightarrow> aj_dir s' = aj_dir s \<Longrightarrow> sent s' = sent s \<Longrightarrow>
   degraded s' = degraded s \<Longrightarrow> worker_inv crc name es0 s' k w = worker_inv crc name es0 s k w"
  by (cases w) (simp_all add: file_holds_def in_hand_def)

lemma set_client_sel [simp]:
  "queue (set_client c ph s) = queue s" "accepted (set_client c ph s) = accepted s"
  "durable (set_client c ph s) = durable s" "degraded (set_client c ph s) = degraded s"
  "closed (set_client c ph s) = closed s" "worker (set_client c ph s) = worker s"
  "aj_writer (set_client c ph s) = aj_writer s" "aj_dir (set_client c ph s) = aj_dir s"
  "sent (set_client c ph s) = sent s"
  "clients (set_client c ph s) c' = (if c' = c then ph else clients s c')"
  by (simp_all add: set_client_def)

lemma worker_inv_set_client [simp]:
  "worker_inv crc name es0 (set_client c ph s) k w = worker_inv crc name es0 s k w"
  by (rule worker_inv_cong) simp_all

lemma async_inv_set_client:
  "async_inv crc cfg name es0 s \<Longrightarrow> client_ok ph \<Longrightarrow> async_inv crc cfg name es0 (set_client c ph s)"
  by (simp add: async_inv_def)

lemma client_ok_simps [simp]:
  "client_ok (Done r)" "client_ok Idle" "client_ok (Publishing sq)" "client_ok SendShutdown" "client_ok Joining"
  "client_ok (CheckClosed sq cmd) \<longleftrightarrow> command_ok cmd \<and> sq \<le> u64_max"
  "client_ok (Sending sq cmd) \<longleftrightarrow> command_ok cmd \<and> sq \<le> u64_max"
  by (simp_all add: client_ok_def)

subsection \<open>Every step keeps it\<close>

text \<open>A send that succeeds puts one entry at the end of the history and of the channel.\<close>

lemma worker_inv_send:
  assumes "worker_inv crc name es0 s k (worker s)"
  shows "worker_inv crc name es0
    (s\<lparr>queue := queue s @ [Append (je_sequence e) (encode_entry crc e)], sent := sent s @ [e]\<rparr>) k (worker s)"
proof -
  let ?s = "s\<lparr>queue := queue s @ [Append (je_sequence e) (encode_entry crc e)], sent := sent s @ [e]\<rparr>"
  have le: "k \<le> length (sent s)" using worker_inv_file [OF assms] by (auto simp: file_holds_def)
  have fh: "file_holds crc name es0 ?s k bs \<longleftrightarrow> file_holds crc name es0 s k bs" for bs
    using le by (simp add: file_holds_def)
  have dr: "drop k (sent ?s) = drop k (sent s) @ [e]" "take k (sent ?s) = take k (sent s)" using le by simp_all
  have hand: "in_hand crc name es0 ?s k batch sq" if h: "in_hand crc name es0 s k batch sq" for batch sq
  proof -
    obtain es more where "file_holds crc name es0 s k []" "batch = map (encode_entry crc) es"
      "sq = last_seq 0 (take k (sent s) @ es)" "drop k (sent s) = es @ more" "appends (queue s) = map (record_of crc) more"
      using h unfolding in_hand_def by blast
    then show ?thesis unfolding in_hand_def fh dr
      by (intro exI [of _ es] exI [of _ "more @ [e]"]) (simp add: record_of_def)
  qed
  show ?thesis using assms hand fh dr by (cases "worker s") (simp_all add: record_of_def)
qed

lemma async_inv_send:
  assumes "async_inv crc cfg name es0 s" "worker s \<noteq> Exited" "length (queue s) < queue_capacity cfg" "entry_ok e"
  shows "async_inv crc cfg name es0
    (s\<lparr>queue := queue s @ [Append (je_sequence e) (encode_entry crc e)], sent := sent s @ [e]\<rparr>)"
proof -
  obtain k j where k: "worker_inv crc name es0 s k (worker s)" "j \<le> k"
    "durable s = last_seq 0 (take j (sent s))" using assms(1) by (auto simp: async_inv_def)
  have "k \<le> length (sent s)" using worker_inv_file [OF k(1)] by (auto simp: file_holds_def)
  then have "durable s = last_seq 0 (take j (sent s @ [e]))" using k(2,3) by simp
  then show ?thesis using assms worker_inv_send [OF k(1), of e] k(2) unfolding async_inv_def by auto
qed

lemma async_inv_frame:
  assumes "async_inv crc cfg name es0 s"
  shows "async_inv crc cfg name es0 (s\<lparr>accepted := a\<rparr>)" "async_inv crc cfg name es0 (s\<lparr>closed := b\<rparr>)"
  using assms worker_inv_cong [of "s\<lparr>accepted := a\<rparr>" s] worker_inv_cong [of "s\<lparr>closed := b\<rparr>" s]
  by (simp_all add: async_inv_def)

lemma worker_inv_shutdown:
  "worker_inv crc name es0 s k w \<Longrightarrow> worker_inv crc name es0 (s\<lparr>queue := queue s @ [Shutdown]\<rparr>) k w"
  by (cases w) (auto simp: file_holds_def in_hand_def)

lemma append_single:
  assumes "fs_read fs name = Some (encode_log crc es0)" "honest_faults d"
    "append_raw d fs (Single name) (encode_entry crc e) = (fs', w', err)"
  shows "w' = Single name \<and>
    (err = None \<and> fs_read fs' name = Some (encode_log crc (es0 @ [e])) \<or>
     err = Some (Failed IoError) \<and> (\<exists>bs. fs_read fs' name = Some (encode_log crc es0 @ bs) \<and> torn_tail crc bs))"
proof (cases "faults d fs name (encode_entry crc e)")
  case None
  then show ?thesis using assms(1,3) by (auto simp: write_all_def)
next
  case (Some n)
  then have "torn_tail crc (take n (encode_entry crc e))"
    using assms(2) unfolding torn_tail_def honest_faults_def by blast
  then show ?thesis using assms(1,3) Some by (auto simp: write_all_def)
qed

text \<open>One lemma per phase of the worker.\<close>

lemma async_invI:
  assumes "worker_inv crc name es0 t k (worker t)" "j \<le> k" "durable t = last_seq 0 (take j (sent t))"
    "list_all entry_ok (sent t)" "\<forall>c. client_ok (clients t c)" "length (queue t) \<le> queue_capacity cfg"
    "degraded t \<longrightarrow> worker t = Leaving \<or> worker t = Exited"
  shows "async_inv crc cfg name es0 t"
  using assms unfolding async_inv_def by blast

lemma async_invE:
  assumes "async_inv crc cfg name es0 s"
  obtains k j where "worker_inv crc name es0 s k (worker s)" "j \<le> k"
    "durable s = last_seq 0 (take j (sent s))"
    "list_all entry_ok (sent s)" "\<forall>c. client_ok (clients s c)" "length (queue s) \<le> queue_capacity cfg"
    "degraded s \<longrightarrow> worker s = Leaving \<or> worker s = Exited"
  using assms unfolding async_inv_def by blast

text \<open>Taking the next message from the channel.\<close>

lemma in_hand_take:
  assumes "in_hand crc name es0 s k batch sq" "queue s = Append sq' bytes # q"
  shows "in_hand crc name es0 (s\<lparr>queue := q, worker := w\<rparr>) k (batch @ [bytes]) sq'"
proof -
  obtain es more where es: "file_holds crc name es0 s k []" "batch = map (encode_entry crc) es"
    "drop k (sent s) = es @ more" "appends (queue s) = map (record_of crc) more"
    using assms(1) unfolding in_hand_def by blast
  then obtain e more' where "more = e # more'" "sq' = je_sequence e" "bytes = encode_entry crc e"
    "appends q = map (record_of crc) more'"
    using assms(2) by (auto simp: record_of_def Cons_eq_map_conv)
  then show ?thesis using es unfolding in_hand_def
    by (intro exI [of _ "es @ [e]"] exI [of _ more']) (simp add: file_holds_def last_seq_def)
qed

lemma in_hand_frame:
  "queue t = queue s \<or> (\<exists>q. queue s = Shutdown # queue t) \<Longrightarrow> aj_writer t = aj_writer s \<Longrightarrow> aj_dir t = aj_dir s \<Longrightarrow> sent t = sent s \<Longrightarrow>
   in_hand crc name es0 s k batch sq \<Longrightarrow> in_hand crc name es0 t k batch sq"
  by (auto simp: in_hand_def file_holds_def)

lemma worker_step_receiving:
  assumes "async_inv crc cfg name es0 s" "worker s = Receiving" "worker_step d cfg s = Some t"
  shows "async_inv crc cfg name es0 t"
  using assms(1)
proof (rule async_invE)
  fix k j assume inv: "worker_inv crc name es0 s k (worker s)" "j \<le> k"
    "durable s = last_seq 0 (take j (sent s))"
    "list_all entry_ok (sent s)" "\<forall>c. client_ok (clients s c)" "length (queue s) \<le> queue_capacity cfg"
    "degraded s \<longrightarrow> worker s = Leaving \<or> worker s = Exited"
  have r: "file_holds crc name es0 s k []" "appends (queue s) = map (record_of crc) (drop k (sent s))"
    using inv(1) assms(2) by simp_all
  show ?thesis
  proof (cases "queue s")
    case Nil
    then show ?thesis using assms by (simp add: worker_step_def)
  next
    case (Cons m q)
    show ?thesis
    proof (cases m)
      case Shutdown
      then have t: "t = s\<lparr>queue := q, worker := Leaving\<rparr>" using assms Cons by (simp add: worker_step_def)
      have "worker_inv crc name es0 t k Leaving" unfolding t
        using r(1) torn_tail_Nil by (auto simp: file_holds_def)
      then show ?thesis using inv Cons by (intro async_invI [of crc name es0 t k j]) (simp_all add: t)
    next
      case (Append sq bytes)
      then have t: "t = s\<lparr>queue := q, worker := Collecting [bytes] sq\<rparr>"
        using assms Cons by (simp add: worker_step_def)
      have "in_hand crc name es0 s k [] (last_seq 0 (take k (sent s)))" using r by (auto simp: in_hand_def)
      then have "worker_inv crc name es0 t k (worker t)"
        using in_hand_take [of crc name es0 s k "[]"] Cons Append by (simp add: t)
      then show ?thesis using inv Cons by (intro async_invI [of crc name es0 t k j]) (simp_all add: t assms(2))
    qed
  qed
qed

lemma worker_step_collecting:
  assumes "async_inv crc cfg name es0 s" "worker s = Collecting batch sq" "worker_step d cfg s = Some t"
  shows "async_inv crc cfg name es0 t"
  using assms(1)
proof (rule async_invE)
  fix k j assume inv: "worker_inv crc name es0 s k (worker s)" "j \<le> k"
    "durable s = last_seq 0 (take j (sent s))"
    "list_all entry_ok (sent s)" "\<forall>c. client_ok (clients s c)" "length (queue s) \<le> queue_capacity cfg"
    "degraded s \<longrightarrow> worker s = Leaving \<or> worker s = Exited"
  have hand: "in_hand crc name es0 s k batch sq" using inv(1) assms(2) by simp
  consider (flush) ex q where "t = s\<lparr>queue := q, worker := Writing batch sq ex\<rparr>" "q = queue s \<or> queue s = Shutdown # q"
  | (more) sq' bytes q where "queue s = Append sq' bytes # q"
        "t = s\<lparr>queue := q, worker := Collecting (batch @ [bytes]) sq'\<rparr>"
  proof (cases "length batch < max (batch_size cfg) 1 \<and> queue s \<noteq> []")
    case False
    then have "t = s\<lparr>queue := queue s, worker := Writing batch sq False\<rparr>"
      using assms(2,3) by (auto simp: worker_step_def split: if_splits)
    then show thesis using flush by blast
  next
    case True
    then obtain m q where q: "queue s = m # q" by (cases "queue s") auto
    show thesis using True assms(2,3) q flush more by (cases m) (auto simp: worker_step_def)
  qed
  then show ?thesis
  proof cases
    case flush
    then have "worker_inv crc name es0 t k (worker t)"
      using in_hand_frame [of t s, OF _ _ _ _ hand] by auto
    then show ?thesis using inv flush by (intro async_invI [of crc name es0 t k j]) (auto simp: assms(2))
  next
    case more
    then have "worker_inv crc name es0 t k (worker t)" using in_hand_take [OF hand] by simp
    then show ?thesis using inv more by (intro async_invI [of crc name es0 t k j]) (simp_all add: assms(2))
  qed
qed

lemma worker_step_writing:
  assumes "async_inv crc cfg name es0 s" "worker s = Writing batch sq ex" "worker_step d cfg s = Some t"
    "honest_faults d"
  shows "async_inv crc cfg name es0 t"
  using assms(1)
proof (rule async_invE)
  fix k j assume inv: "worker_inv crc name es0 s k (worker s)" "j \<le> k"
    "durable s = last_seq 0 (take j (sent s))"
    "list_all entry_ok (sent s)" "\<forall>c. client_ok (clients s c)" "length (queue s) \<le> queue_capacity cfg"
    "degraded s \<longrightarrow> worker s = Leaving \<or> worker s = Exited"
  obtain es more where es: "file_holds crc name es0 s k []" "batch = map (encode_entry crc) es"
    "sq = last_seq 0 (take k (sent s) @ es)" "drop k (sent s) = es @ more" "appends (queue s) = map (record_of crc) more"
    using inv(1) assms(2) by (auto simp: in_hand_def)
  have fh: "k \<le> length (sent s)" "aj_writer s = Single name"
    "fs_read (aj_dir s) name = Some (encode_log crc (es0 @ take k (sent s)))"
    using es(1) by (simp_all add: file_holds_def)
  show ?thesis
  proof (cases es)
    case Nil
    then have t: "t = s\<lparr>worker := Storing sq ex\<rparr>" using assms(2,3) es(2) by (simp add: worker_step_def)
    have "in_hand crc name es0 t k [] sq" using es Nil by (auto simp: in_hand_def file_holds_def t)
    then show ?thesis using inv by (intro async_invI [of crc name es0 t k j]) (simp_all add: t assms(2))
  next
    case (Cons e rest)
    obtain fs w err where run: "append_raw d (aj_dir s) (Single name) (encode_entry crc e) = (fs, w, err)"
      by (metis prod_cases3)
    note out = append_single [OF fh(3) assms(4) run]
    have k: "k < length (sent s)" "sent s ! k = e" "drop (Suc k) (sent s) = rest @ more"
      using es(4) Cons by (metis append_Cons drop_all list.distinct(1) not_less,
        metis append_Cons hd_drop_conv_nth drop_all list.distinct(1) list.sel(1) not_less,
        metis append_Cons drop_Suc list.sel(3) tl_drop)
    have tk: "take (Suc k) (sent s) = take k (sent s) @ [e]" using k(1,2) by (simp add: take_Suc_conv_app_nth)
    consider "err = None" | bs where "err = Some (Failed IoError)"
      "fs_read fs name = Some (encode_log crc (es0 @ take k (sent s)) @ bs)" "torn_tail crc bs" using out by blast
    then show ?thesis
    proof cases
      case 1
      then have t: "t = s\<lparr>aj_dir := fs, aj_writer := w, worker := Writing (map (encode_entry crc) rest) sq ex\<rparr>"
        using assms(2,3) run es(2) Cons fh(2) by (simp add: worker_step_def)
      have "file_holds crc name es0 t (Suc k) []" using out 1 k(1) tk by (simp add: t file_holds_def)
      moreover have "sq = last_seq 0 (take (Suc k) (sent s) @ rest)" using es(3) Cons tk by simp
      ultimately have "in_hand crc name es0 t (Suc k) (map (encode_entry crc) rest) sq"
        unfolding in_hand_def using k(3) es(5) by (intro exI [of _ rest] exI [of _ more]) (simp add: t)
      then show ?thesis using inv by (intro async_invI [of crc name es0 t "Suc k" j]) (simp_all add: t assms(2))
    next
      case 2
      then have t: "t = s\<lparr>aj_dir := fs, aj_writer := w, worker := Degrading\<rparr>"
        using assms(2,3) run es(2) Cons fh(2) by (simp add: worker_step_def)
      have "worker_inv crc name es0 t k (worker t)" using 2 out fh(1) by (auto simp: t file_holds_def)
      then show ?thesis using inv by (intro async_invI [of crc name es0 t k j]) (simp_all add: t assms(2))
    qed
  qed
qed

lemma worker_step_storing:
  assumes "async_inv crc cfg name es0 s" "worker s = Storing sq ex" "worker_step d cfg s = Some t"
  shows "async_inv crc cfg name es0 t"
  using assms(1)
proof (rule async_invE)
  fix k j assume inv: "worker_inv crc name es0 s k (worker s)" "j \<le> k"
    "durable s = last_seq 0 (take j (sent s))"
    "list_all entry_ok (sent s)" "\<forall>c. client_ok (clients s c)" "length (queue s) \<le> queue_capacity cfg"
    "degraded s \<longrightarrow> worker s = Leaving \<or> worker s = Exited"
  have st: "file_holds crc name es0 s k []" "sq = last_seq 0 (take k (sent s))"
    "appends (queue s) = map (record_of crc) (drop k (sent s))" using inv(1) assms(2) by (auto simp: in_hand_def)
  have t: "t = s\<lparr>durable := sq, worker := (if ex then Leaving else Receiving)\<rparr>"
    using assms(2,3) by (simp add: worker_step_def)
  have "worker_inv crc name es0 t k (worker t)" using st torn_tail_Nil by (auto simp: t file_holds_def)
  then show ?thesis using inv st(2) by (intro async_invI [of crc name es0 t k k]) (simp_all add: t assms(2))
qed

lemma worker_step_leaving:
  assumes "async_inv crc cfg name es0 s" "worker s = Degrading \<or> worker s = Leaving" "worker_step d cfg s = Some t"
  shows "async_inv crc cfg name es0 t"
  using assms(1)
proof (rule async_invE)
  fix k j assume inv: "worker_inv crc name es0 s k (worker s)" "j \<le> k"
    "durable s = last_seq 0 (take j (sent s))"
    "list_all entry_ok (sent s)" "\<forall>c. client_ok (clients s c)" "length (queue s) \<le> queue_capacity cfg"
    "degraded s \<longrightarrow> worker s = Leaving \<or> worker s = Exited"
  have "t = (if worker s = Degrading then s\<lparr>degraded := True, worker := Leaving\<rparr> else s\<lparr>worker := Exited, queue := []\<rparr>)"
    using assms(2,3) by (auto simp: worker_step_def)
  moreover from this have "worker_inv crc name es0 t k (worker t)"
    using inv(1) assms(2) by (auto simp: file_holds_def)
  ultimately show ?thesis using inv assms(2) by (intro async_invI [of crc name es0 t k j]) auto
qed

lemma async_inv_worker:
  assumes "async_inv crc cfg name es0 s" "worker_step d cfg s = Some t" "honest_faults d"
  shows "async_inv crc cfg name es0 t"
proof (cases "worker s")
  case Exited
  then show ?thesis using assms(2) by (simp add: worker_step_def)
next
  case Receiving
  then show ?thesis using worker_step_receiving assms(1,2) by blast
next
  case (Collecting batch sq)
  then show ?thesis using worker_step_collecting assms(1,2) by blast
next
  case (Writing batch sq ex)
  then show ?thesis using worker_step_writing assms by blast
next
  case (Storing sq ex)
  then show ?thesis using worker_step_storing assms(1,2) by blast
qed (use worker_step_leaving assms(1,2) in blast)+

lemma async_inv_step:
  assumes "async_inv crc cfg name es0 s" "async_step crc d cfg s t" "honest_faults d"
  shows "async_inv crc cfg name es0 t"
  using assms(2)
proof (cases rule: async_step.cases)
  case (step_append c cmd sq)
  then show ?thesis using async_inv_set_client [OF assms(1)] by (simp add: begin_append_def)
next
  case (step_check c sq cmd)
  then have "client_ok (CheckClosed sq cmd)" using assms(1) unfolding async_inv_def by metis
  then show ?thesis using async_inv_set_client [OF assms(1)] step_check by (simp add: check_closed_def)
next
  case (step_send c sq cmd)
  let ?e = "\<lparr>je_sequence = sq, je_command = cmd\<rparr>"
  have "client_ok (Sending sq cmd)" using assms(1) step_send unfolding async_inv_def by metis
  then have "entry_ok ?e" by (simp add: entry_ok_def)
  then show ?thesis
    using async_inv_set_client [OF assms(1), of "Done _"] step_send
      async_inv_set_client [OF async_inv_send [OF assms(1), of ?e], of "Publishing sq"]
    by (simp add: try_send_def encode_entry_def)
next
  case (step_publish c sq)
  then show ?thesis using async_inv_set_client [OF async_inv_frame(1) [OF assms(1)]] by (simp add: publish_def)
next
  case (step_close c)
  then show ?thesis using async_inv_set_client [OF async_inv_frame(2) [OF assms(1)]]
      async_inv_set_client [OF assms(1)] by (simp add: begin_close_def)
next
  case (step_shutdown c)
  have "async_inv crc cfg name es0 (s\<lparr>queue := queue s @ [Shutdown]\<rparr>)"
    if "length (queue s) < queue_capacity cfg"
    using assms(1)
  proof (rule async_invE)
    fix k j assume "worker_inv crc name es0 s k (worker s)" "j \<le> k"
      "durable s = last_seq 0 (take j (sent s))" "list_all entry_ok (sent s)"
      "\<forall>c. client_ok (clients s c)" "degraded s \<longrightarrow> worker s = Leaving \<or> worker s = Exited"
    then show ?thesis using that worker_inv_shutdown
      by (intro async_invI [of crc name es0 _ k j]) simp_all
  qed
  then have "async_inv crc cfg name es0 (set_client c Joining (s\<lparr>queue := queue s @ [Shutdown]\<rparr>))"
    if "length (queue s) < queue_capacity cfg"
    using that by (intro async_inv_set_client) simp_all
  moreover have "async_inv crc cfg name es0 (set_client c Joining s)"
    using assms(1) by (intro async_inv_set_client) simp_all
  ultimately show ?thesis using step_shutdown(2)
    by (auto simp: send_shutdown_def not_le split: if_splits)
next
  case (step_join c)
  then show ?thesis using async_inv_set_client [OF assms(1)] by simp
next
  case step_worker
  then show ?thesis using async_inv_worker assms(1,3) by blast
qed

text \<open>The file of a journal that has been opened.\<close>

definition journal_file :: "path \<Rightarrow> file_name" where
  "journal_file path_prefix = last (first_segment_path path_prefix)"

lemma async_open_file:
  assumes "async_open d fs path_prefix = Inr s"
  shows "aj_writer s = Single (journal_file path_prefix)" "aj_dir s = fs_open_append fs (journal_file path_prefix)"
    "queue s = []" "accepted s = 0" "durable s = 0" "\<not> degraded s" "\<not> closed s" "worker s = Receiving"
    "clients s = (\<lambda>_. Idle)" "sent s = []"
  using assms by (auto simp: async_open_def writer_open_def journal_file_def path_file_name_def split: if_splits option.splits)

lemma async_inv_open:
  assumes "async_open d fs path_prefix = Inr s" "fs_read fs (journal_file path_prefix) = Some (encode_log crc es0) \<or>
    fs_read fs (journal_file path_prefix) = None \<and> es0 = []"
  shows "async_inv crc cfg (journal_file path_prefix) es0 s"
proof (rule async_invI [of crc _ es0 s 0 0])
  show "worker_inv crc (journal_file path_prefix) es0 s 0 (worker s)"
    using assms(2) by (auto simp: async_open_file [OF assms(1)] file_holds_def)
qed (simp_all add: async_open_file [OF assms(1)] last_seq_def)

lemma async_inv_reachable:
  assumes "async_reachable crc d cfg s0 s" "async_inv crc cfg name es0 s0" "honest_faults d"
  shows "async_inv crc cfg name es0 s"
  using assms by (induction rule: async_reachable.induct) (auto intro: async_inv_step)

text \<open>What recovery finds in any state with the invariant.\<close>

lemma async_inv_recovers:
  assumes "async_inv crc cfg name es0 s" "list_all entry_ok es0"
  shows "\<exists>j k fs' rep. j \<le> k \<and> k \<le> length (sent s) \<and> durable s = last_seq 0 (take j (sent s)) \<and>
    recover_file crc (aj_dir s) name = Inr (fs', rep) \<and> read_path crc fs' name [] = Inr (es0 @ take k (sent s))"
  using assms(1)
proof (rule async_invE)
  fix k j assume inv: "worker_inv crc name es0 s k (worker s)" "j \<le> k"
    "durable s = last_seq 0 (take j (sent s))" "list_all entry_ok (sent s)"
  obtain bs where fh: "file_holds crc name es0 s k bs" "torn_tail crc bs"
    using worker_inv_file [OF inv(1)] by blast
  have ok: "list_all entry_ok (es0 @ take k (sent s))"
    using inv(4) assms(2) by (auto simp: list_all_iff dest: in_set_takeD)
  have holds: "fs_read (aj_dir s) name = Some (encode_log crc (es0 @ take k (sent s)) @ bs)"
    "k \<le> length (sent s)" using fh(1) by (simp_all add: file_holds_def)
  show ?thesis using recover_file_reads_log [OF holds(1) fh(2) ok] inv(2,3) holds(2) by blast
qed

subsection \<open>A run in which an accepted entry is lost\<close>

lemma async_lost_run:
  "\<exists>s0 s. async_open healthy_disk [] [''j''] = Inr s0 \<and>
     async_reachable crc healthy_disk default_config s0 s \<and>
     clients s 0 = Done None \<and> clients s 1 = Done None \<and>
     accepted s = 5 \<and> durable s = 0 \<and> worker s = Exited \<and> \<not> degraded s \<and>
     length (sent s) = 1 \<and> fs_read (aj_dir s) ''j.wal'' = Some []"
proof -
  let ?reach = "async_reachable crc healthy_disk default_config"
  let ?step = "async_step crc healthy_disk default_config"
  let ?cmd = "CancelOrder 9"
  obtain s0 where s0: "async_open healthy_disk [] [''j''] = Inr s0" "queue s0 = []" "durable s0 = 0"
    "degraded s0 = False" "closed s0 = False" "worker s0 = Receiving" "clients s0 = (\<lambda>_. Idle)" "sent s0 = []"
    "fs_read (aj_dir s0) ''j.wal'' = Some []"
    by (simp add: async_open_def writer_open_def first_segment_path_def with_extension_def path_file_name_def
      file_stem_def fs_read_Nil)
  define s1 where "s1 = begin_append 0 5 ?cmd s0"
  define s2 where "s2 = check_closed 0 5 ?cmd s1"
  define s3 where "s3 = begin_close 1 s2"
  define s4 where "s4 = set_client 1 Joining (s3\<lparr>queue := queue s3 @ [Shutdown]\<rparr>)"
  define s5 where "s5 = try_send crc default_config 0 5 ?cmd s4"
  define s6 where "s6 = publish 0 5 s5"
  define s6a where "s6a = s6\<lparr>queue := tl (queue s6), worker := Leaving\<rparr>"
  define s7 where "s7 = s6a\<lparr>worker := Exited, queue := []\<rparr>"
  define s8 where "s8 = set_client 1 (Done None) s7"
  note runs = s1_def s2_def s3_def s4_def s5_def s6_def s6a_def s7_def s8_def begin_append_def check_closed_def
    begin_close_def try_send_def publish_def default_config_def at_rest_def s0
  have step1: "?step s0 s1" unfolding s1_def
    by (rule step_append) (simp_all add: at_rest_def s0 u64_max_def)
  have step2: "?step s1 s2" unfolding s2_def by (rule step_check) (simp add: runs)
  have step3: "?step s2 s3" unfolding s3_def by (rule step_close) (simp add: runs)
  have step4: "?step s3 s4"
    by (rule step_shutdown [where c = 1]) (simp_all add: runs send_shutdown_def)
  have step5: "?step s4 s5" unfolding s5_def by (rule step_send) (simp add: runs)
  have step6: "?step s5 s6" unfolding s6_def by (rule step_publish) (simp add: runs)
  have step6a: "?step s6 s6a" by (rule step_worker) (simp add: runs worker_step_def)
  have step7: "?step s6a s7" by (rule step_worker) (simp add: runs worker_step_def)
  have step8: "?step s7 s8" unfolding s8_def by (rule step_join) (simp_all add: runs)
  have "?reach s0 s8"
    using step1 step2 step3 step4 step5 step6 step6a step7 step8 by (meson reach_start reach_step)
  moreover have "clients s8 0 = Done None \<and> clients s8 1 = Done None \<and> accepted s8 = 5 \<and>
      durable s8 = 0 \<and> worker s8 = Exited \<and> \<not> degraded s8 \<and> length (sent s8) = 1 \<and>
      fs_read (aj_dir s8) ''j.wal'' = Some []"
    by (simp add: runs)
  ultimately show ?thesis using s0(1) by blast
qed

end
