(* ===== verification/Mx_Async_Live.thy ===== *)
theory Mx_Async_Live
  imports Mx_Async_Journal
begin

text \<open>
  Progress of the asynchronous journal: the worker, left alone, comes to rest in a number of steps
  bounded by the capacity of the channel and the size of a batch, and then everything that was accepted is
  durable, unless it has exited (after a close or a failed write). The measure of a state bounds its
  remaining steps; more invariants bound the batch, and say what is durable while the worker waits and
  that it is not closing.
\<close>

fun worker_run :: "nat \<Rightarrow> disk \<Rightarrow> async_config \<Rightarrow> async_journal \<Rightarrow> async_journal" where
  "worker_run 0 d cfg s = s"
| "worker_run (Suc n) d cfg s = (case worker_step d cfg s of None \<Rightarrow> s | Some t \<Rightarrow> worker_run n d cfg t)"

fun steps_left :: "worker \<Rightarrow> nat \<Rightarrow> nat" where
  "steps_left Receiving n = 6 * n"
| "steps_left (Collecting batch _) n = 6 * n + length batch + 4"
| "steps_left (Writing batch _ _) n = 6 * n + length batch + 3"
| "steps_left (Storing _ _) n = 6 * n + 2"
| "steps_left Degrading n = 2"
| "steps_left Leaving n = 1"
| "steps_left Exited n = 0"

lemma worker_step_decreases:
  "worker_step d cfg s = Some t \<Longrightarrow> steps_left (worker t) (length (queue t)) < steps_left (worker s) (length (queue s))"
  by (cases "worker s") (auto simp: worker_step_def split: list.splits message.splits if_splits prod.splits option.splits failure.splits)

lemma worker_run_rests:
  "steps_left (worker s) (length (queue s)) \<le> n \<Longrightarrow> worker_step d cfg (worker_run n d cfg s) = None"
proof (induction n arbitrary: s)
  case 0
  then show ?case using worker_step_decreases [of d cfg s] by (cases "worker_step d cfg s") auto
next
  case (Suc n)
  show ?case
  proof (cases "worker_step d cfg s")
    case (Some t)
    then show ?thesis using Suc worker_step_decreases [OF Some] by simp
  qed simp
qed

lemma worker_run_reachable:
  "async_reachable crc d cfg s0 s \<Longrightarrow> async_reachable crc d cfg s0 (worker_run n d cfg s)"
  by (induction n arbitrary: s) (auto split: option.split intro: reach_step step_worker)

lemma worker_step_history:
  "worker_step d cfg s = Some t \<Longrightarrow> sent t = sent s \<and> closed t = closed s \<and> clients t = clients s"
  by (auto simp: worker_step_def split: worker.splits list.splits message.splits if_splits prod.splits option.splits)

lemma worker_run_history: "sent (worker_run n d cfg s) = sent s \<and> closed (worker_run n d cfg s) = closed s"
  by (induction n arbitrary: s) (auto split: option.split dest: worker_step_history)

lemma worker_rests: "worker_step d cfg s = None \<Longrightarrow> worker s = Exited \<or> worker s = Receiving \<and> queue s = []"
  by (auto simp: worker_step_def split: worker.splits list.splits message.splits if_splits prod.splits option.splits)

text \<open>The batch never outgrows its size.\<close>

definition small_batch :: "async_config \<Rightarrow> async_journal \<Rightarrow> bool" where
  "small_batch cfg s \<longleftrightarrow> (case worker s of
      Collecting batch _ \<Rightarrow> length batch \<le> max (batch_size cfg) 1
    | Writing batch _ _ \<Rightarrow> length batch \<le> max (batch_size cfg) 1 | _ \<Rightarrow> True)"

lemma small_batch_worker: "worker_step d cfg s = Some t \<Longrightarrow> small_batch cfg s \<Longrightarrow> small_batch cfg t"
  by (cases "worker s")
    (auto simp: worker_step_def small_batch_def split: list.splits message.splits if_splits prod.splits option.splits failure.splits)

lemma small_batch_step: "async_step crc d cfg s t \<Longrightarrow> small_batch cfg s \<Longrightarrow> small_batch cfg t"
  by (induction rule: async_step.cases)
    (auto simp: small_batch_def begin_append_def check_closed_def try_send_def publish_def begin_close_def
      send_shutdown_def split: if_splits intro: small_batch_worker [unfolded small_batch_def])

lemma small_batch_reachable: "async_reachable crc d cfg s0 s \<Longrightarrow> small_batch cfg s0 \<Longrightarrow> small_batch cfg s"
  by (induction rule: async_reachable.induct) (auto intro: small_batch_step)

lemma steps_left_bound:
  assumes "small_batch cfg s" "length (queue s) \<le> queue_capacity cfg"
  shows "steps_left (worker s) (length (queue s)) \<le> 6 * queue_capacity cfg + max (batch_size cfg) 1 + 4"
  using assms by (cases "worker s") (simp_all add: small_batch_def)

subsection \<open>The steps of one batch\<close>

text \<open>Written record by record, a batch does what \<open>append_raw_batch\<close> does: with no error all of it is
  out, with an error the directory and the writer are left the same.\<close>

lemma worker_writes_batch:
  assumes "worker s = Writing batch sq ex" "append_raw_batch d (aj_dir s) (aj_writer s) batch = (fs, w, err)"
  shows "err = None \<Longrightarrow> worker_run (length batch) d cfg s = s\<lparr>aj_dir := fs, aj_writer := w, worker := Writing [] sq ex\<rparr>"
    and "err = Some (Failed e) \<Longrightarrow>
      \<exists>n \<le> length batch. worker_run n d cfg s = s\<lparr>aj_dir := fs, aj_writer := w, worker := Degrading\<rparr>"
proof -
  have "(err = None \<longrightarrow> worker_run (length batch) d cfg s = s\<lparr>aj_dir := fs, aj_writer := w, worker := Writing [] sq ex\<rparr>) \<and>
    (err = Some (Failed e) \<longrightarrow>
      (\<exists>n \<le> length batch. worker_run n d cfg s = s\<lparr>aj_dir := fs, aj_writer := w, worker := Degrading\<rparr>))"
    using assms
  proof (induction batch arbitrary: s)
    case (Cons bytes rest)
    obtain fs1 w1 err1 where one: "append_raw d (aj_dir s) (aj_writer s) bytes = (fs1, w1, err1)" by (metis prod_cases3)
    show ?case
    proof (cases err1)
      case None
      let ?t = "s\<lparr>aj_dir := fs1, aj_writer := w1, worker := Writing rest sq ex\<rparr>"
      have step: "worker_step d cfg s = Some ?t" using Cons.prems(1) one None by (simp add: worker_step_def)
      have ih: "(err = None \<longrightarrow> worker_run (length rest) d cfg ?t = ?t\<lparr>aj_dir := fs, aj_writer := w, worker := Writing [] sq ex\<rparr>) \<and>
        (err = Some (Failed e) \<longrightarrow>
          (\<exists>n \<le> length rest. worker_run n d cfg ?t = ?t\<lparr>aj_dir := fs, aj_writer := w, worker := Degrading\<rparr>))"
        by (rule Cons.IH) (use Cons.prems(2) one None in simp_all)
      have more: "worker_run (Suc n) d cfg s = worker_run n d cfg ?t" for n using step by simp
      show ?thesis using ih more by (auto intro: exI [of _ "Suc _"])
    next
      case (Some x)
      then have out: "fs1 = fs" "w1 = w" "err = Some x" using Cons.prems(2) one by simp_all
      have "worker_run 1 d cfg s = s\<lparr>aj_dir := fs, aj_writer := w, worker := Degrading\<rparr>" if "x = Failed e"
        using Cons.prems(1) one Some out that by (simp add: worker_step_def)
      then show ?thesis using out by (auto intro: exI [of _ 1])
    qed
  qed simp
  then show "err = None \<Longrightarrow> worker_run (length batch) d cfg s = s\<lparr>aj_dir := fs, aj_writer := w, worker := Writing [] sq ex\<rparr>"
    and "err = Some (Failed e) \<Longrightarrow>
      \<exists>n \<le> length batch. worker_run n d cfg s = s\<lparr>aj_dir := fs, aj_writer := w, worker := Degrading\<rparr>" by blast+
qed

subsection \<open>What is durable\<close>

text \<open>While the worker waits, the durable sequence number is that of the last entry written; the entries
  not yet written are in the channel.\<close>

definition settled :: "async_journal \<Rightarrow> bool" where
  "settled s \<longleftrightarrow> (worker s = Receiving \<longrightarrow>
     durable s = last_seq 0 (take (length (sent s) - length (appends (queue s))) (sent s)))"

lemma settled_cong:
  "worker t = worker s \<Longrightarrow> appends (queue t) = appends (queue s) \<Longrightarrow> sent t = sent s \<Longrightarrow> durable t = durable s \<Longrightarrow>
   settled t = settled s"
  by (simp add: settled_def)

lemma waiting_length:
  assumes "async_inv crc cfg name es0 s" "worker s = Receiving"
  shows "length (appends (queue s)) \<le> length (sent s)"
  using assms(1) by (rule async_invE) (use assms(2) in \<open>simp add: file_holds_def\<close>)

lemma settled_worker:
  assumes inv: "async_inv crc cfg name es0 s" and step: "worker_step d cfg s = Some t"
  shows "settled t"
proof (cases "worker s")
  case (Storing sq ex)
  from inv obtain k where "worker_inv crc name es0 s k (worker s)" by (rule async_invE)
  then have st: "k \<le> length (sent s)" "sq = last_seq 0 (take k (sent s))" "appends (queue s) = map (record_of crc) (drop k (sent s))"
    using Storing by (auto simp: in_hand_def file_holds_def)
  have "t = s\<lparr>durable := sq, worker := (if ex then Leaving else Receiving)\<rparr>"
    using step Storing by (simp add: worker_step_def)
  then show ?thesis using st by (simp add: settled_def)
next
  case Receiving
  then show ?thesis using step by (auto simp: worker_step_def settled_def split: list.splits message.splits)
next
  case (Collecting batch sq)
  then show ?thesis using step by (auto simp: worker_step_def settled_def split: list.splits message.splits if_splits)
next
  case (Writing batch sq ex)
  then show ?thesis using step
    by (cases batch) (auto simp: worker_step_def settled_def split: prod.splits option.splits failure.splits)
qed (use step in \<open>auto simp: worker_step_def settled_def\<close>)

lemma settled_step:
  assumes inv: "async_inv crc cfg name es0 s" and st: "settled s" and step: "async_step crc d cfg s t"
  shows "settled t"
  using step
proof (cases rule: async_step.cases)
  case (step_send c sq cmd)
  show ?thesis
  proof (cases "worker s = Receiving \<and> length (queue s) < queue_capacity cfg")
    case True
    then show ?thesis using st step_send waiting_length [OF inv] by (auto simp: try_send_def settled_def Suc_diff_le)
  next
    case False
    then show ?thesis using st step_send by (auto simp: try_send_def settled_def)
  qed
next
  case (step_shutdown c)
  then show ?thesis using st settled_cong [of t s] by (auto simp: send_shutdown_def split: if_splits)
next
  case step_worker
  then show ?thesis using settled_worker [OF inv] by simp
qed (use st settled_cong [of t s] in \<open>auto simp: begin_append_def check_closed_def publish_def begin_close_def\<close>)

subsection \<open>An open journal on a disk that works does not stop\<close>

definition staying :: "async_journal \<Rightarrow> bool" where
  "staying s \<longleftrightarrow> closed s \<or> (Shutdown \<notin> set (queue s) \<and> (\<forall>c. clients s c \<noteq> SendShutdown) \<and>
     (case worker s of Writing _ _ ex \<Rightarrow> \<not> ex | Storing _ ex \<Rightarrow> \<not> ex
        | Degrading \<Rightarrow> False | Leaving \<Rightarrow> False | Exited \<Rightarrow> False | _ \<Rightarrow> True))"

definition never_fails :: "disk \<Rightarrow> bool" where
  "never_fails d \<longleftrightarrow> (\<forall>fs name bytes. faults d fs name bytes = None)"

lemma append_raw_no_error:
  "never_fails d \<Longrightarrow> \<exists>fs'. append_raw d fs (Single name) bytes = (fs', Single name, None)"
  by (simp add: never_fails_def write_all_def)

lemma staying_worker:
  assumes inv: "async_inv crc cfg name es0 s" and st: "staying s" and d: "never_fails d"
    and step: "worker_step d cfg s = Some t"
  shows "staying t"
proof (cases "closed s")
  case True
  then show ?thesis using worker_step_history [OF step] by (simp add: staying_def)
next
  case open_still: False
  show ?thesis
  proof (cases "worker s")
    case Receiving
    then show ?thesis using st step open_still
      by (auto simp: worker_step_def staying_def split: list.splits message.splits)
  next
    case (Collecting batch sq)
    then show ?thesis using st step open_still
      by (auto simp: worker_step_def staying_def split: list.splits message.splits if_splits)
  next
    case (Writing batch sq ex)
    from inv obtain k where "worker_inv crc name es0 s k (worker s)" by (rule async_invE)
    then have "aj_writer s = Single name" using Writing by (auto simp: in_hand_def file_holds_def)
    then obtain fs' where "append_raw d (aj_dir s) (aj_writer s) (hd batch) = (fs', Single name, None)"
      using append_raw_no_error [OF d] by metis
    then show ?thesis using st step Writing open_still
      by (cases batch) (auto simp: worker_step_def staying_def)
  next
    case (Storing sq ex)
    then show ?thesis using st step open_still by (auto simp: worker_step_def staying_def)
  qed (use st step open_still in \<open>auto simp: worker_step_def staying_def\<close>)
qed

lemma staying_step:
  assumes inv: "async_inv crc cfg name es0 s" and st: "staying s" and d: "never_fails d"
    and step: "async_step crc d cfg s t"
  shows "staying t"
  using step
proof (cases rule: async_step.cases)
  case step_worker
  then show ?thesis using staying_worker [OF inv st d] by simp
qed (use st in \<open>auto simp: staying_def begin_append_def check_closed_def try_send_def publish_def begin_close_def
    send_shutdown_def split: if_splits\<close>)

lemma settled_reachable:
  assumes "async_reachable crc d cfg s0 s" "async_inv crc cfg name es0 s0" "honest_faults d" "settled s0"
  shows "settled s"
  using assms
proof (induction rule: async_reachable.induct)
  case (reach_step s t)
  then show ?case using settled_step [OF async_inv_reachable [OF reach_step.hyps(1)]] by blast
qed

lemma staying_reachable:
  assumes "async_reachable crc d cfg s0 s" "async_inv crc cfg name es0 s0" "honest_faults d" "staying s0" "never_fails d"
  shows "staying s"
  using assms
proof (induction rule: async_reachable.induct)
  case (reach_step s t)
  then show ?case using staying_step [OF async_inv_reachable [OF reach_step.hyps(1)]] by blast
qed

lemma fresh_progress: "async_open d fs path_prefix = Inr s0 \<Longrightarrow> settled s0 \<and> staying s0 \<and> small_batch cfg s0"
  by (simp add: async_open_file settled_def staying_def small_batch_def last_seq_def)

end
