(* ===== verification/Mx_Journal_Props.thy ===== *)
theory Mx_Journal_Props
  imports Mx_Async_Live
begin

text \<open>
  The properties of the journal: the codec, the files it writes and reads, crashes and recovery, and the
  asynchronous journal under every interleaving.
\<close>

section \<open>The journal\<close>

text \<open>C24: the command codec is exact. Bytes decode to a command just when the command fits its
  field widths and the bytes start with its encoding, so a decoded command re-encodes to the bytes it
  came from and every command survives the journal.\<close>

theorem codec_exact: "decode bytes = Inr c \<longleftrightarrow> command_ok c \<and> (\<exists>rest. bytes = encode c @ rest)"
  using decode_sound decode_encode_append by blast

text \<open>C25: a framed record decodes to its sequence number, command and length whatever bytes follow
  it, and every strict prefix of it (a write cut short) is rejected as invalid data, for every
  checksum function.\<close>

theorem record_roundtrip:
  assumes "command_ok c" "sq \<le> u64_max"
  shows "decode_record crc (encode_record crc sq c @ rest) = Inr (sq, c, length (encode_record crc sq c)) \<and>
    (\<forall>n < length (encode_record crc sq c).
      decode_record crc (take n (encode_record crc sq c)) = Inl InvalidData)"
  using decode_record_append [OF assms] decode_record_torn by blast

theorem record_roundtrip_witness:
  "decode_record (\<lambda>_. 7) (encode_record (\<lambda>_. 7) 5 (CancelOrder 9) @ [1, 2]) =
     Inr (5, CancelOrder 9, length (encode_record (\<lambda>_. 7) 5 (CancelOrder 9)))"
  by (rule conjunct1 [OF record_roundtrip]) (simp_all add: u64_max_def)

text \<open>C26: what is appended to a fresh segmented journal on a disk that does not fail is what the
  reader returns, in order and across every rotation, whatever the segment size.\<close>

theorem wal_roundtrip:
  assumes "filter is_segment_file (map fst fs) = []" "list_all entry_ok es" "length es < 10 ^ 8 - 1"
    "open_segmented healthy_disk fs m = (fs1, Inr w)"
    "append_entries crc healthy_disk fs1 w es = (fs2, w2, k, err)"
  shows "err = None \<and> k = length es \<and> (\<exists>r. reader_open fs2 Dir = Inr r \<and> read_all crc fs2 r = Inr es)"
proof -
  have ok: "honest_faults healthy_disk" "\<not> open_fails healthy_disk fs (segment_path 1)" "\<not> mkdir_fails healthy_disk fs"
    by (simp_all add: honest_faults_def)
  obtain sw where w: "w = Segmented sw" "wal_files crc fs1 [[]] []" "wal_writer crc sw [[]]"
    using open_segmented_fresh [OF assms(1) ok(2,3), of m crc] assms(4) by auto
  have err: "err = None"
    by (rule append_entries_healthy [OF w(2,3) assms(2)]) (use assms(3,5) w(1) in simp_all)
  have "append_post crc [[]] es fs2 w2 k err"
    by (rule append_entries_post [OF w(2,3) assms(2) ok(1)]) (use assms(3,5) w(1) in simp_all)
  then obtain segs where "k = length es" "wal_files crc fs2 segs []" "concat segs = es"
    using err by (auto simp: append_post_def)
  then show ?thesis using err wal_files_read_all by blast
qed

theorem wal_roundtrip_witness:
  "\<exists>fs2 w2 r. append_entries (\<lambda>_. 7) healthy_disk (fst (open_segmented healthy_disk [] 30))
     (projr (snd (open_segmented healthy_disk [] 30)))
     [\<lparr>je_sequence = 1, je_command = CancelOrder 5\<rparr>, \<lparr>je_sequence = 2, je_command = CancelOrder 6\<rparr>] =
     (fs2, w2, 2, None) \<and>
   reader_open fs2 Dir = Inr r \<and> read_all (\<lambda>_. 7) fs2 r = Inr
     [\<lparr>je_sequence = 1, je_command = CancelOrder 5\<rparr>, \<lparr>je_sequence = 2, je_command = CancelOrder 6\<rparr>]"
proof -
  let ?es = "[\<lparr>je_sequence = 1, je_command = CancelOrder 5\<rparr>, \<lparr>je_sequence = 2, je_command = CancelOrder 6\<rparr>]"
  obtain fs1 w where o: "open_segmented healthy_disk [] 30 = (fs1, Inr w)"
    using open_segmented_fresh [of "[]" healthy_disk 30 "\<lambda>_. 7"] by (auto simp: healthy_disk_def)
  obtain fs2 w2 k err where a: "append_entries (\<lambda>_. 7) healthy_disk fs1 w ?es = (fs2, w2, k, err)"
    by (metis prod_cases4)
  have "err = None \<and> k = length ?es \<and>
      (\<exists>r. reader_open fs2 Dir = Inr r \<and> read_all (\<lambda>_. 7) fs2 r = Inr ?es)"
    by (rule wal_roundtrip [OF _ _ _ o a]) (simp_all add: entry_ok_def u64_max_def)
  then show ?thesis using o a by auto
qed

text \<open>C27: crash safety. However writes fail, and wherever inside its record the failing one stops,
  recovering the directory succeeds and leaves exactly the entries whose append returned without
  error: the report names the last of them, the reader returns them in order, and reopening the writer
  resumes the same journal.\<close>

theorem wal_crash_recovery:
  assumes "filter is_segment_file (map fst fs) = []" "list_all entry_ok es" "length es < 10 ^ 8 - 1"
    "honest_faults d" "nonzero_seqs es" "open_segmented d fs m = (fs1, Inr w)"
    "append_entries crc d fs1 w es = (fs2, w2, k, err)"
  shows "\<exists>fs3 rep r segs. recover_dir crc fs2 = Inr (fs3, rep) \<and>
    last_valid_sequence rep = last_seq 0 (take k es) \<and> (err = None \<longrightarrow> k = length es) \<and>
    reader_open fs3 Dir = Inr r \<and> read_all crc fs3 r = Inr (take k es) \<and>
    wal_files crc fs3 segs [] \<and>
    (\<exists>sw. open_segmented healthy_disk fs3 m = (fs3, Inr (Segmented sw)) \<and> wal_writer crc sw segs)"
proof -
  have "list_writer_segments fs = []" using assms(1)
    by (auto simp: list_writer_segments_def filter_empty_conv parse_segment_index_def)
  then have open1: "\<not> open_fails d fs (segment_path 1)" "\<not> mkdir_fails d fs"
    using assms(6) by (auto simp: open_segmented_def Let_def split: if_splits)
  obtain sw where w: "w = Segmented sw" "wal_files crc fs1 [[]] []" "wal_writer crc sw [[]]"
    using open_segmented_fresh [OF assms(1) open1, of m crc] assms(6) by auto
  have "append_post crc [[]] es fs2 w2 k err"
    by (rule append_entries_post [OF w(2,3) assms(2,4)]) (use assms(3,7) w(1) in simp_all)
  then obtain segs bs where s: "wal_files crc fs2 segs bs" "torn_tail crc bs" "concat segs = take k es"
    "err = None \<longrightarrow> k = length es"
    by (auto simp: append_post_def)
  have "nonzero_seqs (concat segs)" using nonzero_seqs_take [OF assms(5)] s(3) by simp
  from recover_dir_wal [OF s(1,2) this] obtain fs3 where r: "recover_dir crc fs2 = Inr (fs3,
      \<lparr>last_valid_sequence = last_seq 0 (concat segs), truncated_bytes = length bs\<rparr>)"
    "wal_files crc fs3 segs []" by blast
  have "\<not> open_fails healthy_disk fs3 (segment_path (length segs))" "\<not> mkdir_fails healthy_disk fs3" by simp_all
  from open_segmented_resumes [OF r(2) this, of m] wal_files_read_all [OF r(2)]
  show ?thesis using r s(3,4) by auto
qed

definition full_disk :: disk where
  "full_disk = \<lparr>faults = (\<lambda>fs name bytes. if 20 < length bytes \<and> 0 < fs_len fs name then Some 10 else None),
                open_fails = (\<lambda>_ _. False), mkdir_fails = (\<lambda>_. False)\<rparr>"

theorem wal_crash_recovery_witness:
  "\<exists>fs1 w fs2 w2 fs3 rep r.
     open_segmented full_disk [] 100 = (fs1, Inr w) \<and>
     append_entries (\<lambda>_. 7) full_disk fs1 w
       [\<lparr>je_sequence = 1, je_command = CancelOrder 5\<rparr>, \<lparr>je_sequence = 2, je_command = CancelOrder 6\<rparr>] =
       (fs2, w2, 1, Some (Failed IoError)) \<and>
     recover_dir (\<lambda>_. 7) fs2 = Inr (fs3, rep) \<and> last_valid_sequence rep = 1 \<and>
     reader_open fs3 Dir = Inr r \<and>
     read_all (\<lambda>_. 7) fs3 r = Inr [\<lparr>je_sequence = 1, je_command = CancelOrder 5\<rparr>]"
proof -
  let ?es = "[\<lparr>je_sequence = 1, je_command = CancelOrder 5\<rparr>, \<lparr>je_sequence = 2, je_command = CancelOrder 6\<rparr>]"
  let ?w = "Segmented \<lparr>max_segment_bytes = 100, current_segment_index = 1,
      current_segment_size = 0, seg_file = segment_path 1\<rparr>"
  have o: "open_segmented full_disk [] 100 = ([(segment_path 1, [])], Inr ?w)"
    by (simp add: open_segmented_def list_writer_segments_def full_disk_def fs_open_append_def
        fs_read_def fs_len_def Let_def)
  obtain fs2 w2 where a: "append_entries (\<lambda>_. 7) full_disk [(segment_path 1, [])] ?w ?es = (fs2, w2, 1, Some (Failed IoError))"
    by (simp add: full_disk_def writer_append_def append_segmented_def write_segment_def write_all_def add_u64_def u64_max_def
        fs_len_def encode_record_length fs_read_def fs_append_def)
  have "honest_faults full_disk" by (simp add: honest_faults_def full_disk_def)
  from wal_crash_recovery [OF _ _ _ this _ o a]
  obtain fs3 rep r where "recover_dir (\<lambda>_. 7) fs2 = Inr (fs3, rep)" "last_valid_sequence rep = last_seq 0 (take 1 ?es)"
    "reader_open fs3 Dir = Inr r" "read_all (\<lambda>_. 7) fs3 r = Inr (take 1 ?es)"
    by (auto simp: entry_ok_def u64_max_def nonzero_seqs_def)
  then show ?thesis using o a by (auto simp: last_seq_def)
qed

text \<open>C28: recovery of a file with any contents at all succeeds, keeps a prefix of it that the reader
  accepts completely, stops exactly where the rest of the file does not decode, reports the last
  sequence number kept and the number of bytes cut, and recovering again changes nothing.\<close>

theorem recovery_longest_valid_prefix:
  assumes "fs_read fs name = Some data"
  shows "\<exists>n es fs'. n \<le> length data \<and>
    recover_file crc fs name =
      Inr (fs', \<lparr>last_valid_sequence = last_seq 0 es, truncated_bytes = length data - n\<rparr>) \<and>
    fs_read fs' name = Some (take n data) \<and> read_path crc fs' name [] = Inr es \<and>
    (n = length data \<or> (\<exists>e. decode_record crc (drop n data) = Inl e)) \<and>
    recover_file crc fs' name = Inr (fs', \<lparr>last_valid_sequence = last_seq 0 es, truncated_bytes = 0\<rparr>)"
proof -
  obtain n es where r: "recover_file crc fs name = Inr (if n < length data then fs_set_len fs name n else fs,
       \<lparr>last_valid_sequence = last_seq 0 es, truncated_bytes = length data - n\<rparr>)"
    "n \<le> length data" "read_records crc (take n data) 0 [] = Inr es"
    "n < length data \<longrightarrow> (\<exists>e. decode_record crc (drop n data) = Inl e)"
    by (rule recover_file_spec [OF assms, of crc])
  let ?fs = "if n < length data then fs_set_len fs name n else fs"
  have kept: "fs_read ?fs name = Some (take n data)" using assms r(2) by auto
  moreover have "recover_file crc ?fs name = Inr (?fs, \<lparr>last_valid_sequence = last_seq 0 es, truncated_bytes = 0\<rparr>)"
    by (rule recover_file_valid [OF kept r(3)])
  moreover have "read_path crc ?fs name [] = Inr es" using kept r(3) by (simp add: read_path_def)
  ultimately show ?thesis using r by (metis nat_less_le)
qed

theorem recovery_longest_valid_prefix_witness:
  "\<exists>n es fs'. n \<le> length [1, 2, 3 :: byte] \<and> recover_file (\<lambda>_. 7) [(''j'', [1, 2, 3])] ''j'' =
     Inr (fs', \<lparr>last_valid_sequence = last_seq 0 es, truncated_bytes = length [1, 2, 3 :: byte] - n\<rparr>) \<and>
     fs_read fs' ''j'' = Some (take n [1, 2, 3]) \<and> read_path (\<lambda>_. 7) fs' ''j'' [] = Inr es"
proof -
  have "fs_read [(''j'', [1, 2, 3])] ''j'' = Some [1, 2, 3]" by (simp add: fs_read_def)
  from recovery_longest_valid_prefix [OF this, of "\<lambda>_. 7"] show ?thesis by blast
qed

text \<open>C29: whenever the batch reader accepts a journal, the streaming reader returns the same entries,
  one call at a time, and then reports the end.\<close>

theorem streaming_reads_the_same:
  assumes "reader_open fs path = Inr r" "read_all crc fs r = Inr es" "streaming_open fs path = Inr s"
  shows "read_stream (Suc (length es)) crc fs s [] = Inr (Some es)"
  by (rule streaming_equals_batch_aux [OF assms])

theorem streaming_reads_the_same_witness:
  "\<exists>s. streaming_open [(''j'', encode_record (\<lambda>_. 7) 1 (CancelOrder 5))] (File ''j'') = Inr s \<and>
    read_stream 2 (\<lambda>_. 7) [(''j'', encode_record (\<lambda>_. 7) 1 (CancelOrder 5))] s [] =
      Inr (Some [\<lparr>je_sequence = 1, je_command = CancelOrder 5\<rparr>])"
proof -
  let ?e = "\<lparr>je_sequence = 1, je_command = CancelOrder 5\<rparr>"
  let ?fs = "[(''j'', encode_record (\<lambda>_. 7) 1 (CancelOrder 5))]"
  have log: "encode_record (\<lambda>_. 7) 1 (CancelOrder 5) = encode_log (\<lambda>_. 7) [?e]" by (simp add: encode_entry_def)
  have "reader_open ?fs (File ''j'') = Inr \<lparr>jr_paths = [''j'']\<rparr>" by (simp add: reader_open_def fs_read_def)
  moreover have "read_all (\<lambda>_. 7) ?fs \<lparr>jr_paths = [''j'']\<rparr> = Inr [?e]"
    unfolding log by (simp add: read_all_def read_path_def fs_read_def entry_ok_def u64_max_def read_encode_log
        del: encode_log_simps)
  moreover obtain s where s: "streaming_open ?fs (File ''j'') = Inr s"
    by (simp add: streaming_open_def open_next_segment_def fs_read_def)
  ultimately have "read_stream (Suc (length [?e])) (\<lambda>_. 7) ?fs s [] = Inr (Some [?e])"
    by (rule streaming_reads_the_same)
  then show ?thesis using s by (auto simp: numeral_2_eq_2)
qed

text \<open>C30: the readers disagree on a file that ends in one to three stray bytes, what is left of a torn
  length header: the batch reader rejects the journal as invalid data, the streaming reader returns its
  entries and reports a clean end.\<close>

theorem streaming_hides_torn_header:
  assumes "list_all entry_ok es" "stray \<noteq> []" "length stray < 4"
    "fs_read fs name = Some (encode_log crc es @ stray)"
  shows "read_all crc fs \<lparr>jr_paths = [name]\<rparr> = Inl InvalidData \<and>
    (\<exists>s. streaming_open fs (File name) = Inr s \<and>
         read_stream (Suc (length es)) crc fs s [] = Inr (Some es))"
  using read_log_stray [OF assms(1-3)] stream_log_stray [OF assms(1,3,4)] assms(4)
  by (simp add: read_all_def read_path_def)

theorem streaming_hides_torn_header_witness:
  "read_all (\<lambda>_. 7) [(''j'', encode_log (\<lambda>_. 7) [\<lparr>je_sequence = 1, je_command = CancelOrder 5\<rparr>] @ [9])]
     \<lparr>jr_paths = [''j'']\<rparr> = Inl InvalidData"
  by (rule conjunct1 [OF streaming_hides_torn_header [where es = "[\<lparr>je_sequence = 1, je_command = CancelOrder 5\<rparr>]"
        and stray = "[9]"]]) (simp_all add: entry_ok_def u64_max_def fs_read_def)

text \<open>One append, up to the channel, for the runs below.\<close>

abbreviation demo_entry :: journal_entry where
  "demo_entry \<equiv> \<lparr>je_sequence = 1, je_command = CancelOrder 5\<rparr>"

lemma demo_append:
  assumes s0: "async_open d fs path_prefix = Inr s0"
  obtains s where "async_reachable crc d default_config s0 s" "sent s = [demo_entry]" "worker s = Receiving"
    "durable s = 0" "\<not> closed s" "queue s = [Append 1 (encode_entry crc demo_entry)]" "aj_writer s = Single (journal_file path_prefix)"
proof -
  let ?cmd = "CancelOrder 5"
  note s0' = async_open_file [OF s0]
  define s1 where "s1 = begin_append 0 1 ?cmd s0"
  define s2 where "s2 = check_closed 0 1 ?cmd s1"
  define s3 where "s3 = try_send crc default_config 0 1 ?cmd s2"
  note runs = s1_def s2_def s3_def begin_append_def check_closed_def try_send_def default_config_def s0'
  have "async_reachable crc d default_config s0 s1" unfolding s1_def
    by (rule reach_step [OF reach_start step_append]) (simp_all add: at_rest_def s0' u64_max_def)
  then have "async_reachable crc d default_config s0 s2" unfolding s2_def by (rule reach_step [OF _ step_check]) (simp add: runs)
  then have "async_reachable crc d default_config s0 s3" unfolding s3_def by (rule reach_step [OF _ step_send]) (simp add: runs)
  then show thesis by (rule that) (simp_all add: runs encode_entry_def)
qed

lemma demo_work:
  assumes "sent s = [demo_entry]" "worker s = Receiving" "queue s = [Append 1 (encode_entry crc demo_entry)]" "aj_writer s = Single name"
  shows "durable (worker_run 5 healthy_disk default_config s) = 1"
proof -
  let ?bytes = "encode_entry crc demo_entry" and ?step = "worker_step healthy_disk default_config"
  define s1 where "s1 = s\<lparr>queue := [], worker := Collecting [?bytes] 1\<rparr>"
  define s2 where "s2 = s1\<lparr>worker := Writing [?bytes] 1 False\<rparr>"
  define s3 where "s3 = s2\<lparr>aj_dir := fs_append (aj_dir s) name ?bytes, aj_writer := Single name, worker := Writing [] 1 False\<rparr>"
  define s4 where "s4 = s3\<lparr>worker := Storing 1 False\<rparr>"
  define s5 where "s5 = s4\<lparr>durable := 1, worker := Receiving\<rparr>"
  have "?step s = Some s1" using assms by (simp add: worker_step_def s1_def)
  moreover have "?step s1 = Some s2" by (simp add: worker_step_def s1_def s2_def default_config_def)
  moreover have "?step s2 = Some s3" using assms(4) by (simp add: worker_step_def s1_def s2_def s3_def write_all_def)
  moreover have "?step s3 = Some s4" by (simp add: worker_step_def s3_def s4_def)
  moreover have "?step s4 = Some s5" by (simp add: worker_step_def s4_def s5_def)
  ultimately have "worker_run (Suc (Suc (Suc (Suc (Suc 0))))) healthy_disk default_config s = s5" by simp
  then show ?thesis by (simp add: eval_nat_numeral s5_def)
qed

text \<open>C31: durability of the asynchronous journal. In every state reachable through any interleaving of
  clients and worker, on a disk that may fail: the durable counter names an entry that was sent, and
  recovering the file as it is now gives back everything the file held before, then a prefix of the
  entries sent, in order, that includes that entry.\<close>

theorem async_durable:
  assumes "async_open d fs path_prefix = Inr s0" "async_reachable crc d cfg s0 s" "honest_faults d"
    "fs_read fs (journal_file path_prefix) = Some (encode_log crc es0)" "list_all entry_ok es0"
  shows "\<exists>j k fs' rep. j \<le> k \<and> k \<le> length (sent s) \<and> durable s = last_seq 0 (take j (sent s)) \<and>
    recover_file crc (aj_dir s) (journal_file path_prefix) = Inr (fs', rep) \<and>
    read_path crc fs' (journal_file path_prefix) [] = Inr (es0 @ take k (sent s))"
proof -
  have "async_inv crc cfg (journal_file path_prefix) es0 s0" using async_inv_open [OF assms(1)] assms(4) by blast
  from async_inv_recovers [OF async_inv_reachable [OF assms(2) this assms(3)] assms(5)] show ?thesis .
qed

theorem async_durable_witness:
  "\<exists>s0 s. async_open healthy_disk [(''j.wal'', encode_log (\<lambda>_. 7) [demo_entry])] [''j''] = Inr s0 \<and>
    async_reachable (\<lambda>_. 7) healthy_disk default_config s0 s \<and> durable s = 1 \<and>
    (\<exists>fs' rep. recover_file (\<lambda>_. 7) (aj_dir s) ''j.wal'' = Inr (fs', rep) \<and>
       read_path (\<lambda>_. 7) fs' ''j.wal'' [] = Inr [demo_entry, demo_entry])"
proof -
  let ?fs = "[(''j.wal'', encode_log (\<lambda>_. 7) [demo_entry])]"
  have file1: "journal_file [''j''] = ''j.wal''"
    by (simp add: journal_file_def first_segment_path_def with_extension_def path_file_name_def file_stem_def)
  have read1: "fs_read ?fs (journal_file [''j'']) = Some (encode_log (\<lambda>_. 7) [demo_entry])"
    unfolding file1 by (simp add: fs_read_def)
  obtain s0 where s0: "async_open healthy_disk ?fs [''j''] = Inr s0"
    by (simp add: async_open_def writer_open_def first_segment_path_def with_extension_def path_file_name_def file_stem_def)
  obtain s where s: "async_reachable (\<lambda>_. 7) healthy_disk default_config s0 s" "sent s = [demo_entry]" "worker s = Receiving"
    "queue s = [Append 1 (encode_entry (\<lambda>_. 7) demo_entry)]" "aj_writer s = Single (journal_file [''j''])"
    using demo_append [OF s0, of "\<lambda>_. 7"] by blast
  let ?t = "worker_run 5 healthy_disk default_config s"
  have reach: "async_reachable (\<lambda>_. 7) healthy_disk default_config s0 ?t" by (rule worker_run_reachable [OF s(1)])
  have t: "durable ?t = 1" "sent ?t = [demo_entry]"
    using demo_work [OF s(2-5)] worker_run_history [of 5 healthy_disk default_config s] s(2) by simp_all
  have "honest_faults healthy_disk" by (simp add: honest_faults_def)
  from async_durable [OF s0 reach this read1] obtain j k fs' rep where
    r: "j \<le> k" "k \<le> 1" "1 = last_seq 0 (take j [demo_entry])" "recover_file (\<lambda>_. 7) (aj_dir ?t) ''j.wal'' = Inr (fs', rep)"
    "read_path (\<lambda>_. 7) fs' ''j.wal'' [] = Inr ([demo_entry] @ take k [demo_entry])"
    unfolding t file1 by (auto simp: entry_ok_def u64_max_def)
  have "k = 1" using r(1-3) by (cases j) (auto simp: last_seq_def)
  then show ?thesis using s0 reach t(1) r(4,5) by auto
qed

text \<open>C33: an append can return success and yet never reach the file, even though the journal closes
  cleanly on a disk that does not fail. A client that has passed the closed check sends after the
  shutdown message of a concurrent \<open>close\<close>; the worker stops at the shutdown message and the entry
  behind it is dropped. The counters then stay apart for ever: accepted 5, durable 0.\<close>

theorem async_accepted_entry_lost:
  "\<exists>s0 s. async_open healthy_disk [] [''j''] = Inr s0 \<and>
     async_reachable crc healthy_disk default_config s0 s \<and>
     clients s 0 = Done None \<and> clients s 1 = Done None \<and>
     accepted s = 5 \<and> durable s = 0 \<and> worker s = Exited \<and> \<not> degraded s \<and>
     length (sent s) = 1 \<and> fs_read (aj_dir s) ''j.wal'' = Some []"
  using async_lost_run by blast

text \<open>C32: accepted entries become durable. From every state that clients and worker can reach, the
  worker left alone comes to rest within six steps for each message the channel can hold and one for each
  record of a batch (and four more), without touching the history. Either it has then exited, or it waits
  on an empty channel with everything that was sent in the file and durable; and while nobody has closed
  the journal and writes do not fail, it has not exited.\<close>

theorem worker_drains:
  assumes "async_open d fs path_prefix = Inr s0" "async_reachable crc d cfg s0 s" "honest_faults d"
    "fs_read fs (journal_file path_prefix) = None"
  shows "let t = worker_run (6 * queue_capacity cfg + max (batch_size cfg) 1 + 4) d cfg s in
    sent t = sent s \<and> worker_step d cfg t = None \<and>
    (worker t = Exited \<or>
     worker t = Receiving \<and> queue t = [] \<and> durable t = last_seq 0 (sent s) \<and>
     fs_read (aj_dir t) (journal_file path_prefix) = Some (encode_log crc (sent s))) \<and>
    (never_fails d \<and> \<not> closed s \<longrightarrow> worker t = Receiving)"
proof -
  let ?name = "journal_file path_prefix"
  define n where "n = 6 * queue_capacity cfg + max (batch_size cfg) 1 + 4"
  define t where "t = worker_run n d cfg s"
  have inv0: "async_inv crc cfg ?name [] s0" using async_inv_open [OF assms(1)] assms(4) by blast
  have reach: "async_reachable crc d cfg s0 t" unfolding t_def by (rule worker_run_reachable [OF assms(2)])
  note inv = async_inv_reachable [OF assms(2) inv0 assms(3)] and inv' = async_inv_reachable [OF reach inv0 assms(3)]
  have hist: "sent t = sent s" "closed t = closed s" using worker_run_history [of n d cfg s] by (simp_all add: t_def)
  have "length (queue s) \<le> queue_capacity cfg" using inv by (rule async_invE)
  then have "steps_left (worker s) (length (queue s)) \<le> n"
    unfolding n_def using small_batch_reachable [OF assms(2)] fresh_progress [OF assms(1)] steps_left_bound by blast
  then have rest: "worker_step d cfg t = None" unfolding t_def by (rule worker_run_rests)
  obtain k where k: "worker_inv crc ?name [] t k (worker t)" using inv' by (rule async_invE)
  have done': "durable t = last_seq 0 (sent s) \<and> fs_read (aj_dir t) ?name = Some (encode_log crc (sent s))"
    if w: "worker t = Receiving" "queue t = []"
  proof -
    have "settled t" by (rule settled_reachable [OF reach inv0 assms(3)]) (use fresh_progress [OF assms(1)] in blast)
    then have "durable t = last_seq 0 (sent s)" using w hist by (simp add: settled_def)
    moreover have "k = length (sent t)" "file_holds crc ?name [] t k []" using k w by (auto simp: file_holds_def)
    ultimately show ?thesis using hist by (simp add: file_holds_def)
  qed
  have "worker t \<noteq> Exited" if "never_fails d" "\<not> closed s"
    using staying_reachable [OF reach inv0 assms(3) _ that(1)] fresh_progress [OF assms(1)] that(2) hist
    by (auto simp: staying_def)
  then show ?thesis unfolding Let_def n_def [symmetric] t_def [symmetric]
    using worker_rests [OF rest] hist rest done' by auto
qed

theorem worker_drains_witness:
  "\<exists>s0 s. async_open healthy_disk [] [''j''] = Inr s0 \<and> async_reachable (\<lambda>_. 7) healthy_disk default_config s0 s \<and>
     sent s = [demo_entry] \<and> durable s = 0 \<and> durable (worker_run 6212 healthy_disk default_config s) = 1"
proof -
  obtain s0 where s0: "async_open healthy_disk [] [''j''] = Inr s0"
    by (simp add: async_open_def writer_open_def first_segment_path_def with_extension_def path_file_name_def file_stem_def)
  obtain s where s: "async_reachable (\<lambda>_. 7) healthy_disk default_config s0 s" "sent s = [demo_entry]" "durable s = 0" "\<not> closed s"
    using demo_append [OF s0, of "\<lambda>_. 7"] by blast
  have disk: "honest_faults healthy_disk" "never_fails healthy_disk" "fs_read [] (journal_file [''j'']) = None"
    by (simp_all add: honest_faults_def never_fails_def fs_read_def)
  have n: "6 * queue_capacity default_config + max (batch_size default_config) 1 + 4 = 6212" by (simp add: default_config_def)
  have "durable (worker_run 6212 healthy_disk default_config s) = 1"
    using worker_drains [OF s0 s(1) disk(1,3), unfolded n] s(2,4) disk(2) by (auto simp: Let_def last_seq_def)
  then show ?thesis using s0 s by blast
qed

end
