(* ===== verification/Mx_Huge_Arena.thy ===== *)
theory Mx_Huge_Arena
  imports Mx_Links
begin

unbundle bit_operations_syntax

text \<open>
  \<open>HugePageArena\<close>: the arena over memory from \<open>mmap\<close>, behind the feature \<open>huge_pages\<close>. It has
  the same free list and no generation counters, so it checks nothing: reading a slot that was never
  written, or touching memory outside the mapping, is undefined behaviour, which the model reports as
  \<open>UndefinedBehaviour\<close>; a freed slot still holds its order (\<open>Order\<close> has no destructor). The system call
  is a parameter: \<open>mmap n huge\<close> says whether mapping \<open>n\<close> bytes succeeds.
\<close>

definition ORDER_SIZE :: nat where
  "ORDER_SIZE = 64"

definition PAGE_2MB :: nat where
  "PAGE_2MB = 2 * 1024 * 1024"

record huge_arena =
  h_mem :: "nat \<rightharpoonup> order"
  h_mmap_len :: nat
  h_next_free :: "nat list"
  h_free_head :: nat
  h_len :: nat
  h_capacity :: nat

definition huge_mmap_len :: "nat \<Rightarrow> nat result" where
  "huge_mmap_len capacity =
     (let byte_len = capacity * ORDER_SIZE in
      rbind (add_u64 byte_len PAGE_2MB) (\<lambda>s.
      rbind (sub_u s 1) (\<lambda>n.
        Inr (unat ((word_of_nat n :: 64 word) AND NOT (word_of_nat (PAGE_2MB - 1)))))))"

definition huge_new :: "(nat \<Rightarrow> bool \<Rightarrow> bool) \<Rightarrow> nat \<Rightarrow> huge_arena result" where
  "huge_new mmap capacity =
     rbind (huge_mmap_len capacity) (\<lambda>mmap_len.
       if mmap mmap_len True \<or> mmap mmap_len False then
         Inr \<lparr>h_mem = Map.empty, h_mmap_len = mmap_len,
              h_next_free = map (\<lambda>i. if i + 1 < capacity then i + 1 else FREE_LIST_END) [0..<capacity],
              h_free_head = (if 0 < capacity then 0 else FREE_LIST_END), h_len = 0, h_capacity = capacity\<rparr>
       else Inl MmapFailed)"

text \<open>Raw memory access: a slot is written whole, inside the mapping.\<close>

definition poke :: "nat \<Rightarrow> order \<Rightarrow> huge_arena \<Rightarrow> huge_arena result" where
  "poke i ord h =
     (if (i + 1) * ORDER_SIZE \<le> h_mmap_len h then Inr (h\<lparr>h_mem := (h_mem h)(i \<mapsto> ord)\<rparr>)
      else Inl UndefinedBehaviour)"

definition huge_alloc :: "order \<Rightarrow> huge_arena \<Rightarrow> (arena_index option \<times> huge_arena) result" where
  "huge_alloc ord h =
     (if h_free_head h = FREE_LIST_END then Inr (None, h)
      else
        let idx = h_free_head h in
        rbind (vget (h_next_free h) idx) (\<lambda>nf.
        rbind (poke idx ord (h\<lparr>h_free_head := nf\<rparr>)) (\<lambda>h1.
        rbind (add_u32 (h_len h1) 1) (\<lambda>n.
          Inr (Some idx, h1\<lparr>h_len := n\<rparr>)))))"

definition huge_get :: "huge_arena \<Rightarrow> arena_index \<Rightarrow> order result" where
  "huge_get h idx = expect UndefinedBehaviour (h_mem h (as_usize idx))"

definition huge_free :: "arena_index \<Rightarrow> huge_arena \<Rightarrow> huge_arena result" where
  "huge_free idx h =
     rbind (huge_get h idx) (\<lambda>_.
     rbind (vset (h_next_free h) idx (h_free_head h)) (\<lambda>nf.
     rbind (sub_u (h_len h) 1) (\<lambda>n.
       Inr (h\<lparr>h_next_free := nf, h_free_head := idx, h_len := n\<rparr>))))"

definition huge_get_mut :: "arena_index \<Rightarrow> (order \<Rightarrow> order) \<Rightarrow> huge_arena \<Rightarrow> huge_arena result" where
  "huge_get_mut idx upd h = rbind (huge_get h idx) (\<lambda>ord. poke (as_usize idx) (upd ord) h)"

definition huge_is_empty :: "huge_arena \<Rightarrow> bool" where
  "huge_is_empty h \<longleftrightarrow> h_len h = 0"

subsection \<open>The mapping holds every slot\<close>

lemma unat_and_not_mask: "unat ((w :: 64 word) AND NOT (mask k)) = push_bit k (drop_bit k (unat w))"
  by (rule bit_eqI) (auto simp: bit_simps dest: bit_imp_le_length)

lemma huge_mmap_len_eq:
  assumes "capacity \<le> u32_max"
  shows "huge_mmap_len capacity = Inr ((capacity * ORDER_SIZE + (PAGE_2MB - 1)) div PAGE_2MB * PAGE_2MB)"
proof -
  let ?n = "capacity * ORDER_SIZE + (PAGE_2MB - 1)"
  have n: "capacity * ORDER_SIZE + PAGE_2MB \<le> u64_max" "?n < 2 ^ LENGTH(64)"
    using assms by (simp_all add: u32_max_def u64_max_def ORDER_SIZE_def PAGE_2MB_def)
  have page: "PAGE_2MB = 2 ^ 21" by (simp add: PAGE_2MB_def)
  have "(word_of_nat (PAGE_2MB - 1) :: 64 word) = mask 21" by (simp add: PAGE_2MB_def mask_eq_exp_minus_1)
  moreover have "unat (word_of_nat ?n :: 64 word) = ?n" unfolding unat_of_nat by (rule mod_less [OF n(2)])
  ultimately have "unat ((word_of_nat ?n :: 64 word) AND NOT (word_of_nat (PAGE_2MB - 1))) = ?n div PAGE_2MB * PAGE_2MB"
    by (simp only: unat_and_not_mask push_bit_eq_mult drop_bit_eq_div page)
  moreover have "add_u64 (capacity * ORDER_SIZE) PAGE_2MB = Inr (capacity * ORDER_SIZE + PAGE_2MB)"
    using n(1) by (simp add: add_u64_def)
  moreover have "sub_u (capacity * ORDER_SIZE + PAGE_2MB) 1 = Inr ?n" by (simp add: sub_u_def PAGE_2MB_def)
  ultimately show ?thesis unfolding huge_mmap_len_def Let_def by (simp only: rbind_simps)
qed

lemma round_up:
  fixes n m :: nat
  assumes "0 < m"
  shows "n \<le> (n + (m - 1)) div m * m" "(n + (m - 1)) div m * m < n + m" "m dvd (n + (m - 1)) div m * m"
proof -
  have "(n + (m - 1)) div m * m + (n + (m - 1)) mod m = n + (m - 1)" by simp
  moreover have "(n + (m - 1)) mod m < m" using assms by simp
  ultimately show "n \<le> (n + (m - 1)) div m * m" "(n + (m - 1)) div m * m < n + m" using assms by linarith+
qed simp

subsection \<open>It refines the arena\<close>

text \<open>
  The two stores have the same free list, and the memory holds every order the arena holds. Then
  whatever the arena does without a panic the other store does too, with the same result.
\<close>

definition huge_rel :: "huge_arena \<Rightarrow> arena \<Rightarrow> bool" where
  "huge_rel h ar \<longleftrightarrow>
     arena_inv ar \<and> h_next_free h = a_next_free ar \<and> h_free_head h = a_free_head ar \<and> h_len h = a_len ar \<and>
     h_capacity h = a_capacity ar \<and> a_capacity ar * ORDER_SIZE \<le> h_mmap_len h \<and>
     (\<forall>i ord. heap_of ar i = Some ord \<longrightarrow> h_mem h i = Some ord)"

lemma huge_new_rel:
  assumes "huge_new mmap capacity = Inr h" "capacity \<le> u32_max"
  shows "huge_rel h (arena_new capacity)"
proof -
  have len: "capacity * ORDER_SIZE \<le> (capacity * ORDER_SIZE + (PAGE_2MB - 1)) div PAGE_2MB * PAGE_2MB"
    by (rule round_up) (simp add: PAGE_2MB_def)
  then have "h_mmap_len h = (capacity * ORDER_SIZE + (PAGE_2MB - 1)) div PAGE_2MB * PAGE_2MB \<and>
      h_next_free h = a_next_free (arena_new capacity) \<and> h_free_head h = a_free_head (arena_new capacity) \<and>
      h_len h = 0 \<and> h_capacity h = capacity"
    using assms by (auto simp: huge_new_def huge_mmap_len_eq arena_new_def split: if_splits)
  then show ?thesis using arena_inv_new [OF assms(2)] len by (simp add: huge_rel_def) (simp add: arena_new_def)
qed

lemma arena_get_heap: "arena_inv ar \<Longrightarrow> arena_get ar i = Inr ord \<Longrightarrow> heap_of ar i = Some ord"
  by (simp add: arena_get_eq_Inr)

lemma huge_get_rel: "huge_rel h ar \<Longrightarrow> arena_get ar i = Inr ord \<Longrightarrow> huge_get h i = Inr ord"
  by (auto simp: huge_rel_def huge_get_def as_usize_def dest: arena_get_heap)

lemma slot_mapped: "huge_rel h ar \<Longrightarrow> i < a_capacity ar \<Longrightarrow> (i + 1) * ORDER_SIZE \<le> h_mmap_len h"
  by (rule order_trans [of _ "a_capacity ar * ORDER_SIZE"]) (simp_all add: huge_rel_def ORDER_SIZE_def)

lemma huge_alloc_rel:
  assumes rel: "huge_rel h ar" and run: "arena_alloc ord ar = Inr (r, ar')"
  shows "\<exists>h'. huge_alloc ord h = Inr (r, h') \<and> huge_rel h' ar'"
proof (cases "a_free_head ar = FREE_LIST_END")
  case True
  then show ?thesis using assms by (auto simp: arena_alloc_def huge_alloc_def huge_rel_def)
next
  case False
  have inv: "arena_inv ar" using rel by (simp add: huge_rel_def)
  obtain i where r: "r = Some i" using False run by (auto simp: arena_alloc_def Let_def rbind_eq_Inr)
  have post: "arena_inv ar'" "i < a_capacity ar" "heap_of ar' = (heap_of ar)(i \<mapsto> ord)"
      "a_len ar' = Suc (a_len ar)" "a_capacity ar' = a_capacity ar"
    using arena_alloc_spec [OF inv, of ord] run r by (simp_all add: alloc_post_def)
  have i: "i = a_free_head ar" and frame: "a_next_free ar' = a_next_free ar" "a_free_head ar' = a_next_free ar ! i"
      "i < length (a_next_free ar)" "a_len ar + 1 \<le> u32_max"
    using False run r by (auto simp: arena_alloc_def Let_def rbind_eq_Inr arith_results vget_def split: if_splits)
  show ?thesis
    using rel False slot_mapped [OF rel post(2)] post frame i r
    by (auto simp: huge_alloc_def Let_def poke_def huge_rel_def add_u32_def)
qed

lemma arena_free_occupied:
  assumes "arena_free i ar = Inr ar'" "arena_inv ar"
  shows "\<exists>ord. heap_of ar i = Some ord"
proof -
  have i: "i < a_capacity ar" "odd (a_generation ar ! i)"
    using assms unfolding arena_free_def assert_occupied
    by (auto simp: rbind_eq_Inr vget_def arena_inv_def arena_shape_def split: if_splits)
  then show ?thesis using arena_slot(4) [OF assms(2) i(1)] by auto
qed

lemma huge_free_rel:
  assumes rel: "huge_rel h ar" and run: "arena_free i ar = Inr ar'"
  shows "\<exists>h'. huge_free i h = Inr h' \<and> huge_rel h' ar'"
proof -
  have inv: "arena_inv ar" using rel by (simp add: huge_rel_def)
  obtain ord where ord: "heap_of ar i = Some ord" using arena_free_occupied [OF run inv] by blast
  have post: "arena_inv ar'" "heap_of ar' = (heap_of ar)(i := None)" "Suc (a_len ar') = a_len ar" "a_capacity ar' = a_capacity ar"
    using arena_free_spec [OF inv ord] run by simp_all
  have frame: "a_next_free ar' = (a_next_free ar)[i := a_free_head ar]" "a_free_head ar' = i" "i < length (a_next_free ar)"
    using run by (auto simp: arena_free_def rbind_eq_Inr vset_def split: if_splits)
  have "huge_get h i = Inr ord" by (rule huge_get_rel [OF rel arena_get_occupied [OF inv ord]])
  then show ?thesis using rel post frame by (auto simp: huge_free_def huge_rel_def)
qed

lemma huge_get_mut_rel:
  assumes rel: "huge_rel h ar" and run: "arena_get_mut i upd ar = Inr ar'"
  shows "\<exists>h'. huge_get_mut i upd h = Inr h' \<and> huge_rel h' ar'"
proof -
  have inv: "arena_inv ar" using rel by (simp add: huge_rel_def)
  obtain ord where get: "arena_get ar i = Inr ord" using run by (auto simp: arena_get_mut_def rbind_eq_Inr)
  note ord = arena_get_heap [OF inv get]
  obtain ar2 where "arena_get_mut i upd ar = Inr ar2" "arena_inv ar2" "heap_of ar2 = (heap_of ar)(i \<mapsto> upd ord)"
    "a_len ar2 = a_len ar" "a_capacity ar2 = a_capacity ar" by (rule arena_get_mut_spec [OF inv ord])
  moreover have "a_next_free ar' = a_next_free ar" "a_free_head ar' = a_free_head ar"
    using run by (auto simp: arena_get_mut_def rbind_eq_Inr)
  moreover have "(i + 1) * ORDER_SIZE \<le> h_mmap_len h" by (rule slot_mapped [OF rel heap_of_Some_less [OF inv ord]])
  ultimately show ?thesis using rel run huge_get_rel [OF rel get]
    by (auto simp: huge_get_mut_def poke_def huge_rel_def as_usize_def)
qed

text \<open>Programs over a store, and what they observe.\<close>

datatype store_op = Alloc order | Free arena_index | Get arena_index | Update arena_index "order \<Rightarrow> order"

datatype observation = Slot "arena_index option" | Unit | Content order

fun arena_op :: "store_op \<Rightarrow> arena \<Rightarrow> (observation \<times> arena) result" where
  "arena_op (Alloc ord) ar = rbind (arena_alloc ord ar) (\<lambda>(r, ar'). Inr (Slot r, ar'))"
| "arena_op (Free i) ar = rbind (arena_free i ar) (\<lambda>ar'. Inr (Unit, ar'))"
| "arena_op (Get i) ar = rbind (arena_get ar i) (\<lambda>ord. Inr (Content ord, ar))"
| "arena_op (Update i upd) ar = rbind (arena_get_mut i upd ar) (\<lambda>ar'. Inr (Unit, ar'))"

fun huge_op :: "store_op \<Rightarrow> huge_arena \<Rightarrow> (observation \<times> huge_arena) result" where
  "huge_op (Alloc ord) h = rbind (huge_alloc ord h) (\<lambda>(r, h'). Inr (Slot r, h'))"
| "huge_op (Free i) h = rbind (huge_free i h) (\<lambda>h'. Inr (Unit, h'))"
| "huge_op (Get i) h = rbind (huge_get h i) (\<lambda>ord. Inr (Content ord, h))"
| "huge_op (Update i upd) h = rbind (huge_get_mut i upd h) (\<lambda>h'. Inr (Unit, h'))"

fun run_store :: "(store_op \<Rightarrow> 's \<Rightarrow> (observation \<times> 's) result) \<Rightarrow> store_op list \<Rightarrow> 's \<Rightarrow> (observation list \<times> 's) result" where
  "run_store step [] s = Inr ([], s)"
| "run_store step (x # xs) s = rbind (step x s) (\<lambda>(o1, s1). rbind (run_store step xs s1) (\<lambda>(obs, s2). Inr (o1 # obs, s2)))"

lemma arena_op_inv:
  assumes "arena_op x ar = Inr (o1, ar')" "arena_inv ar"
  shows "arena_inv ar' \<and> a_capacity ar' = a_capacity ar"
proof (cases x)
  case (Alloc ord)
  then obtain r where "arena_alloc ord ar = Inr (r, ar')" using assms(1) by (auto simp: rbind_eq_Inr)
  then show ?thesis using arena_alloc_spec [OF assms(2), of ord] assms(2) by (auto simp: alloc_post_def split: option.splits)
next
  case (Free i)
  then have run: "arena_free i ar = Inr ar'" using assms(1) by (auto simp: rbind_eq_Inr)
  obtain ord where ord: "heap_of ar i = Some ord" using arena_free_occupied [OF run assms(2)] by blast
  then show ?thesis using arena_free_spec [OF assms(2) ord] run by simp
next
  case (Get i)
  then show ?thesis using assms by (auto simp: rbind_eq_Inr)
next
  case (Update i upd)
  then have run: "arena_get_mut i upd ar = Inr ar'" using assms(1) by (auto simp: rbind_eq_Inr)
  then obtain ord where "arena_get ar i = Inr ord" by (auto simp: arena_get_mut_def rbind_eq_Inr)
  then have ord: "heap_of ar i = Some ord" by (rule arena_get_heap [OF assms(2)])
  obtain ar2 where "arena_get_mut i upd ar = Inr ar2" "arena_inv ar2" "a_capacity ar2 = a_capacity ar"
    by (rule arena_get_mut_spec [OF assms(2) ord])
  then show ?thesis using run by simp
qed

lemma arena_run_inv:
  "run_store arena_op xs ar = Inr (obs, ar') \<Longrightarrow> arena_inv ar \<Longrightarrow> a_capacity ar = n \<Longrightarrow> arena_inv ar' \<and> a_capacity ar' = n"
proof (induction xs arbitrary: ar obs)
  case (Cons x xs)
  then obtain o1 ar1 obs1 where r: "arena_op x ar = Inr (o1, ar1)" "run_store arena_op xs ar1 = Inr (obs1, ar')"
    by (auto simp: rbind_eq_Inr)
  then show ?case using arena_op_inv [OF r(1)] Cons.IH [OF r(2)] Cons.prems by simp
qed simp

lemma huge_op_rel:
  assumes "huge_rel h ar" "arena_op x ar = Inr (o1, ar')"
  shows "\<exists>h'. huge_op x h = Inr (o1, h') \<and> huge_rel h' ar'"
proof (cases x)
  case (Alloc ord)
  then obtain r where "arena_alloc ord ar = Inr (r, ar')" "o1 = Slot r" using assms(2) by (auto simp: rbind_eq_Inr)
  then show ?thesis using huge_alloc_rel [OF assms(1)] Alloc by fastforce
next
  case (Free i)
  then have "arena_free i ar = Inr ar'" "o1 = Unit" using assms(2) by (auto simp: rbind_eq_Inr)
  then show ?thesis using huge_free_rel [OF assms(1)] Free by fastforce
next
  case (Get i)
  then obtain ord where "arena_get ar i = Inr ord" "o1 = Content ord" "ar' = ar" using assms(2) by (auto simp: rbind_eq_Inr)
  then show ?thesis using huge_get_rel [OF assms(1)] assms(1) Get by fastforce
next
  case (Update i upd)
  then have "arena_get_mut i upd ar = Inr ar'" "o1 = Unit" using assms(2) by (auto simp: rbind_eq_Inr)
  then show ?thesis using huge_get_mut_rel [OF assms(1)] Update by fastforce
qed

lemma run_store_rel:
  "huge_rel h ar \<Longrightarrow> run_store arena_op xs ar = Inr (obs, ar') \<Longrightarrow>
   \<exists>h'. run_store huge_op xs h = Inr (obs, h') \<and> huge_rel h' ar'"
proof (induction xs arbitrary: h ar obs)
  case (Cons x xs)
  then obtain o1 ar1 obs1 where r: "arena_op x ar = Inr (o1, ar1)" "run_store arena_op xs ar1 = Inr (obs1, ar')" "obs = o1 # obs1"
    by (auto simp: rbind_eq_Inr)
  obtain h1 where h1: "huge_op x h = Inr (o1, h1)" "huge_rel h1 ar1" using huge_op_rel [OF Cons.prems(1) r(1)] by blast
  then show ?case using Cons.IH [OF h1(2) r(2)] r(3) by auto
qed simp

end
