(* ===== verification/Mx_Recenter_Laws.thy ===== *)
theory Mx_Recenter_Laws
  imports Mx_Recenter Mx_Engine_Inv
begin

text \<open>
  Recentering keeps the book: the level of every price, the queues, the id index and the best
  prices are what they were, only their place between the window and the sparse map changes, and the
  rebuilt depth indices hold the level quantities. Step by step on one side of the book: the window is
  moved out, the levels of the new window move in, and the indices are rebuilt.
\<close>

lemma yields_rfold_upt:
  assumes "P 0 s" and "\<And>i s. i < n \<Longrightarrow> P i s \<Longrightarrow> yields (f i s) (P (Suc i))"
  shows "yields (rfold f [0..<n] s) (P n)"
  using assms(2)
proof (induction n)
  case (Suc n)
  have "yields (rfold f [0..<n] s) (P n)" by (rule Suc.IH) (use Suc.prems in simp)
  then show ?case unfolding upt_Suc_append [OF le0] rfold_append
    by (rule yields_bind) (use Suc.prems [of n] in \<open>simp add: yields_bind [where P = "P (Suc n)" and Q = "P (Suc n)"]\<close>)
qed (simp add: assms(1))

lemma yields_rfold_list:
  assumes "P [] s" and "\<And>ys x s. P ys s \<Longrightarrow> x \<in> set xs \<Longrightarrow> yields (f x s) (P (ys @ [x]))"
  shows "yields (rfold f xs s) (P xs)"
  using assms(2)
proof (induction xs rule: rev_induct)
  case (snoc x xs)
  have "yields (rfold f xs s) (P xs)" by (rule snoc.IH) (use snoc.prems in simp)
  then show ?case unfolding rfold_append
    by (rule yields_bind) (use snoc.prems [where ys = xs and x = x] in \<open>simp add: yields_bind [where P = "P (xs @ [x])" and Q = "P (xs @ [x])"]\<close>)
qed (simp add: assms(1))

text \<open>What recentering never touches.\<close>

definition same_ids :: "order_book \<Rightarrow> order_book \<Rightarrow> bool" where
  "same_ids b b' \<longleftrightarrow> order_index b' = order_index b \<and> instrument_id b' = instrument_id b \<and>
     dense_max_ticks b' = dense_max_ticks b"

lemma same_ids_put [simp]: "same_ids b (put_view s v b') \<longleftrightarrow> same_ids b b'"
  by (simp add: same_ids_def)

subsection \<open>Moving the window out\<close>

definition evicted :: "nat \<Rightarrow> nat \<Rightarrow> side_view \<Rightarrow> side_view \<Rightarrow> bool" where
  "evicted base k v w \<longleftrightarrow> w = v\<lparr>v_dense := replicate k EMPTY @ drop k (v_dense v), v_sparse := v_sparse w\<rparr> \<and>
     bt_inv (v_sparse w) \<and>
     (\<forall>p. bt_get (v_sparse w) p = (case tick_of base k p of
        Some i \<Rightarrow> if level_empty (v_dense v ! i) then None else Some (v_dense v ! i)
      | None \<Rightarrow> bt_get (v_sparse v) p))"

lemma evicted_0: "vshape base n v \<Longrightarrow> evicted base 0 v v"
  by (simp add: evicted_def vshape_def tick_of_def)

lemma tick_of_Suc:
  "tick_of base (Suc k) p = (if p = base + k then Some k else tick_of base k p)"
  by (auto simp: tick_of_def)

lemma evict_level_step:
  assumes ev: "evicted base k v (view s b)" and shape: "vshape base n v" and k: "k < n"
  shows "\<exists>w. evict_level s k (base + k) b = Inr (put_view s w b) \<and> evicted base (Suc k) v w"
proof -
  let ?w = "view s b" and ?l = "v_dense v ! k"
  have len: "length (v_dense v) = n" using shape by (simp add: vshape_def)
  have dense: "v_dense ?w = replicate k EMPTY @ drop k (v_dense v)"
    using ev unfolding evicted_def by (metis side_view.select_convs(1) side_view.surjective side_view.update_convs(1,2))
  have at: "v_dense ?w ! k = ?l" "k < length (v_dense ?w)" using dense len k by (simp_all add: nth_append)
  have next_dense: "(v_dense ?w)[k := EMPTY] = replicate (Suc k) EMPTY @ drop (Suc k) (v_dense v)"
    unfolding dense using k len
    by (simp add: list_update_append replicate_append_same flip: Cons_nth_drop_Suc)
  have out: "bt_get (v_sparse v) (base + k) = None" using shape k by (auto simp: vshape_def)
  have here: "tick_of base k (base + k) = None" by (simp add: tick_of_None)
  define m where "m = (if level_empty ?l then v_sparse ?w else bt_insert (base + k) ?l (v_sparse ?w))"
  have "evicted base (Suc k) v (?w\<lparr>v_dense := (v_dense ?w)[k := EMPTY], v_sparse := m\<rparr>)"
  proof -
    have inv: "bt_inv (v_sparse ?w)" and get: "\<And>p. bt_get (v_sparse ?w) p = (case tick_of base k p of
        Some i \<Rightarrow> if level_empty (v_dense v ! i) then None else Some (v_dense v ! i) | None \<Rightarrow> bt_get (v_sparse v) p)"
      using ev by (simp_all add: evicted_def)
    have "bt_inv m" using inv by (simp add: m_def bt.inv_ins)
    moreover have "bt_get m p = (case tick_of base (Suc k) p of
        Some i \<Rightarrow> if level_empty (v_dense v ! i) then None else Some (v_dense v ! i) | None \<Rightarrow> bt_get (v_sparse v) p)" for p
      using inv get [of p] get [of "base + k"] out here by (simp add: m_def bt.get_ins tick_of_Suc)
    moreover have "?w\<lparr>v_dense := (v_dense ?w)[k := EMPTY], v_sparse := m\<rparr> =
       v\<lparr>v_dense := replicate (Suc k) EMPTY @ drop (Suc k) (v_dense v), v_sparse := m\<rparr>"
    proof -
      obtain d0 m0 where "?w = v\<lparr>v_dense := d0, v_sparse := m0\<rparr>" using ev unfolding evicted_def by blast
      then have "?w\<lparr>v_dense := d, v_sparse := m\<rparr> = v\<lparr>v_dense := d, v_sparse := m\<rparr>" for d by simp
      then show ?thesis by (simp only: next_dense)
    qed
    ultimately show ?thesis unfolding evicted_def by simp
  qed
  moreover have "evict_level s k (base + k) b = Inr (put_view s (?w\<lparr>v_dense := (v_dense ?w)[k := EMPTY], v_sparse := m\<rparr>) b)"
    using at by (simp add: evict_level_def levels_view put_dense_view put_sparse_view m_def)
  ultimately show ?thesis by blast
qed

lemma evict_ok:
  assumes "\<And>s. vshape (dense_base_price b) (dense_max_ticks b) (view s b)"
  shows "yields (rfold (evict_tick (dense_base_price b)) [0..<dense_max_ticks b] b) (\<lambda>b'.
    same_ids b b' \<and> (\<forall>s. evicted (dense_base_price b) (dense_max_ticks b) (view s b) (view s b')))"
proof -
  let ?base = "dense_base_price b" and ?n = "dense_max_ticks b"
  let ?P = "\<lambda>k b'. same_ids b b' \<and> (\<forall>s. evicted ?base k (view s b) (view s b'))"
  show ?thesis
  proof (rule yields_rfold_upt [where P = ?P])
    show "?P 0 b" using evicted_0 [OF assms] by (simp add: same_ids_def)
    fix k b' assume k: "k < ?n" and P: "?P k b'"
    obtain w where w: "evict_level Bid k (?base + k) b' = Inr (put_view Bid w b')" "evicted ?base (Suc k) (view Bid b) w"
      using evict_level_step [OF _ assms k] P by blast
    have "evicted ?base k (view Ask b) (view Ask b')" using P by blast
    then have "evicted ?base k (view Ask b) (view Ask (put_view Bid w b'))" by (simp del: view.simps put_view.simps)
    then obtain u where u: "evict_level Ask k (?base + k) (put_view Bid w b') = Inr (put_view Ask u (put_view Bid w b'))"
      "evicted ?base (Suc k) (view Ask b) u"
      using evict_level_step [OF _ assms k] by blast
    have "evicted ?base (Suc k) (view s b) (view s (put_view Ask u (put_view Bid w b')))" for s
      using w(2) u(2) by (cases s) (simp_all del: view.simps put_view.simps)
    then show "yields (evict_tick ?base k b') (?P (Suc k))"
      using P by (simp add: evict_tick_def w(1) u(1) del: view.simps put_view.simps)
  qed
qed

subsection \<open>Moving the new window in\<close>

definition absorbed :: "nat \<Rightarrow> nat \<Rightarrow> side_view \<Rightarrow> nat list \<Rightarrow> side_view \<Rightarrow> bool" where
  "absorbed base n v xs w \<longleftrightarrow> w = v\<lparr>v_dense := v_dense w, v_sparse := v_sparse w\<rparr> \<and>
     length (v_dense w) = n \<and> bt_inv (v_sparse w) \<and>
     (\<forall>i < n. v_dense w ! i = (case bt_get (v_sparse v) (base + i) of
        Some l \<Rightarrow> if base + i \<in> set xs then l else v_dense v ! i | None \<Rightarrow> v_dense v ! i)) \<and>
     (\<forall>p. bt_get (v_sparse w) p = (if p \<in> set xs then None else bt_get (v_sparse v) p))"

lemma absorb_level_step:
  assumes ab: "absorbed base n v xs (view s b)" and p: "base \<le> p" "p < base + n"
  shows "\<exists>w. absorb_level s base p b = Inr (put_view s w b) \<and> absorbed base n v (xs @ [p]) w"
proof -
  let ?w = "view s b"
  have len: "length (v_dense ?w) = n" and inv: "bt_inv (v_sparse ?w)"
    and dense: "\<And>i. i < n \<Longrightarrow> v_dense ?w ! i = (case bt_get (v_sparse v) (base + i) of
        Some l \<Rightarrow> if base + i \<in> set xs then l else v_dense v ! i | None \<Rightarrow> v_dense v ! i)"
    and get: "\<And>p. bt_get (v_sparse ?w) p = (if p \<in> set xs then None else bt_get (v_sparse v) p)"
    and rest: "?w = v\<lparr>v_dense := v_dense ?w, v_sparse := v_sparse ?w\<rparr>"
    using ab by (simp_all add: absorbed_def)
  show ?thesis
  proof (cases "bt_get (v_sparse ?w) p")
    case None
    have "absorbed base n v (xs @ [p]) ?w"
      unfolding absorbed_def using len inv dense get rest None
      by (auto split: option.splits if_splits)
    moreover have "absorb_level s base p b = Inr (put_view s ?w b)"
      using None by (simp add: absorb_level_def levels_view)
    ultimately show ?thesis by blast
  next
    case (Some l)
    let ?u = "?w\<lparr>v_dense := (v_dense ?w)[p - base := l], v_sparse := bt_remove p (v_sparse ?w)\<rparr>"
    have i: "p - base < n" "base + (p - base) = p" using p by simp_all
    have new: "p \<notin> set xs" "bt_get (v_sparse v) p = Some l" using Some get [of p] by (simp_all split: if_splits)
    have "?u = v\<lparr>v_dense := v_dense ?u, v_sparse := v_sparse ?u\<rparr>"
    proof -
      obtain d0 m0 where "?w = v\<lparr>v_dense := d0, v_sparse := m0\<rparr>" using rest by blast
      then show ?thesis by simp
    qed
    moreover have "v_dense ?u ! j = (case bt_get (v_sparse v) (base + j) of
        Some l \<Rightarrow> if base + j \<in> set (xs @ [p]) then l else v_dense v ! j | None \<Rightarrow> v_dense v ! j)" if j: "j < n" for j
    proof (cases "j = p - base")
      case True
      then show ?thesis using i new len by simp
    next
      case False
      then have "base + j \<noteq> p" using i(2) by auto
      then show ?thesis using dense [OF j] False by (simp split: option.split)
    qed
    ultimately have "absorbed base n v (xs @ [p]) ?u"
      unfolding absorbed_def using len inv get by (simp add: bt.inv_del bt.get_del)
    moreover have comm: "w\<lparr>v_sparse := m, v_dense := d\<rparr> = w\<lparr>v_dense := d, v_sparse := m\<rparr>" for w :: side_view and m d
      by (cases w) simp
    have "absorb_level s base p b = Inr (put_view s ?u b)"
      using Some p len i by (simp add: comm absorb_level_def levels_view put_dense_view put_sparse_view)
    ultimately show ?thesis by blast
  qed
qed

lemma range_keys: "p \<in> set (bt_range_keys lo hi m) \<longleftrightarrow> lo \<le> p \<and> p < hi \<and> bt_get m p \<noteq> None"
  unfolding bt_get_not_None bt_range_keys_def by force

lemma absorb_ok:
  assumes "length (v_dense (view s b)) = n" "bt_inv (v_sparse (view s b))"
    "xs = bt_range_keys base (base + n) (v_sparse (view s b))"
  shows "yields (rfold (absorb_level s base) xs b) (\<lambda>b'. \<exists>w. b' = put_view s w b \<and> absorbed base n (view s b) xs w)"
proof (rule yields_rfold_list [where P = "\<lambda>ys b'. \<exists>w. b' = put_view s w b \<and> absorbed base n (view s b) ys w"])
  have "absorbed base n (view s b) [] (view s b)" using assms(1,2) by (auto simp: absorbed_def split: option.splits)
  then show "\<exists>w. b = put_view s w b \<and> absorbed base n (view s b) [] w" by (metis put_view_view)
  fix ys x b' assume "\<exists>w. b' = put_view s w b \<and> absorbed base n (view s b) ys w" and x: "x \<in> set xs"
  then obtain w where w: "b' = put_view s w b" "absorbed base n (view s b) ys w" by blast
  have "base \<le> x" "x < base + n" using x by (simp_all add: assms(3) range_keys)
  then show "yields (absorb_level s base x b') (\<lambda>b'. \<exists>w. b' = put_view s w b \<and> absorbed base n (view s b) (ys @ [x]) w)"
    using absorb_level_step [of base n "view s b" ys s b' x] w by auto
qed

subsection \<open>Rebuilding the indices\<close>

definition indexed :: "nat \<Rightarrow> nat \<Rightarrow> side_view \<Rightarrow> side_view \<Rightarrow> bool" where
  "indexed n k v w \<longleftrightarrow> w = v\<lparr>v_occ := v_occ w, v_tree := v_tree w\<rparr> \<and> n \<le> 64 * length (v_occ w) \<and>
     (\<forall>i. occ (v_occ w) i \<longleftrightarrow> i < k \<and> \<not> level_empty (v_dense v ! i)) \<and>
     fenwick_rel (v_tree w) (map (\<lambda>i. if i < k \<and> \<not> level_empty (v_dense v ! i) then total_quantity (v_dense v ! i) else 0) [0..<n])"

lemma indexed_start [simp]: "indexed n k (v\<lparr>v_occ := ws, v_tree := t\<rparr>) w \<longleftrightarrow> indexed n k v w"
  by (simp add: indexed_def cong: if_cong)

definition index_side :: "side \<Rightarrow> nat \<Rightarrow> order_book \<Rightarrow> order_book result" where
  "index_side s i b =
     rbind (vget (v_dense (view s b)) i) (\<lambda>l.
       if \<not> level_empty l
       then rbind (bitset_set i (v_occ (view s b))) (\<lambda>ws.
            rbind (fenwick_add i (total_quantity l) (v_tree (view s b))) (\<lambda>t.
              Inr (put_view s ((view s b)\<lparr>v_occ := ws, v_tree := t\<rparr>) b)))
       else Inr b)"

lemma index_side_eqs:
  "index_side Bid i b = rbind (vget (bids_dense b) i) (\<lambda>l. if \<not> level_empty l
     then rbind (set_occupied Bid i b) (\<lambda>b1. rbind (fenwick_add i (total_quantity l) (bid_depth_index b1)) (\<lambda>t.
       Inr (b1\<lparr>bid_depth_index := t\<rparr>)))
     else Inr b)"
  "index_side Ask i b = rbind (vget (asks_dense b) i) (\<lambda>l. if \<not> level_empty l
     then rbind (set_occupied Ask i b) (\<lambda>b1. rbind (fenwick_add i (total_quantity l) (ask_depth_index b1)) (\<lambda>t.
       Inr (b1\<lparr>ask_depth_index := t\<rparr>)))
     else Inr b)"
  by (cases b; simp add: index_side_def rbind_assoc cong: if_cong)+

lemma index_tick_sides: "index_tick i b = rbind (index_side Bid i b) (index_side Ask i)"
  unfolding index_tick_def index_side_eqs(1) rbind_assoc
  by (intro rbind_cong refl) (simp add: index_side_eqs(2))

lemma index_side_step:
  assumes ix: "indexed n k v (view s b)" and len: "length (v_dense v) = n" and k: "k < n"
  shows "yields (index_side s k b) (\<lambda>b'. \<exists>w. b' = put_view s w b \<and> indexed n (Suc k) v w)"
proof -
  let ?w = "view s b" and ?l = "v_dense v ! k"
  let ?A = "\<lambda>k. map (\<lambda>i. if i < k \<and> \<not> level_empty (v_dense v ! i) then total_quantity (v_dense v ! i) else 0) [0..<n]"
  have room: "n \<le> 64 * length (v_occ ?w)" and occ: "\<And>i. occ (v_occ ?w) i \<longleftrightarrow> i < k \<and> \<not> level_empty (v_dense v ! i)"
    and tree: "fenwick_rel (v_tree ?w) (?A k)"
    using ix by (simp_all add: indexed_def)
  obtain ws t where w: "?w = v\<lparr>v_occ := ws, v_tree := t\<rparr>" using ix unfolding indexed_def by blast
  have get: "vget (v_dense ?w) k = Inr ?l" using w len k by simp
  show ?thesis
  proof (cases "level_empty ?l")
    case True
    have A: "?A (Suc k) = ?A k" using True by (auto simp: less_Suc_eq)
    have "indexed n (Suc k) v ?w" unfolding indexed_def A using ix True unfolding indexed_def by (auto simp: less_Suc_eq)
    then show ?thesis using get True by (auto simp: index_side_def intro: exI [of _ ?w])
  next
    case False
    have "k div 64 < length (v_occ ?w)" using room k by linarith
    then obtain ws' where ws': "bitset_set k (v_occ ?w) = Inr ws'" "length ws' = length (v_occ ?w)"
      "\<And>j. occ ws' j \<longleftrightarrow> j = k \<or> occ (v_occ ?w) j" using bitset_set_spec by blast
    have occ': "occ ws' i \<longleftrightarrow> i < Suc k \<and> \<not> level_empty (v_dense v ! i)" for i
      using ws'(3) occ False by (auto simp: less_Suc_eq)
    have A: "(?A k)[k := ?A k ! k + total_quantity ?l] = ?A (Suc k)"
      using k False by (intro nth_equalityI) (auto simp: nth_list_update less_Suc_eq)
    have "yields (fenwick_add k (total_quantity ?l) (v_tree ?w)) (\<lambda>t'. fenwick_rel t' (?A (Suc k)))"
      using fw.add_rel [OF tree, of k "total_quantity ?l"] k unfolding A by simp
    then show ?thesis unfolding index_side_def get rbind_simps ws'(1)
    proof (simp add: False, elim yields_bind, goal_cases)
      case (1 t')
      have "indexed n (Suc k) v (?w\<lparr>v_occ := ws', v_tree := t'\<rparr>)"
        unfolding indexed_def using 1 occ' ws'(2) room w by simp
      then show ?case by (auto intro: exI [of _ "?w\<lparr>v_occ := ws', v_tree := t'\<rparr>"])
    qed
  qed
qed

lemma index_ok:
  assumes "\<And>s. indexed n 0 (view s b) (view s b)" "\<And>s. length (v_dense (view s b)) = n"
  shows "yields (rfold index_tick [0..<n] b) (\<lambda>b'. same_ids b b' \<and> dense_base_price b' = dense_base_price b \<and>
    (\<forall>s. indexed n n (view s b) (view s b')))"
proof -
  let ?P = "\<lambda>k b'. same_ids b b' \<and> dense_base_price b' = dense_base_price b \<and> (\<forall>s. indexed n k (view s b) (view s b'))"
  show ?thesis
  proof (rule yields_rfold_upt [where P = ?P])
    show "?P 0 b" using assms(1) by (simp add: same_ids_def del: view.simps put_view.simps)
    fix k b' assume k: "k < n" and P: "?P k b'"
    have ix: "indexed n k (view s b) (view s b')" for s using P by blast
    show "yields (index_tick k b') (?P (Suc k))" unfolding index_tick_sides
    proof (rule yields_bind [OF index_side_step [OF ix assms(2) k]], elim exE conjE)
      fix b1 w assume b1: "b1 = put_view Bid w b'" "indexed n (Suc k) (view Bid b) w"
      have "indexed n k (view Ask b) (view Ask b1)" using ix by (simp add: b1 del: view.simps put_view.simps)
      from index_side_step [OF this assms(2) k]
      show "yields (index_side Ask k b1) (?P (Suc k))"
      proof (rule yields_mono, elim exE conjE)
        fix b2 u assume b2: "b2 = put_view Ask u b1" "indexed n (Suc k) (view Ask b) u"
        have "indexed n (Suc k) (view s b) (view s b2)" for s
          using b1 b2 by (cases s) (simp_all del: view.simps put_view.simps)
        then show "?P (Suc k) b2" using P b1(1) b2(1) by (simp del: view.simps put_view.simps)
      qed
    qed
  qed
qed

definition level_totals :: "price_level btree \<Rightarrow> nat \<rightharpoonup> nat" where
  "level_totals m p = (case bt_get m p of None \<Rightarrow> None
     | Some l \<Rightarrow> if level_empty l then None else Some (total_quantity l))"

lemma sparse_index_of_ok:
  assumes "bt_inv m"
  shows "yields (sparse_index_of m) (\<lambda>x. sparse_inv x \<and> sparse_map x = level_totals m)"
proof -
  define es where "es = map (\<lambda>(p, l). (p, total_quantity l)) (filter (\<lambda>(_, l). \<not> level_empty l) m)"
  have m: "distinct (map fst m)" using assms by (simp add: bt_inv_def strict_sorted_iff)
  have keys: "map fst es = map fst (filter (\<lambda>(_, l). \<not> level_empty l) m)" by (simp add: es_def comp_def case_prod_beta')
  have d: "distinct (map fst es)" unfolding keys by (rule distinct_map_filter [OF m])
  have run: "yields (rfold (\<lambda>(price, qty) s. sparse_index_add price qty s) es x)
     (\<lambda>y. sparse_inv y \<and> sparse_map y = sparse_map x ++ map_of es)"
    if "sparse_inv x" "\<forall>p \<in> fst ` set es. sparse_map x p = None" "distinct (map fst es)" for x and es :: "(nat \<times> nat) list"
    using that
  proof (induction es arbitrary: x)
    case (Cons e es)
    obtain p q where e: "e = (p, q)" by (cases e)
    show ?case unfolding rfold.simps e prod.case
    proof (rule yields_bind [OF sparse_index_add_spec [OF Cons.prems(1)]], elim conjE)
      fix y assume y: "sparse_inv y" "sparse_map y = (sparse_map x)(p \<mapsto> plus_opt (sparse_map x p) q)"
      have none: "sparse_map x p = None" "p \<notin> fst ` set es" using Cons.prems(2,3) e by simp_all
      then have "\<forall>p \<in> fst ` set es. sparse_map y p = None" using Cons.prems(2) y(2) by auto
      then have "yields (rfold (\<lambda>(price, qty) s. sparse_index_add price qty s) es y)
         (\<lambda>z. sparse_inv z \<and> sparse_map z = sparse_map y ++ map_of es)"
        using Cons.IH [OF y(1)] Cons.prems(3) by auto
      moreover have "sparse_map y ++ map_of es = sparse_map x ++ map_of ((p, q) # es)"
        using none by (simp add: y(2) plus_opt_def map_add_upd_left dom_map_of_conv_image_fst)
      ultimately show "yields (rfold (\<lambda>(price, qty) s. sparse_index_add price qty s) es y)
         (\<lambda>z. sparse_inv z \<and> sparse_map z = sparse_map x ++ map_of ((p, q) # es))"
        by (simp only:)
    qed
  qed simp
  have totals: "map_of (map (\<lambda>(p, l). (p, total_quantity l)) (filter (\<lambda>(_, l). \<not> level_empty l) m)) p =
      (case map_of m p of None \<Rightarrow> None | Some l \<Rightarrow> if level_empty l then None else Some (total_quantity l))"
    if "distinct (map fst m)" for p and m :: "price_level btree"
    using that
  proof (induction m)
    case (Cons x m)
    obtain k l where x: "x = (k, l)" by (cases x)
    have "map_of m k = None" using Cons.prems x by (simp add: map_of_eq_None_iff)
    then show ?case using Cons x by (cases "k = p") simp_all
  qed simp
  have "map_of es p = level_totals m p" for p
    unfolding es_def level_totals_def bt_get_def by (rule totals [OF m])
  then have es: "map_of es = level_totals m" by (rule ext)
  show ?thesis unfolding sparse_index_of_def es_def [symmetric]
  proof (rule yields_bind [OF sparse_index_new_spec], elim conjE)
    fix x assume x: "sparse_inv x" "sparse_map x = Map.empty"
    have "yields (rfold (\<lambda>(price, qty) s. sparse_index_add price qty s) es x)
       (\<lambda>y. sparse_inv y \<and> sparse_map y = sparse_map x ++ map_of es)"
      by (rule run [OF x(1) _ d]) (simp add: x(2))
    then show "yields (rfold (\<lambda>(price, qty) s. sparse_index_add price qty s) es x)
       (\<lambda>y. sparse_inv y \<and> sparse_map y = level_totals m)"
      unfolding x(2) empty_map_add es .
  qed
qed

subsection \<open>The whole operation\<close>

text \<open>
  Every price keeps its level and its queue; best prices that were best of all their side stay best of
  the new window.
\<close>

definition recentered :: "nat \<Rightarrow> order_book \<Rightarrow> order_book \<Rightarrow> bool" where
  "recentered new_base b b' \<longleftrightarrow> same_ids b b' \<and> dense_base_price b' = new_base \<and>
     (\<forall>s. vshape new_base (dense_max_ticks b) (view s b') \<and> v_best (view s b') = v_best (view s b) \<and>
        (\<forall>p. vlevel new_base (dense_max_ticks b) (view s b') p = vlevel (dense_base_price b) (dense_max_ticks b) (view s b) p) \<and>
        (\<forall>p. bt_get (v_sparse (view s b')) p \<noteq> None \<longrightarrow> \<not> level_empty (vlevel new_base (dense_max_ticks b) (view s b') p)) \<and>
        (\<forall>i. occ (v_occ (view s b')) i \<longleftrightarrow> i < dense_max_ticks b \<and>
           \<not> level_empty (vlevel new_base (dense_max_ticks b) (view s b') (new_base + i))) \<and>
        (\<exists>D. depth_rel new_base (dense_max_ticks b) (view s b') D \<and>
           (\<forall>p. \<not> level_empty (vlevel new_base (dense_max_ticks b) (view s b') p) \<longrightarrow>
              D p = Some (total_quantity (vlevel new_base (dense_max_ticks b) (view s b') p)))))"

text \<open>The levels after the two moves.\<close>

lemma moved_view:
  assumes shape: "vshape base n v"
    and empty: "\<And>p. level_empty (vlevel base n v p) \<longleftrightarrow> vlevel base n v p = EMPTY"
    and sparse: "\<And>p. bt_get (v_sparse v) p \<noteq> None \<Longrightarrow> \<not> level_empty (vlevel base n v p)"
    and ev: "evicted base n v w"
    and ab: "absorbed base' n w (bt_range_keys base' (base' + n) (v_sparse w)) u"
  shows "length (v_dense u) = n" "bt_inv (v_sparse u)" "v_best u = v_best v"
    "\<And>p. vlevel base' n u p = vlevel base n v p"
    "\<And>p. bt_get (v_sparse u) p = (if tick_of base' n p = None \<and> \<not> level_empty (vlevel base n v p)
       then Some (vlevel base n v p) else None)"
    "\<And>i. i < n \<Longrightarrow> v_dense u ! i = vlevel base n v (base' + i)"
proof -
  let ?L = "vlevel base n v"
  have vd: "length (v_dense v) = n" using shape by (simp add: vshape_def)
  obtain m where w: "w = v\<lparr>v_dense := replicate n EMPTY, v_sparse := m\<rparr>"
    using ev vd unfolding evicted_def by auto
  have get: "bt_get (v_sparse w) p = (if level_empty (?L p) then None else Some (?L p))" for p
    using ev sparse [of p] unfolding evicted_def vlevel_def
    by (auto simp: level_empty_EMPTY split: option.splits)
  show "length (v_dense u) = n" "bt_inv (v_sparse u)" using ab by (simp_all add: absorbed_def)
  show "v_best u = v_best v" using ab w unfolding absorbed_def by (metis side_view.select_convs(4) side_view.surjective side_view.update_convs(1,2))
  have keys: "p \<in> set (bt_range_keys base' (base' + n) (v_sparse w)) \<longleftrightarrow> tick_of base' n p \<noteq> None \<and> \<not> level_empty (?L p)" for p
    unfolding range_keys get by (auto simp: tick_of_def split: if_splits)
  show sp: "bt_get (v_sparse u) p = (if tick_of base' n p = None \<and> \<not> level_empty (?L p) then Some (?L p) else None)" for p
    using ab keys [of p] get [of p] by (auto simp: absorbed_def)
  show dn: "v_dense u ! i = ?L (base' + i)" if "i < n" for i
    using ab that keys [of "base' + i"] get [of "base' + i"] empty [of "base' + i"] w
    by (auto simp: absorbed_def split: if_splits)
  show "vlevel base' n u p = ?L p" for p
  proof (cases "tick_of base' n p")
    case None
    then show ?thesis using sp [of p] empty [of p] by (simp add: vlevel_def split: option.splits)
  next
    case (Some i)
    then show ?thesis using dn [of i] by (simp add: vlevel_def tick_of_Some)
  qed
qed


lemma rebuild_ok:
  assumes "\<And>s. length (v_dense (view s b)) = dense_max_ticks b" "\<And>s. bt_inv (v_sparse (view s b))"
  shows "yields (rebuild_indices b) (\<lambda>b'. same_ids b b' \<and> dense_base_price b' = dense_base_price b \<and>
    (\<forall>s. \<exists>w x. indexed (dense_max_ticks b) (dense_max_ticks b) (view s b) w \<and> view s b' = w\<lparr>v_sidx := x\<rparr> \<and>
       sparse_inv x \<and> sparse_map x = level_totals (v_sparse (view s b))))"
proof -
  let ?n = "dense_max_ticks b" and ?zero = "replicate (div_ceil (dense_max_ticks b) 64) (0 :: 64 word)"
  have room: "?n \<le> 64 * div_ceil ?n 64" by (auto simp: div_ceil_def)
  have zeros: "map (\<lambda>i. if i < 0 \<and> P i then f i else 0) [0..<?n] = replicate ?n (0 :: nat)" for P :: "nat \<Rightarrow> bool" and f
    by (simp add: map_replicate_const)
  show ?thesis unfolding rebuild_indices_def Let_def
  proof (rule yields_bind [OF fw.new_rel], rule yields_bind [OF fw.new_rel])
    fix bt at assume trees: "fenwick_rel bt (replicate ?n 0)" "fenwick_rel at (replicate ?n 0)"
    let ?b0 = "b\<lparr>bids_occupied := ?zero, asks_occupied := ?zero, bid_depth_index := bt, ask_depth_index := at\<rparr>"
    have v0: "view s ?b0 = (view s b)\<lparr>v_occ := ?zero, v_tree := (case s of Bid \<Rightarrow> bt | Ask \<Rightarrow> at)\<rparr>" for s
      by (cases s) simp_all
    have "indexed ?n 0 (view s ?b0) (view s ?b0)" for s
      unfolding indexed_def zeros v0 using room trees by (cases s) (simp_all add: length_replicate)
    moreover have "length (v_dense (view s ?b0)) = ?n" for s using assms(1) unfolding v0 by simp
    ultimately have "yields (rfold index_tick [0..<?n] ?b0) (\<lambda>b'. same_ids ?b0 b' \<and>
        dense_base_price b' = dense_base_price ?b0 \<and> (\<forall>s. indexed ?n ?n (view s ?b0) (view s b')))"
      by (rule index_ok)
    then show "yields (rbind (rfold index_tick [0..<?n] ?b0) rebuild_sparse_indices)
       (\<lambda>b'. same_ids b b' \<and> dense_base_price b' = dense_base_price b \<and>
         (\<forall>s. \<exists>w x. indexed ?n ?n (view s b) w \<and> view s b' = w\<lparr>v_sidx := x\<rparr> \<and>
           sparse_inv x \<and> sparse_map x = level_totals (v_sparse (view s b))))"
    proof (rule yields_bind, elim conjE)
      fix b1 assume b1: "same_ids ?b0 b1" "dense_base_price b1 = dense_base_price ?b0"
        "\<forall>s. indexed ?n ?n (view s ?b0) (view s b1)"
      have ix: "indexed ?n ?n (view s b) (view s b1)" for s
        using b1(3) [rule_format, of s] unfolding v0 by simp
      have sp: "v_sparse (view s b1) = v_sparse (view s b)" for s
        using ix [of s] unfolding indexed_def by (metis side_view.select_convs(2) side_view.surjective side_view.update_convs(3,5))
      have inv: "bt_inv (bids_sparse b1)" "bt_inv (asks_sparse b1)"
        using assms(2) [of Bid] assms(2) [of Ask] sp [of Bid] sp [of Ask] by simp_all
      show "yields (rebuild_sparse_indices b1)
        (\<lambda>b'. same_ids b b' \<and> dense_base_price b' = dense_base_price b \<and>
         (\<forall>s. \<exists>w x. indexed ?n ?n (view s b) w \<and> view s b' = w\<lparr>v_sidx := x\<rparr> \<and>
           sparse_inv x \<and> sparse_map x = level_totals (v_sparse (view s b))))"
        unfolding rebuild_sparse_indices_def
      proof (rule yields_bind [OF sparse_index_of_ok [OF inv(1)]], rule yields_bind [OF sparse_index_of_ok [OF inv(2)]])
        fix xb xa assume x: "sparse_inv xb \<and> sparse_map xb = level_totals (bids_sparse b1)"
          "sparse_inv xa \<and> sparse_map xa = level_totals (asks_sparse b1)"
        let ?b2 = "b1\<lparr>bids_sparse_index := xb, asks_sparse_index := xa\<rparr>"
        have "view s ?b2 = (view s b1)\<lparr>v_sidx := (case s of Bid \<Rightarrow> xb | Ask \<Rightarrow> xa)\<rparr>" for s
          by (cases s) simp_all
        moreover have "sparse_inv (case s of Bid \<Rightarrow> xb | Ask \<Rightarrow> xa) \<and>
            sparse_map (case s of Bid \<Rightarrow> xb | Ask \<Rightarrow> xa) = level_totals (v_sparse (view s b))" for s
          using x sp [of Bid] sp [of Ask] by (cases s) simp_all
        moreover have "same_ids b ?b2" "dense_base_price ?b2 = dense_base_price b"
          using b1(1,2) by (simp_all add: same_ids_def)
        ultimately show "yields (Inr ?b2) (\<lambda>b'. same_ids b b' \<and> dense_base_price b' = dense_base_price b \<and>
         (\<forall>s. \<exists>w x. indexed ?n ?n (view s b) w \<and> view s b' = w\<lparr>v_sidx := x\<rparr> \<and>
           sparse_inv x \<and> sparse_map x = level_totals (v_sparse (view s b))))"
          unfolding yields_simps using ix by blast
      qed
    qed
  qed
qed


lemma reindexed_view:
  assumes len: "length (v_dense v) = n" and inv: "bt_inv (v_sparse v)"
    and sparse: "\<And>p. bt_get (v_sparse v) p = (if tick_of base n p = None \<and> \<not> level_empty (L p) then Some (L p) else None)"
    and dense: "\<And>i. i < n \<Longrightarrow> v_dense v ! i = L (base + i)"
    and level: "\<And>p. vlevel base n v p = L p"
    and ix: "indexed n n v w" and x: "sparse_inv x" "sparse_map x = level_totals (v_sparse v)"
  shows "vshape base n (w\<lparr>v_sidx := x\<rparr>)" "v_best (w\<lparr>v_sidx := x\<rparr>) = v_best v"
    "vlevel base n (w\<lparr>v_sidx := x\<rparr>) p = L p"
    "bt_get (v_sparse (w\<lparr>v_sidx := x\<rparr>)) p \<noteq> None \<Longrightarrow> \<not> level_empty (L p)"
    "occ (v_occ (w\<lparr>v_sidx := x\<rparr>)) i \<longleftrightarrow> i < n \<and> \<not> level_empty (L (base + i))"
    "\<exists>D. depth_rel base n (w\<lparr>v_sidx := x\<rparr>) D \<and> (\<forall>p. \<not> level_empty (L p) \<longrightarrow> D p = Some (total_quantity (L p)))"
proof -
  obtain ws t where w: "w = v\<lparr>v_occ := ws, v_tree := t\<rparr>" using ix unfolding indexed_def by blast
  have occ: "n \<le> 64 * length ws" "\<And>i. occ ws i \<longleftrightarrow> i < n \<and> \<not> level_empty (v_dense v ! i)"
    using ix by (simp_all add: indexed_def w)
  have out: "bt_get (v_sparse v) p \<noteq> None \<Longrightarrow> tick_of base n p = None" for p by (simp add: sparse split: if_splits)
  show "vshape base n (w\<lparr>v_sidx := x\<rparr>)" using len inv occ(1) out by (simp add: vshape_def w)
  show "v_best (w\<lparr>v_sidx := x\<rparr>) = v_best v" by (simp add: w)
  show "vlevel base n (w\<lparr>v_sidx := x\<rparr>) p = L p" using level by (simp add: w)
  show "bt_get (v_sparse (w\<lparr>v_sidx := x\<rparr>)) p \<noteq> None \<Longrightarrow> \<not> level_empty (L p)" by (simp add: w sparse split: if_splits)
  show "occ (v_occ (w\<lparr>v_sidx := x\<rparr>)) i \<longleftrightarrow> i < n \<and> \<not> level_empty (L (base + i))"
    using occ(2) dense by (auto simp: w)
  define A where "A = map (\<lambda>i. if i < n \<and> \<not> level_empty (v_dense v ! i) then total_quantity (v_dense v ! i) else 0) [0..<n]"
  define D where "D p = (case tick_of base n p of Some i \<Rightarrow> Some (A ! i) | None \<Rightarrow> level_totals (v_sparse v) p)" for p
  have tree: "length A = n" "fenwick_rel t A" using ix by (simp_all add: indexed_def w A_def)
  have "depth_rel base n (w\<lparr>v_sidx := x\<rparr>) D"
    unfolding depth_rel_def using tree x out
    by (auto simp: w D_def level_totals_def split: option.splits intro!: exI [of _ A])
  moreover have "D p = Some (total_quantity (L p))" if "\<not> level_empty (L p)" for p
  proof (cases "tick_of base n p")
    case None
    then show ?thesis using that by (simp add: D_def level_totals_def sparse)
  next
    case (Some i)
    then show ?thesis using that dense [of i] by (auto simp: D_def A_def tick_of_Some)
  qed
  ultimately show "\<exists>D. depth_rel base n (w\<lparr>v_sidx := x\<rparr>) D \<and> (\<forall>p. \<not> level_empty (L p) \<longrightarrow> D p = Some (total_quantity (L p)))"
    by blast
qed

lemma refresh_bbo_idle:
  assumes "\<And>s. vshape (dense_base_price b) (dense_max_ticks b) (view s b)"
    and "\<And>s p. v_best (view s b) = Some p \<Longrightarrow> \<not> level_empty (vlevel (dense_base_price b) (dense_max_ticks b) (view s b) p)"
  shows "refresh_bbo_after_recenter b = Inr b"
  using book_level_is_empty_spec [OF assms(1), of Bid] book_level_is_empty_spec [OF assms(1), of Ask]
    assms(2) [of Bid] assms(2) [of Ask]
  by (simp add: refresh_bbo_after_recenter_def split: option.split)

lemma force_recenter_ok:
  assumes shape: "\<And>s. vshape (dense_base_price b) (dense_max_ticks b) (view s b)"
    and empty: "\<And>s p. level_empty (vlevel (dense_base_price b) (dense_max_ticks b) (view s b) p) \<longleftrightarrow>
       vlevel (dense_base_price b) (dense_max_ticks b) (view s b) p = EMPTY"
    and sparse: "\<And>s p. bt_get (v_sparse (view s b)) p \<noteq> None \<Longrightarrow>
       \<not> level_empty (vlevel (dense_base_price b) (dense_max_ticks b) (view s b) p)"
    and best: "\<And>s p. v_best (view s b) = Some p \<Longrightarrow>
       \<not> level_empty (vlevel (dense_base_price b) (dense_max_ticks b) (view s b) p)"
    and new: "new_base \<noteq> dense_base_price b"
  shows "yields (force_recenter new_base b) (recentered new_base b)"
proof -
  let ?n = "dense_max_ticks b" and ?base = "dense_base_price b"
  note simps = view.simps put_view.simps
  have run: "yields (rbind (rfold (absorb_level Bid new_base) (bt_range_keys new_base (new_base + ?n) (bids_sparse (b1\<lparr>dense_base_price := new_base\<rparr>))) (b1\<lparr>dense_base_price := new_base\<rparr>)) (\<lambda>b3.
      rbind (rfold (absorb_level Ask new_base) (bt_range_keys new_base (new_base + ?n) (asks_sparse b3)) b3) (\<lambda>b4.
      rbind (rebuild_indices b4) refresh_bbo_after_recenter))) (recentered new_base b)"
    if ids: "same_ids b b1" and ev: "\<forall>s. evicted ?base ?n (view s b) (view s b1)" for b1
  proof -
    let ?b2 = "b1\<lparr>dense_base_price := new_base\<rparr>"
    have v2: "view s ?b2 = view s b1" for s by (cases s) simp_all
    have keys: "bids_sparse c = v_sparse (view Bid c)" "asks_sparse c = v_sparse (view Ask c)" for c by simp_all
    have len: "length (v_dense (view s b1)) = ?n" "bt_inv (v_sparse (view s b1))" for s
    proof -
      have "evicted ?base ?n (view s b) (view s b1)" using ev by blast
      then obtain m where "view s b1 = (view s b)\<lparr>v_dense := replicate ?n EMPTY @ drop ?n (v_dense (view s b)), v_sparse := m\<rparr>" "bt_inv m"
        unfolding evicted_def by metis
      then show "length (v_dense (view s b1)) = ?n" "bt_inv (v_sparse (view s b1))"
        using shape [of s] by (simp_all add: vshape_def del: simps)
    qed
    show ?thesis
    proof (rule yields_bind [OF absorb_ok [of Bid ?b2 ?n]], goal_cases)
      case (4 b3)
      then obtain wb where wb: "b3 = put_view Bid wb ?b2"
        "absorbed new_base ?n (view Bid b1) (bt_range_keys new_base (new_base + ?n) (v_sparse (view Bid b1))) wb"
        unfolding v2 keys by blast
      have v3: "view Ask b3 = view Ask b1" unfolding wb(1) by (simp add: v2 del: simps)
      show ?case
      proof (rule yields_bind [OF absorb_ok [of Ask b3 ?n]], goal_cases)
        case (4 b4)
        then obtain wa where wa: "b4 = put_view Ask wa b3"
          "absorbed new_base ?n (view Ask b1) (bt_range_keys new_base (new_base + ?n) (v_sparse (view Ask b1))) wa"
          unfolding v3 keys by blast
        have b4: "same_ids b b4" "dense_base_price b4 = new_base" "dense_max_ticks b4 = ?n"
          using ids by (simp_all add: wa(1) wb(1) same_ids_def del: simps)
        have "view Bid b4 = wb" "view Ask b4 = wa" unfolding wa(1) wb(1) by (simp_all del: simps)
        then have ab: "absorbed new_base ?n (view s b1) (bt_range_keys new_base (new_base + ?n) (v_sparse (view s b1))) (view s b4)" for s
          using wa(2) wb(2) by (cases s) (simp_all del: simps)
        note moved = moved_view [OF shape empty sparse ev [rule_format] ab]
        have "yields (rebuild_indices b4) (\<lambda>b5. same_ids b4 b5 \<and> dense_base_price b5 = dense_base_price b4 \<and>
          (\<forall>s. \<exists>w x. indexed (dense_max_ticks b4) (dense_max_ticks b4) (view s b4) w \<and> view s b5 = w\<lparr>v_sidx := x\<rparr> \<and>
             sparse_inv x \<and> sparse_map x = level_totals (v_sparse (view s b4))))"
          by (rule rebuild_ok) (use moved(1,2) b4(3) in metis)+
        then show ?case
        proof (rule yields_bind, elim conjE)
          fix b5 assume b5: "same_ids b4 b5" "dense_base_price b5 = dense_base_price b4"
            "\<forall>s. \<exists>w x. indexed (dense_max_ticks b4) (dense_max_ticks b4) (view s b4) w \<and> view s b5 = w\<lparr>v_sidx := x\<rparr> \<and>
             sparse_inv x \<and> sparse_map x = level_totals (v_sparse (view s b4))"
          have frame: "same_ids b b5" "dense_base_price b5 = new_base" "dense_max_ticks b5 = ?n"
            using b4 b5(1,2) by (simp_all add: same_ids_def)
          have side: "vshape new_base ?n (view s b5) \<and> v_best (view s b5) = v_best (view s b) \<and>
              (\<forall>p. vlevel new_base ?n (view s b5) p = vlevel ?base ?n (view s b) p) \<and>
              (\<forall>p. bt_get (v_sparse (view s b5)) p \<noteq> None \<longrightarrow> \<not> level_empty (vlevel ?base ?n (view s b) p)) \<and>
              (\<forall>i. occ (v_occ (view s b5)) i \<longleftrightarrow> i < ?n \<and> \<not> level_empty (vlevel ?base ?n (view s b) (new_base + i))) \<and>
              (\<exists>D. depth_rel new_base ?n (view s b5) D \<and>
                 (\<forall>p. \<not> level_empty (vlevel ?base ?n (view s b) p) \<longrightarrow> D p = Some (total_quantity (vlevel ?base ?n (view s b) p))))" for s
          proof -
            obtain w x where w: "indexed ?n ?n (view s b4) w" "view s b5 = w\<lparr>v_sidx := x\<rparr>" "sparse_inv x"
              "sparse_map x = level_totals (v_sparse (view s b4))"
              using b5(3) unfolding b4(3) by blast
            note re = reindexed_view [OF moved(1,2,5,6,4) w(1,3,4)]
            show ?thesis unfolding w(2) using re(1,3,4,5,6) re(2) moved(3) by (intro conjI allI impI) simp_all
          qed
          have "recentered new_base b b5"
            unfolding recentered_def using frame(1,2) side by auto
          moreover have "refresh_bbo_after_recenter b5 = Inr b5"
            by (rule refresh_bbo_idle) (use side best frame(2,3) in simp_all)
          ultimately show "yields (refresh_bbo_after_recenter b5) (recentered new_base b)" by simp
        qed
      qed (simp_all add: v3 len del: simps, simp add: keys v3 del: simps)
    qed (simp_all add: v2 len del: simps, simp add: keys v2 del: simps)
  qed
  show ?thesis unfolding force_recenter_def Let_def if_not_P [OF new] yields_bind_add_u64
    by (intro impI, rule yields_bind [OF evict_ok [OF shape]], elim conjE, rule run)
qed


subsection \<open>The invariant of the book\<close>

lemma queue_ok_empty:
  assumes "queue_ok h s p l q"
  shows "level_empty l \<longleftrightarrow> q = []" "level_empty l \<longleftrightarrow> l = EMPTY" "total_quantity l = sum_rem h q"
  using assms by (auto simp: queue_ok_def level_empty_def ends_ok_def EMPTY_def)

lemma book_force_recenter:
  assumes rel: "book_rel b ar Q" and new: "new_base \<noteq> dense_base_price b"
  shows "yields (force_recenter new_base b) (recentered new_base b)"
proof (rule force_recenter_ok [OF _ _ _ _ new])
  fix s p
  note side = side_relD [OF book_relD(2) [OF rel, of s]]
  show "vshape (dense_base_price b) (dense_max_ticks b) (view s b)" by (rule side(1))
  show "level_empty (vlevel (dense_base_price b) (dense_max_ticks b) (view s b) p) \<longleftrightarrow>
      vlevel (dense_base_price b) (dense_max_ticks b) (view s b) p = EMPTY" by (rule queue_ok_empty(2) [OF side(3)])
  show "\<not> level_empty (vlevel (dense_base_price b) (dense_max_ticks b) (view s b) p)"
    if "bt_get (v_sparse (view s b)) p \<noteq> None"
    using that side(2) queue_ok_empty(1) [OF side(3)] by (simp add: sparse_ok_def)
  show "\<not> level_empty (vlevel (dense_base_price b) (dense_max_ticks b) (view s b) p)" if "v_best (view s b) = Some p"
    using that side(5) queue_ok_empty(1) [OF side(3)] by (simp add: best_ok_def)
qed

lemma recentered_rel:
  assumes rel: "book_rel b ar Q" and re: "recentered new_base b b'"
    and live: "live_ok (heap_of ar)"
    and best: "\<And>s bp i ord. v_best (view s b) = Some bp \<Longrightarrow> heap_of ar i = Some ord \<Longrightarrow> o_side ord = s \<Longrightarrow> better s bp (o_price ord)"
  shows "book_rel b' ar Q"
proof -
  let ?n = "dense_max_ticks b"
  have ids: "order_index b' = order_index b" "dense_max_ticks b' = ?n" "dense_base_price b' = new_base"
    using re by (simp_all add: recentered_def same_ids_def)
  have "side_rel new_base ?n s (view s b') (heap_of ar) (Q s)" for s
  proof -
    note side = side_relD [OF book_relD(2) [OF rel, of s]]
    let ?L = "vlevel new_base ?n (view s b')"
    have v: "vshape new_base ?n (view s b')" "v_best (view s b') = v_best (view s b)"
      "\<And>p. ?L p = vlevel (dense_base_price b) ?n (view s b) p"
      "\<And>p. bt_get (v_sparse (view s b')) p \<noteq> None \<Longrightarrow> \<not> level_empty (?L p)"
      "\<And>i. occ (v_occ (view s b')) i \<longleftrightarrow> i < ?n \<and> \<not> level_empty (?L (new_base + i))"
      using re unfolding recentered_def by blast+
    obtain D where D: "depth_rel new_base ?n (view s b') D"
      "\<And>p. \<not> level_empty (?L p) \<Longrightarrow> D p = Some (total_quantity (?L p))"
      using re unfolding recentered_def by blast
    have q: "queue_ok (heap_of ar) s p (?L p) (Q s p)" for p using side(3) v(3) by simp
    note empty = queue_ok_empty [OF q]
    have pos: "0 < sum_rem (heap_of ar) (Q s p)" if nonempty: "Q s p \<noteq> []" for p
    proof -
      obtain i where i: "i \<in> set (Q s p)" using nonempty by (meson hd_in_set)
      obtain ord where ord: "heap_of ar i = Some ord" using book_rel_slot [OF rel i] by blast
      have "0 < rem_at (heap_of ar) i" using live ord by (auto simp: live_ok_def rem_at_def)
      then show ?thesis using rem_at_le_sum [OF i, of "heap_of ar"] by linarith
    qed
    have "depth_ok D (heap_of ar) p (Q s p)" for p
      using D(2) [of p] empty(1) [of p] empty(3) [of p] pos [of p] by (auto simp: depth_ok_def)
    moreover have "sparse_ok (view s b') (Q s)" using v(4) empty(1) by (simp add: sparse_ok_def)
    moreover have "occ_ok new_base ?n (view s b') (Q s)" using v(5) empty(1) by (simp add: occ_ok_def)
    moreover have "best_ok new_base ?n s (view s b') (Q s)"
    proof (cases "v_best (view s b)")
      case None
      then show ?thesis using side(5) v(2) by (simp add: best_ok_def)
    next
      case (Some bp)
      have "better s bp p" if nonempty: "Q s p \<noteq> []" for p
      proof -
        obtain i where i: "i \<in> set (Q s p)" using hd_in_set [OF nonempty] by blast
        then show ?thesis using book_rel_slot [OF rel i] best [OF Some] by blast
      qed
      then show ?thesis using side(5) v(2) Some by (simp add: best_ok_def)
    qed
    ultimately show ?thesis unfolding side_rel_def using v(1) q D(1) by blast
  qed
  then show ?thesis using rel unfolding book_rel_def ids by blast
qed

text \<open>The guard of \<open>maybe_recenter\<close>.\<close>

lemma needs_recenter_ok: "yields (needs_recenter b) (\<lambda>_. True)"
  unfolding needs_recenter_def Let_def
  by (rule yields_bind [where Q = "\<lambda>_. True"]) (simp_all split: option.split)

lemma book_maybe_recenter:
  assumes rel: "book_rel b ar Q"
  shows "yields (maybe_recenter b) (\<lambda>b'. b' = b \<or> (\<exists>new_base. recentered new_base b b'))"
  unfolding maybe_recenter_def Let_def
proof (rule yields_bind [OF needs_recenter_ok])
  fix needs
  have force: "yields (force_recenter new_base b) (\<lambda>b'. b' = b \<or> (\<exists>new_base. recentered new_base b b'))" for new_base
  proof (cases "new_base = dense_base_price b")
    case True
    then show ?thesis by (simp add: force_recenter_def)
  next
    case False
    show ?thesis by (rule yields_mono [OF book_force_recenter [OF rel False]]) blast
  qed
  then show "yields (if needs then force_recenter (saturating_sub (case best_bid_tick b of Some bid \<Rightarrow> bid
      | None \<Rightarrow> (case best_ask_tick b of Some ask \<Rightarrow> ask | None \<Rightarrow> 0)) (dense_max_ticks b div 2)) b else Inr b)
    (\<lambda>b'. b' = b \<or> (\<exists>new_base. recentered new_base b b'))" by simp
qed

end
