(* ===== verification/Mx_Depth_Spec.thy ===== *)
theory Mx_Depth_Spec
  imports Mx_Sparse_Index
begin

text \<open>
  What the two depth indices promise. The Fenwick tree stands for an array of quantities, the sparse
  index for a finite map from prices to quantities; an update of the abstract structure may be refused.
  A locale carries the refinement from single updates to sequences of them; both indices interpret it.
\<close>

datatype depth_op = Plus nat nat | Minus nat nat

fun array_op :: "depth_op \<Rightarrow> nat list \<Rightarrow> nat list option" where
  "array_op (Plus i q) A = (if i < length A then Some (A[i := A ! i + q]) else None)"
| "array_op (Minus i q) A = (if i < length A \<and> q \<le> A ! i then Some (A[i := A ! i - q]) else None)"

fun map_op :: "depth_op \<Rightarrow> (nat \<rightharpoonup> nat) \<Rightarrow> (nat \<rightharpoonup> nat) option" where
  "map_op (Plus p q) m = Some (m(p \<mapsto> plus_opt (m p) q))"
| "map_op (Minus p q) m = (case m p of
     None \<Rightarrow> None
   | Some d \<Rightarrow> if d < q then None else Some (if d = q then m(p := None) else m(p \<mapsto> d - q)))"

fun ops_run :: "('x \<Rightarrow> 's \<Rightarrow> 's option) \<Rightarrow> 'x list \<Rightarrow> 's \<Rightarrow> 's option" where
  "ops_run f [] s = Some s"
| "ops_run f (x # xs) s = (case f x s of None \<Rightarrow> None | Some s' \<Rightarrow> ops_run f xs s')"

fun tree_op :: "depth_op \<Rightarrow> fenwick \<Rightarrow> fenwick result" where
  "tree_op (Plus i q) t = fenwick_add i q t"
| "tree_op (Minus i q) t = fenwick_sub i q t"

fun index_op :: "depth_op \<Rightarrow> sparse_index \<Rightarrow> sparse_index result" where
  "index_op (Plus p q) s = sparse_index_add p q s"
| "index_op (Minus p q) s = sparse_index_sub p q s"

locale stepwise =
  fixes rel :: "'s \<Rightarrow> 'a \<Rightarrow> bool"
    and spec_op :: "'x \<Rightarrow> 'a \<Rightarrow> 'a option"
    and code_op :: "'x \<Rightarrow> 's \<Rightarrow> 's result"
  assumes step: "rel s a \<Longrightarrow> spec_op x a = Some a' \<Longrightarrow> yields (code_op x s) (\<lambda>s'. rel s' a')"
begin

lemma run:
  assumes "rel s a" "ops_run spec_op xs a = Some a'"
  shows "yields (rfold code_op xs s) (\<lambda>s'. rel s' a')"
  using assms
proof (induction xs arbitrary: s a)
  case (Cons x xs)
  then obtain b where b: "spec_op x a = Some b" "ops_run spec_op xs b = Some a'" by (auto split: option.splits)
  show ?case unfolding rfold.simps
    by (rule yields_bind [OF step [OF Cons.prems(1) b(1)]]) (rule Cons.IH [OF _ b(2)])
qed simp

end

interpretation tree: stepwise fenwick_rel array_op tree_op
proof
  show "yields (tree_op x s) (\<lambda>s'. fenwick_rel s' B')" if "fenwick_rel s B" "array_op x B = Some B'" for x s B B'
    using that fw.add_rel [OF that(1)] fw.sub_yields [OF that(1)] by (cases x) (auto split: if_splits)
qed

definition index_rel :: "sparse_index \<Rightarrow> (nat \<rightharpoonup> nat) \<Rightarrow> bool" where
  "index_rel s m \<longleftrightarrow> sparse_inv s \<and> sparse_map s = m"

interpretation index: stepwise index_rel map_op index_op
proof
  fix x s b b' assume rel: "index_rel s b" and upd: "map_op x b = Some b'"
  show "yields (index_op x s) (\<lambda>s'. index_rel s' b')"
  proof (cases x)
    case (Plus p q)
    then show ?thesis using rel upd sparse_index_add_spec [of s p q] by (simp add: index_rel_def)
  next
    case (Minus p q)
    then obtain d where d: "sparse_map s p = Some d" "q \<le> d" "b' = (if d = q then b(p := None) else b(p \<mapsto> d - q))"
      using rel upd by (auto simp: index_rel_def split: option.splits if_splits)
    then show ?thesis using rel sparse_index_sub_spec [of s p d q] Minus
      by (cases "d = q") (simp_all add: index_rel_def)
  qed
qed

lemma ops_run_length: "ops_run array_op xs A = Some B \<Longrightarrow> length B = length A"
proof (induction xs arbitrary: A)
  case (Cons x xs)
  then show ?case by (cases x) (fastforce split: option.splits if_splits)+
qed simp

end
