(* ===== verification/Mx_Policy_Laws.thy ===== *)
theory Mx_Policy_Laws
  imports Mx_Ladder
begin

text \<open>
  The loop of the default matching policy on a well-linked queue of live orders: it ends within as many
  turns as the queue has orders, and its fills are a first-in-first-out allocation.
\<close>

lemma policy_fifo:
  assumes "dll h prev q ARENA_NULL" "arena_inv ar" "h = heap_of ar" "ARENA_NULL \<notin> set q"
    and "length q \<le> fuel" "\<forall>i \<in> set q. \<exists>ord. h i = Some ord \<and> 0 < remaining ord"
  shows "\<exists>fills. match_order_loop fuel taker rem price (if q = [] then None else Some (hd q)) ar =
      Inr (rem - sum_rem h q, fills) \<and>
    map f_maker_idx fills = take (length fills) q \<and> sum_list (map f_qty fills) = min rem (sum_rem h q) \<and>
    (\<forall>k. Suc k < length fills \<longrightarrow> f_qty (fills ! k) = rem_at h (q ! k)) \<and>
    (\<forall>f \<in> set fills. 0 < f_qty f \<and> f_price f = price \<and> f_taker_id f = taker \<and>
       (\<exists>ord. h (f_maker_idx f) = Some ord \<and> f_maker_id f = o_id ord))"
  using assms(1,4,5,6)
proof (induction q arbitrary: prev fuel rem)
  case Nil
  show ?case by (intro exI [of _ "[]"]) simp
next
  case (Cons i q)
  then obtain fuel' where fuel: "fuel = Suc fuel'" "length q \<le> fuel'" by (cases fuel) auto
  obtain ord where ord: "h i = Some ord" "o_next ord = (if q = [] then ARENA_NULL else hd q)" "dll h i q ARENA_NULL"
    using Cons.prems(1) by (cases q) auto
  have get: "arena_get ar i = Inr ord" by (rule arena_get_occupied [OF assms(2)]) (use ord assms(3) in simp)
  have pos: "0 < remaining ord" using Cons.prems(4) ord(1) by auto
  have rem_i: "rem_at h i = remaining ord" by (simp add: rem_at_def ord(1))
  have cursor: "(if o_next ord \<noteq> ARENA_NULL then Some (o_next ord) else None) = (if q = [] then None else Some (hd q))"
    using ord(2) Cons.prems(2) by (cases q) auto
  show ?case
  proof (cases "rem = 0")
    case True
    then show ?thesis by (intro exI [of _ "[]"]) (simp add: fuel)
  next
    case False
    let ?d = "min rem (remaining ord)"
    obtain fills where f: "match_order_loop fuel' taker (rem - ?d) price (if q = [] then None else Some (hd q)) ar =
        Inr (rem - ?d - sum_rem h q, fills)" "map f_maker_idx fills = take (length fills) q"
      "sum_list (map f_qty fills) = min (rem - ?d) (sum_rem h q)"
      "\<forall>k. Suc k < length fills \<longrightarrow> f_qty (fills ! k) = rem_at h (q ! k)"
      "\<forall>f \<in> set fills. 0 < f_qty f \<and> f_price f = price \<and> f_taker_id f = taker \<and>
         (\<exists>ord. h (f_maker_idx f) = Some ord \<and> f_maker_id f = o_id ord)"
      using Cons.IH [OF ord(3) _ fuel(2), of "rem - ?d"] Cons.prems(2,4) by auto
    let ?f = "\<lparr>f_maker_idx = i, f_maker_id = o_id ord, f_taker_id = taker, f_price = price, f_qty = ?d\<rparr>"
    have "match_order_loop fuel taker rem price (Some i) ar = Inr (rem - ?d - sum_rem h q, ?f # fills)"
      using False get f(1) by (simp add: fuel(1) Let_def cursor)
    moreover have "rem - ?d - sum_rem h q = rem - sum_rem h (i # q)" by (simp add: rem_i)
    moreover have "f_qty ((?f # fills) ! k) = rem_at h ((i # q) ! k)" if k: "Suc k < length (?f # fills)" for k
    proof (cases k)
      case 0
      then have "fills \<noteq> []" using k by auto
      then have "0 < sum_list (map f_qty fills)" using f(5) by (cases fills) auto
      then have "remaining ord < rem" using f(3) by (auto simp: min_def split: if_splits)
      then show ?thesis using 0 rem_i by simp
    next
      case (Suc j)
      then show ?thesis using f(4) k by simp
    qed
    moreover have "sum_list (map f_qty (?f # fills)) = min rem (sum_rem h (i # q))"
      using f(3) by (simp add: rem_i)
    ultimately show ?thesis using f(2,5) ord(1) False pos by (intro exI [of _ "?f # fills"]) auto
  qed
qed

end
