(* ===== verification/Mx_Structure_Props.thy ===== *)
theory Mx_Structure_Props
  imports Mx_Huge_Arena Mx_Recenter_Laws Mx_Depth_Spec Mx_Policy_Laws Mx_Engine_Props
begin

text \<open>
  The properties of the building blocks: the two arenas, the depth indices, the standalone matching
  policy and the recentering of the book.
\<close>

section \<open>The arenas\<close>

definition demo_order :: "order_id \<Rightarrow> order" where
  "demo_order oid = new_order_record oid Bid 100 5 Limit None None"

text \<open>C35: the arena is a store of orders. After any sequence of operations that it carried out, reading
  a slot gives its order or panics, according to whether it is occupied; freeing an unoccupied slot panics;
  allocating answers \<open>None\<close> just when as many orders are stored as the capacity, and otherwise stores the
  order in a slot that was not in use; and \<open>len\<close> counts the occupied slots.\<close>

theorem arena_is_a_store:
  assumes "run_store arena_op xs (arena_new capacity) = Inr (obs, ar)" "capacity \<le> u32_max"
  shows "(\<forall>i. arena_get ar i = (if i < capacity then expect UseAfterFree (heap_of ar i) else Inl IndexOutOfBounds)) \<and>
    (\<forall>i. heap_of ar i = None \<longrightarrow> arena_free i ar = Inl (if i < capacity then DoubleFree else IndexOutOfBounds)) \<and>
    (\<forall>ord. yields (arena_alloc ord ar) (\<lambda>(r, ar'). case r of
        None \<Rightarrow> ar' = ar \<and> a_len ar = capacity
      | Some i \<Rightarrow> a_len ar < capacity \<and> i < capacity \<and> heap_of ar i = None \<and> heap_of ar' = (heap_of ar)(i \<mapsto> ord))) \<and>
    a_len ar = card (dom (heap_of ar))"
proof -
  have "arena_inv ar \<and> a_capacity ar = capacity" 
    by (rule arena_run_inv [OF assms(1) arena_inv_new [OF assms(2)]]) (simp add: arena_new_def)
  then have inv: "arena_inv ar" and cap: "a_capacity ar = capacity" by simp_all
  have "arena_free i ar = Inl (if i < capacity then DoubleFree else IndexOutOfBounds)" if "heap_of ar i = None" for i
  proof (cases "i < capacity")
    case True
    then show ?thesis using arena_slot [OF inv, of i] that cap
      unfolding arena_free_def assert_occupied by simp
  next
    case False
    then show ?thesis using inv cap by (simp add: arena_free_def vget_def arena_inv_def arena_shape_def)
  qed
  moreover have "yields (arena_alloc ord ar) (\<lambda>(r, ar'). case r of
        None \<Rightarrow> ar' = ar \<and> a_len ar = capacity
      | Some i \<Rightarrow> a_len ar < capacity \<and> i < capacity \<and> heap_of ar i = None \<and> heap_of ar' = (heap_of ar)(i \<mapsto> ord))" for ord
  proof (rule yields_mono [OF arena_alloc_spec [OF inv]], clarify)
    fix r ar' assume post: "alloc_post ar ord (r, ar')"
    have "a_len ar' \<le> a_capacity ar'" if "arena_inv ar'"
      using that free_listD(4) by (metis arena_invE le_add1)
    then show "case r of None \<Rightarrow> ar' = ar \<and> a_len ar = capacity
      | Some i \<Rightarrow> a_len ar < capacity \<and> i < capacity \<and> heap_of ar i = None \<and> heap_of ar' = (heap_of ar)(i \<mapsto> ord)"
      using post cap by (auto simp: alloc_post_def split: option.splits)
  qed
  ultimately show ?thesis using arena_get_eq [OF inv] cap arena_len_card(1) [OF inv] by simp
qed


definition demo_ops :: "store_op list" where
  "demo_ops = [Alloc (demo_order 1), Alloc (demo_order 2), Free 0, Alloc (demo_order 3), Get 0, Alloc (demo_order 4), Alloc (demo_order 5)]"

definition demo_obs :: "observation list" where
  "demo_obs = [Slot (Some 0), Slot (Some 1), Unit, Slot (Some 0), Content (demo_order 3), Slot (Some 2), Slot None]"

lemma demo_ops_run: "\<exists>ar. run_store arena_op demo_ops (arena_new 3) = Inr (demo_obs, ar)"
proof -
  have "returns (run_store arena_op demo_ops (arena_new 3)) (\<lambda>(obs, ar). obs = demo_obs)" by code_simp
  then show ?thesis unfolding returns_tuple by auto
qed

theorem arena_is_a_store_witness:
  "\<exists>ar. run_store arena_op demo_ops (arena_new 3) = Inr (demo_obs, ar) \<and> arena_get ar 7 = Inl IndexOutOfBounds \<and>
     a_len ar = card (dom (heap_of ar))"
proof -
  obtain ar where ar: "run_store arena_op demo_ops (arena_new 3) = Inr (demo_obs, ar)" using demo_ops_run by blast
  have "3 \<le> u32_max" by (simp add: u32_max_def)
  from arena_is_a_store [OF ar this] show ?thesis using ar by simp
qed

text \<open>C36: the huge-page arena refines the arena. Whatever program of operations the arena carries out
  without a panic, the huge-page arena, whose mapping succeeded, carries out too, with the same answers:
  the same slots, the same contents, no undefined behaviour.\<close>

theorem huge_arena_refines_arena:
  assumes "huge_new mmap capacity = Inr h" "capacity \<le> u32_max"
    "run_store arena_op xs (arena_new capacity) = Inr (obs, ar)"
  shows "\<exists>h'. run_store huge_op xs h = Inr (obs, h') \<and> h_len h' = a_len ar \<and>
    (\<forall>i ord. arena_get ar i = Inr ord \<longrightarrow> huge_get h' i = Inr ord)"
proof -
  obtain h' where h': "run_store huge_op xs h = Inr (obs, h')" "huge_rel h' ar"
    using run_store_rel [OF huge_new_rel [OF assms(1,2)] assms(3)] by blast
  have "h_len h' = a_len ar" using h'(2) by (simp add: huge_rel_def)
  moreover have "huge_get h' i = Inr ord" if "arena_get ar i = Inr ord" for i ord
    by (rule huge_get_rel [OF h'(2) that])
  ultimately show ?thesis using h'(1) by blast
qed

theorem huge_arena_refines_arena_witness:
  "\<exists>h h'. huge_new (\<lambda>_ huge. \<not> huge) 3 = Inr h \<and> run_store huge_op demo_ops h = Inr (demo_obs, h')"
proof -
  obtain ar where ar: "run_store arena_op demo_ops (arena_new 3) = Inr (demo_obs, ar)" using demo_ops_run by blast
  have cap: "3 \<le> u32_max" by (simp add: u32_max_def)
  obtain h where h: "huge_new (\<lambda>_ huge. \<not> huge) 3 = Inr h" by (simp add: huge_new_def huge_mmap_len_eq [OF cap])
  from huge_arena_refines_arena [OF h cap ar] show ?thesis using h by blast
qed

text \<open>The mapping is big enough. Its length is a whole number of 2 MB pages, holds every slot, and
  is less than a page longer than needed. When the system refuses an empty mapping, as \<open>mmap\<close> is documented
  to do, an arena of no capacity, which the plain arena allows, cannot be built: the assertion fails.\<close>

lemma huge_mapping_fits:
  assumes "capacity \<le> u32_max"
  shows "(\<forall>h. huge_new mmap capacity = Inr h \<longrightarrow>
      PAGE_2MB dvd h_mmap_len h \<and> capacity * ORDER_SIZE \<le> h_mmap_len h \<and> h_mmap_len h < capacity * ORDER_SIZE + PAGE_2MB) \<and>
    (capacity = 0 \<and> \<not> mmap 0 True \<and> \<not> mmap 0 False \<longrightarrow> huge_new mmap capacity = Inl MmapFailed)"
proof -
  define n where "n = (capacity * ORDER_SIZE + (PAGE_2MB - 1)) div PAGE_2MB * PAGE_2MB"
  have page: "0 < PAGE_2MB" by (simp add: PAGE_2MB_def)
  have fits: "capacity * ORDER_SIZE \<le> n" "n < capacity * ORDER_SIZE + PAGE_2MB" "PAGE_2MB dvd n"
    unfolding n_def by (rule round_up [OF page])+
  have "n = 0" if "capacity = 0" using that by (simp add: n_def PAGE_2MB_def)
  moreover have len: "huge_mmap_len capacity = Inr n" unfolding n_def by (rule huge_mmap_len_eq [OF assms])
  ultimately show ?thesis using fits unfolding huge_new_def len by auto
qed

lemma huge_mapping_instances:
  "\<exists>h. huge_new (\<lambda>n _. 0 < n) 40000 = Inr h \<and> PAGE_2MB dvd h_mmap_len h \<and> 40000 * ORDER_SIZE \<le> h_mmap_len h \<and>
     huge_new (\<lambda>n _. 0 < n) 0 = Inl MmapFailed"
proof -
  have cap: "40000 \<le> u32_max" "0 \<le> u32_max" by (simp_all add: u32_max_def)
  obtain h where h: "huge_new (\<lambda>n _. 0 < n) 40000 = Inr h"
    by (simp add: huge_new_def huge_mmap_len_eq [OF cap(1)] ORDER_SIZE_def PAGE_2MB_def)
  from huge_mapping_fits [OF cap(1), of "\<lambda>n _. 0 < n"] huge_mapping_fits [OF cap(2), of "\<lambda>n _. 0 < n"]
  show ?thesis using h by blast
qed

text \<open>C40: a stale index is caught by the arena and not by the huge-page arena. After a slot is freed,
  the debug generation makes the arena panic on reading it; the huge-page arena, documented as having an
  identical interface, returns the order that was there.\<close>

theorem huge_stale_read:
  "run_store arena_op [Alloc (demo_order 1), Free 0, Get 0] (arena_new 2) = Inl UseAfterFree \<and>
   (\<exists>h h'. huge_new (\<lambda>_ _. True) 2 = Inr h \<and>
      run_store huge_op [Alloc (demo_order 1), Free 0, Get 0] h = Inr ([Slot (Some 0), Unit, Content (demo_order 1)], h'))"
proof
  have "case run_store arena_op [Alloc (demo_order 1), Free 0, Get 0] (arena_new 2) of
      Inl p \<Rightarrow> p = UseAfterFree | Inr _ \<Rightarrow> False" by code_simp
  then show "run_store arena_op [Alloc (demo_order 1), Free 0, Get 0] (arena_new 2) = Inl UseAfterFree"
    by (simp split: sum.splits)
  have "returns (huge_new (\<lambda>_ _. True) 2) (\<lambda>h. returns (run_store huge_op [Alloc (demo_order 1), Free 0, Get 0] h)
      (\<lambda>(obs, h'). obs = [Slot (Some 0), Unit, Content (demo_order 1)]))" by code_simp
  then show "\<exists>h h'. huge_new (\<lambda>_ _. True) 2 = Inr h \<and>
      run_store huge_op [Alloc (demo_order 1), Free 0, Get 0] h = Inr ([Slot (Some 0), Unit, Content (demo_order 1)], h')"
    unfolding returns_tuple unfolding returns_iff by blast
qed

section \<open>The depth indices\<close>

text \<open>C37: the Fenwick tree is an array with fast sums. Whatever updates an array of quantities
  allows (each in range, nothing taken that is not there), the tree carries them out, or an addition
  overflows \<open>u64\<close>; then the sum up to a tick and the sum from a tick are those of the array, and
  overflow exactly when the sum they add up does not fit.\<close>

theorem fenwick_refines_array:
  assumes "ops_run array_op ops (replicate n 0) = Some A"
  shows "yields (rbind (fenwick_new n) (rfold tree_op ops)) (\<lambda>t. \<forall>i < n.
     prefix_sum_le i t = (if sum_list (take (Suc i) A) \<le> u64_max then Inr (sum_list (take (Suc i) A)) else Inl AddOverflow) \<and>
     suffix_sum_ge i t = (if sum_list A \<le> u64_max then Inr (sum_list (drop i A)) else Inl AddOverflow))"
proof (rule yields_bind [OF fw.new_rel])
  fix t assume t: "fenwick_rel t (replicate n 0)"
  have len: "length A = n" using ops_run_length [OF assms] by simp
  show "yields (rfold tree_op ops t) (\<lambda>t. \<forall>i < n.
     prefix_sum_le i t = (if sum_list (take (Suc i) A) \<le> u64_max then Inr (sum_list (take (Suc i) A)) else Inl AddOverflow) \<and>
     suffix_sum_ge i t = (if sum_list A \<le> u64_max then Inr (sum_list (drop i A)) else Inl AddOverflow))"
    by (rule yields_mono [OF tree.run [OF t assms]])
      (simp_all add: prefix_sum_le_def fw.sum_eq suffix_sum_ge_eq len)
qed

definition demo_updates :: "depth_op list" where
  "demo_updates = [Plus 2 5, Plus 0 3, Plus 4 7, Minus 2 4, Plus 1 1]"

theorem fenwick_refines_array_witness:
  "\<exists>t. rbind (fenwick_new 5) (rfold tree_op demo_updates) = Inr t \<and> prefix_sum_le 2 t = Inr 5 \<and> suffix_sum_ge 2 t = Inr 8"
proof -
  have "returns (rbind (fenwick_new 5) (rfold tree_op demo_updates)) (\<lambda>t. True)" by code_simp
  then obtain t where t: "rbind (fenwick_new 5) (rfold tree_op demo_updates) = Inr t" unfolding returns_iff by blast
  have "ops_run array_op demo_updates (replicate 5 0) = Some [3, 1, 1, 0, 7]" by code_simp
  note sums = fenwick_refines_array [OF this, unfolded t yields_simps, THEN spec, of 2]
  have "take (Suc 2) [3, 1, 1, 0, 7 :: nat] = [3, 1, 1]" "drop 2 [3, 1, 1, 0, 7 :: nat] = [1, 0, 7]"
    by (simp_all add: numeral_2_eq_2)
  then show ?thesis using sums t by (simp add: u64_max_def)
qed

text \<open>C38: the sparse index is a map from prices to quantities. Adding keeps one entry per price,
  taking a price's whole quantity forgets the price, and whatever updates the map allows the index
  carries out, or a machine resource runs out; then its two sums are those over the map's prices at or
  below, and at or above, the given price. Taking from a price without an entry is refused.\<close>

theorem sparse_index_refines_map:
  assumes "ops_run map_op ops Map.empty = Some m"
  shows "yields (rbind sparse_index_new (rfold index_op ops)) (\<lambda>s. 
     (\<forall>price. let below = (\<Sum>p \<in> {p \<in> dom m. p \<le> price}. the (m p)) in
        sum_at_or_below price s = (if below \<le> u64_max then Inr below else Inl AddOverflow)) \<and>
     (\<forall>price. yields (sum_at_or_above price s) (\<lambda>v. v = (\<Sum>p \<in> {p \<in> dom m. price \<le> p}. the (m p)))) \<and>
     (\<forall>price. m price = None \<longrightarrow> sparse_index_sub price 1 s = Inl MissingSparsePrice))"
proof (rule yields_bind [OF sparse_index_new_spec], elim conjE)
  fix s assume s: "sparse_inv s" "sparse_map s = Map.empty"
  have run: "yields (rfold index_op ops s) (\<lambda>s'. index_rel s' m)"
    by (rule index.run [OF _ assms]) (use s in \<open>simp add: index_rel_def\<close>)
  have sums: "sparse_sum P s' = (\<Sum>p \<in> {p \<in> dom m. P p}. the (m p))" if "index_rel s' m" for P s'
    using sparse_sum_dom [of s' P] that by (simp add: index_rel_def)
  show "yields (rfold index_op ops s) (\<lambda>s. 
     (\<forall>price. let below = (\<Sum>p \<in> {p \<in> dom m. p \<le> price}. the (m p)) in
        sum_at_or_below price s = (if below \<le> u64_max then Inr below else Inl AddOverflow)) \<and>
     (\<forall>price. yields (sum_at_or_above price s) (\<lambda>v. v = (\<Sum>p \<in> {p \<in> dom m. price \<le> p}. the (m p)))) \<and>
     (\<forall>price. m price = None \<longrightarrow> sparse_index_sub price 1 s = Inl MissingSparsePrice))"
  proof (rule yields_mono [OF run], intro conjI allI impI)
    fix s' price assume s': "index_rel s' m"
    show "let below = (\<Sum>p \<in> {p \<in> dom m. p \<le> price}. the (m p)) in
        sum_at_or_below price s' = (if below \<le> u64_max then Inr below else Inl AddOverflow)"
      unfolding Let_def sums [OF s', symmetric] by (rule sum_at_or_below_eq) (use s' in \<open>simp add: index_rel_def\<close>)
    show "yields (sum_at_or_above price s') (\<lambda>v. v = (\<Sum>p \<in> {p \<in> dom m. price \<le> p}. the (m p)))"
      unfolding sums [OF s', symmetric] using sum_at_or_above_cases [of s' price] s' by (auto simp: index_rel_def)
    show "sparse_index_sub price 1 s' = Inl MissingSparsePrice" if "m price = None"
      by (rule sparse_index_sub_missing) (use s' that in \<open>simp_all add: index_rel_def\<close>)
  qed
qed

theorem sparse_index_refines_map_witness:
  "\<exists>s. rbind sparse_index_new (rfold index_op [Plus 900 5, Plus 20 3, Plus 900 2, Minus 20 3]) = Inr s \<and>
     sparse_index_sub 20 1 s = Inl MissingSparsePrice \<and> yields (sum_at_or_above 21 s) (\<lambda>v. v = 7)"
proof -
  let ?ops = "[Plus 900 5, Plus 20 3, Plus 900 2, Minus 20 3]"
  have "returns (rbind sparse_index_new (rfold index_op ?ops)) (\<lambda>s. True)" by code_simp
  then obtain s where s: "rbind sparse_index_new (rfold index_op ?ops) = Inr s" unfolding returns_iff by blast
  have m: "ops_run map_op ?ops Map.empty = Some [900 \<mapsto> 7]" by (simp add: plus_opt_def fun_eq_iff)
  note sums = sparse_index_refines_map [OF m, unfolded s yields_simps]
  have dom: "{p \<in> dom [900 :: nat \<mapsto> 7 :: nat]. 21 \<le> p} = {900 :: nat}" by auto
  have "yields (sum_at_or_above 21 s) (\<lambda>v. v = (\<Sum>p \<in> {p \<in> dom [900 :: nat \<mapsto> 7 :: nat]. 21 \<le> p}. the ([900 \<mapsto> 7] p)))"
    using sums by blast
  then have "yields (sum_at_or_above 21 s) (\<lambda>v. v = 7)" unfolding dom by simp
  moreover have "sparse_index_sub 20 1 s = Inl MissingSparsePrice" using sums by simp
  ultimately show ?thesis using s by blast
qed

section \<open>The matching policy\<close>

text \<open>C39: the default policy's loop ends and is fair. On the queue of any level of a reachable book it
  stops after at most as many turns as the queue has orders (the fuel only has to be that much); it
  fills as much as the taker asks and the queue offers, taking the orders strictly from the head, each
  but the last one in full, at the level's price, with no empty fill.\<close>

theorem policy_allocates_fifo:
  assumes "run_engine cfg capacity cs = Inr (evs, e)" "capacity \<le> u32_max"
    "\<forall>c \<in> set cs. session_command False cfg c"
    and "level_mut s p (book e) = Inr (level, b)" "length (queue_at s p (book e) (eng_arena e)) \<le> fuel"
  shows "let q = queue_at s p (book e) (eng_arena e); offered = total_quantity level in
    \<exists>fills. match_order_loop fuel taker rem p (head level) (eng_arena e) = Inr (rem - offered, fills) \<and>
      map f_maker_idx fills = take (length fills) q \<and> sum_list (map f_qty fills) = min rem offered \<and>
      (\<forall>k. Suc k < length fills \<longrightarrow> f_qty (fills ! k) = rem_at (heap_of (eng_arena e)) (q ! k)) \<and>
      (\<forall>f \<in> set fills. 0 < f_qty f \<and> f_price f = p \<and> f_taker_id f = taker \<and>
         (\<exists>ord. heap_of (eng_arena e) (f_maker_idx f) = Some ord \<and> f_maker_id f = o_id ord))"
proof -
  obtain Q where ok: "book_ok e Q" using session_book_ok [OF assms(1-3)] by blast
  note rel = book_okD(1) [OF ok] and queue = ok_queue_at [OF ok]
  let ?l = "vlevel (dense_base_price (book e)) (dense_max_ticks (book e)) (view s (book e)) p"
  have level: "level = ?l"
    using level_mut_spec [OF side_relD(1) [OF book_relD(2) [OF rel]], of s p] assms(4) by auto
  have q: "dll (heap_of (eng_arena e)) ARENA_NULL (Q s p) ARENA_NULL" "ends_ok ?l (Q s p)"
    "total_quantity ?l = sum_rem (heap_of (eng_arena e)) (Q s p)"
    using side_relD(3) [OF book_relD(2) [OF rel, of s], of p] by (simp_all add: queue_ok_def)
  have live: "\<forall>i \<in> set (Q s p). \<exists>ord. heap_of (eng_arena e) i = Some ord \<and> 0 < remaining ord"
    using book_rel_slot [OF rel] book_okD(2) [OF ok] by blast
  have "ARENA_NULL \<notin> set (Q s p)" using queue_slots(2) [OF rel] by blast
  note fifo = policy_fifo [OF q(1) book_relD(1) [OF rel] refl this _ live, of fuel taker rem p]
  have "length (Q s p) \<le> fuel" using assms(5) unfolding queue .
  moreover have "head ?l = (if Q s p = [] then None else Some (hd (Q s p)))" using q(2) by (simp add: ends_ok_def)
  ultimately show ?thesis unfolding Let_def queue level q(3) using fifo by simp
qed

theorem policy_allocates_fifo_witness:
  "\<exists>evs e level b fills. demo_run CancelOldest demo_asks = Inr (evs, e) \<and> level_mut Ask 103 (book e) = Inr (level, b) \<and>
     match_order_loop 3 9 1000 103 (head level) (eng_arena e) = Inr (1000 - total_quantity level, fills) \<and>
     sum_list (map f_qty fills) = min 1000 (total_quantity level)"
proof -
  have "returns (demo_run CancelOldest demo_asks) (\<lambda>(evs, e). length (queue_at Ask 103 (book e) (eng_arena e)) \<le> 3 \<and>
      returns (level_mut Ask 103 (book e)) (\<lambda>(level, b). True))" by code_simp
  then obtain evs e level b where d: "demo_run CancelOldest demo_asks = Inr (evs, e)"
    "length (queue_at Ask 103 (book e) (eng_arena e)) \<le> 3" "level_mut Ask 103 (book e) = Inr (level, b)"
    unfolding returns_tuple by auto
  from policy_allocates_fifo [OF d(1) demo_capacity demo_asks_fit d(3,2), of 9 1000]
  show ?thesis using d(1,3) unfolding Let_def by blast
qed

section \<open>Recentering\<close>

text \<open>C12: recentering keeps the book. Moving the dense window of any reachable book to a new base, or
  stopping for want of a machine resource, leaves the id index, the best prices, the quantity of every
  level and the queue of orders at every price as they were. If the best prices are the best of all
  resting orders, the book is consistent again: the whole invariant holds around the new window, with
  depth indices that hold just the level quantities. (A best price that was best only inside the old
  window is not looked for again.)\<close>

theorem recentering_keeps_the_book:
  assumes "run_engine cfg capacity cs = Inr (evs, e)" "capacity \<le> u32_max"
    "\<forall>c \<in> set cs. session_command False cfg c"
  shows "yields (force_recenter new_base (book e)) (\<lambda>b.
    dense_base_price b = new_base \<and> best_bid b = best_bid (book e) \<and> best_ask b = best_ask (book e) \<and>
    (\<forall>oid. lookup oid b = lookup oid (book e)) \<and>
    (\<forall>s p. get_level_qty s p b = get_level_qty s p (book e) \<and>
       queue_at s p b (eng_arena e) = queue_at s p (book e) (eng_arena e)) \<and>
    ((\<forall>i ord. heap_of (eng_arena e) i = Some ord \<longrightarrow> (case o_side ord of
        Bid \<Rightarrow> (\<exists>p. best_bid (book e) = Some p \<and> o_price ord \<le> p)
      | Ask \<Rightarrow> (\<exists>p. best_ask (book e) = Some p \<and> p \<le> o_price ord))) \<longrightarrow>
     (\<exists>Q. book_ok (e\<lparr>book := b\<rparr>) Q)))"
proof -
  obtain Q where ok: "book_ok e Q" using session_book_ok [OF assms] by blast
  note rel = book_okD(1) [OF ok]
  let ?best = "\<forall>i ord. heap_of (eng_arena e) i = Some ord \<longrightarrow> (case o_side ord of
        Bid \<Rightarrow> (\<exists>p. best_bid (book e) = Some p \<and> o_price ord \<le> p)
      | Ask \<Rightarrow> (\<exists>p. best_ask (book e) = Some p \<and> p \<le> o_price ord))"
  show ?thesis
  proof (cases "new_base = dense_base_price (book e)")
    case True
    then show ?thesis using ok by (auto simp: force_recenter_def)
  next
    case False
    show ?thesis
    proof (rule yields_mono [OF book_force_recenter [OF rel False]])
      fix b assume re: "recentered new_base (book e) b"
      have views: "v_best (view s b) = v_best (view s (book e))" "vshape new_base (dense_max_ticks (book e)) (view s b)"
        "vlevel new_base (dense_max_ticks (book e)) (view s b) p =
           vlevel (dense_base_price (book e)) (dense_max_ticks (book e)) (view s (book e)) p" for s p
        using re unfolding recentered_def by blast+
      have ids: "order_index b = order_index (book e)" "dense_max_ticks b = dense_max_ticks (book e)" "dense_base_price b = new_base"
        using re by (simp_all add: recentered_def same_ids_def)
      have best: "best_bid b = best_bid (book e)" "best_ask b = best_ask (book e)"
        using views(1) [of Bid] views(1) [of Ask] by (simp_all add: best_bid_def best_ask_def)
      have qty: "get_level_qty s p b = get_level_qty s p (book e)" for s p
        using get_level_qty_spec [of b s p] get_level_qty_spec [OF side_relD(1) [OF book_relD(2) [OF rel]], of s p] views ids
        by simp
      have queue: "queue_at s p b (eng_arena e) = queue_at s p (book e) (eng_arena e)" for s p
        by (simp add: queue_at_def views(3) ids del: view.simps)
      have "book_rel b (eng_arena e) Q" if ?best
        by (rule recentered_rel [OF rel re])
          (use ok that in \<open>force simp: book_ok_def best_bid_def best_ask_def better_def split: side.splits\<close>)+
      then have "\<exists>Q. book_ok (e\<lparr>book := b\<rparr>) Q" if ?best using that ok by (auto simp: book_ok_def)
      then show "dense_base_price b = new_base \<and> best_bid b = best_bid (book e) \<and> best_ask b = best_ask (book e) \<and>
        (\<forall>oid. lookup oid b = lookup oid (book e)) \<and>
        (\<forall>s p. get_level_qty s p b = get_level_qty s p (book e) \<and>
           queue_at s p b (eng_arena e) = queue_at s p (book e) (eng_arena e)) \<and>
        (?best \<longrightarrow> (\<exists>Q. book_ok (e\<lparr>book := b\<rparr>) Q))"
        using ids best qty queue by (simp add: lookup_def)
    qed
  qed
qed

theorem recentering_keeps_the_book_witness:
  "\<exists>evs e b Q. demo_run CancelOldest demo_session = Inr (evs, e) \<and> force_recenter 103 (book e) = Inr b \<and>
     is_in_sparse Bid 102 b \<and> book_ok (e\<lparr>book := b\<rparr>) Q \<and> best_bid b = best_bid (book e)"
proof -
  have "returns (demo_run CancelOldest demo_session) (\<lambda>(evs, e). returns (force_recenter 103 (book e)) (\<lambda>b.
     is_in_sparse Bid 102 b \<and> best_bid (book e) = Some 102 \<and> best_ask (book e) = Some 103 \<and>
     a_capacity (eng_arena e) = 4 \<and> list_all (\<lambda>i. case heap_of (eng_arena e) i of None \<Rightarrow> True | Some ord \<Rightarrow> (case o_side ord of
       Bid \<Rightarrow> o_price ord \<le> 102 | Ask \<Rightarrow> 103 \<le> o_price ord)) [0..<4]))" by code_simp
  then obtain evs e b where d: "demo_run CancelOldest demo_session = Inr (evs, e)" "force_recenter 103 (book e) = Inr b"
    "is_in_sparse Bid 102 b" "best_bid (book e) = Some 102" "best_ask (book e) = Some 103"
    "a_capacity (eng_arena e) = 4" "\<forall>i < 4. case heap_of (eng_arena e) i of None \<Rightarrow> True | Some ord \<Rightarrow> (case o_side ord of
       Bid \<Rightarrow> o_price ord \<le> 102 | Ask \<Rightarrow> 103 \<le> o_price ord)"
    unfolding returns_tuple unfolding returns_iff by (auto simp: list_all_iff)
  note keep = recentering_keeps_the_book [OF d(1) demo_capacity demo_session_fits, of 103, unfolded d(2) yields_simps]
  obtain Q where Q: "book_ok e Q" using session_book_ok [OF d(1) demo_capacity demo_session_fits] by blast
  have "case o_side ord of Bid \<Rightarrow> (\<exists>p. best_bid (book e) = Some p \<and> o_price ord \<le> p)
      | Ask \<Rightarrow> (\<exists>p. best_ask (book e) = Some p \<and> p \<le> o_price ord)" if "heap_of (eng_arena e) i = Some ord" for i ord
  proof -
    have "i < 4" using heap_of_Some_less [OF book_relD(1) [OF book_okD(1) [OF Q]] that] d(6) by simp
    then show ?thesis using d(4,5,7) that by (auto split: side.splits)
  qed
  then show ?thesis using keep d(1-3) by blast
qed


end
