(* ===== verification/Mx_Pipeline.thy ===== *)
theory Mx_Pipeline
  imports Mx_Reach Mx_Async_Journal
begin

text \<open>
  \<open>pipeline.rs\<close>: the end-to-end pipeline owns one engine and one asynchronous journal. A call
  numbers the command, runs the engine, appends the command to the journal, and returns the events or
  the journal's error. The pipeline is the journal's only client (client 0); the worker thread runs
  beside it, so the steps of one append interleave with the worker's. \<open>pending\<close> is the call in
  progress and \<open>returned\<close> lists what the finished calls returned.
\<close>

record pipeline =
  pl_engine :: engine
  pl_journal :: async_journal
  input_seq :: nat
  pending :: "command option"
  returned :: "(command \<times> (journal_error + match_event list)) list"
  dropped :: bool

text \<open>The engine is built first, and its panics are not the journal's errors.\<close>

definition pipeline_new ::
  "disk \<Rightarrow> instrument_config \<Rightarrow> nat \<Rightarrow> directory \<Rightarrow> path \<Rightarrow> (journal_error + pipeline) result" where
  "pipeline_new d cfg arena_capacity fs path_prefix =
     rbind (engine_new cfg arena_capacity) (\<lambda>e.
       Inr (case async_open d fs path_prefix of
              Inl err \<Rightarrow> Inl err
            | Inr j \<Rightarrow> Inr \<lparr>pl_engine = e, pl_journal = j, input_seq = 0, pending = None, returned = [],
                           dropped = False\<rparr>))"

text \<open>The first part of a call: number the command, run the engine, enter \<open>append\<close>.\<close>

definition pipeline_call :: "command \<Rightarrow> pipeline \<Rightarrow> pipeline result" where
  "pipeline_call cmd p =
     rbind (add_u64 (input_seq p) 1) (\<lambda>sq.
     rbind (process cmd (pl_engine p)) (\<lambda>e.
       Inr (p\<lparr>input_seq := sq, pl_engine := e, pl_journal := begin_append 0 sq cmd (pl_journal p),
              pending := Some cmd\<rparr>)))"

text \<open>The last part: the journal's answer becomes the call's.\<close>

definition pipeline_return :: "command \<Rightarrow> journal_error option \<Rightarrow> pipeline \<Rightarrow> pipeline" where
  "pipeline_return cmd answer p =
     p\<lparr>pending := None,
       returned := returned p @ [(cmd, case answer of None \<Rightarrow> Inr (events (pl_engine p)) | Some err \<Rightarrow> Inl err)]\<rparr>"

definition accepted_sequence :: "pipeline \<Rightarrow> nat" where
  "accepted_sequence p = accepted (pl_journal p)"

definition durable_sequence :: "pipeline \<Rightarrow> nat" where
  "durable_sequence p = durable (pl_journal p)"

text \<open>
  The steps: a call begins, its append goes on, it returns; the worker takes a step; the pipeline is
  dropped, which closes the journal.
\<close>

inductive pipe_step :: "crc_fun \<Rightarrow> disk \<Rightarrow> async_config \<Rightarrow> pipeline \<Rightarrow> pipeline \<Rightarrow> bool" for crc d jcfg where
  pipe_call: "pending p = None \<Longrightarrow> \<not> dropped p \<Longrightarrow> command_ok cmd \<Longrightarrow> pipeline_call cmd p = Inr p' \<Longrightarrow>
     pipe_step crc d jcfg p p'"
| pipe_check: "clients (pl_journal p) 0 = CheckClosed sq cmd \<Longrightarrow>
     pipe_step crc d jcfg p (p\<lparr>pl_journal := check_closed 0 sq cmd (pl_journal p)\<rparr>)"
| pipe_send: "clients (pl_journal p) 0 = Sending sq cmd \<Longrightarrow>
     pipe_step crc d jcfg p (p\<lparr>pl_journal := try_send crc jcfg 0 sq cmd (pl_journal p)\<rparr>)"
| pipe_publish: "clients (pl_journal p) 0 = Publishing sq \<Longrightarrow>
     pipe_step crc d jcfg p (p\<lparr>pl_journal := publish 0 sq (pl_journal p)\<rparr>)"
| pipe_return: "pending p = Some cmd \<Longrightarrow> clients (pl_journal p) 0 = Done answer \<Longrightarrow>
     pipe_step crc d jcfg p (pipeline_return cmd answer p)"
| pipe_worker: "worker_step d jcfg (pl_journal p) = Some j \<Longrightarrow> pipe_step crc d jcfg p (p\<lparr>pl_journal := j\<rparr>)"
| pipe_drop: "pending p = None \<Longrightarrow> \<not> dropped p \<Longrightarrow>
     pipe_step crc d jcfg p (p\<lparr>dropped := True, pl_journal := begin_close 0 (pl_journal p)\<rparr>)"
| pipe_shutdown: "clients (pl_journal p) 0 = SendShutdown \<Longrightarrow> send_shutdown jcfg 0 (pl_journal p) = Some j \<Longrightarrow>
     pipe_step crc d jcfg p (p\<lparr>pl_journal := j\<rparr>)"
| pipe_join: "clients (pl_journal p) 0 = Joining \<Longrightarrow> worker (pl_journal p) = Exited \<Longrightarrow>
     pipe_step crc d jcfg p (p\<lparr>pl_journal := set_client 0 (Done None) (pl_journal p)\<rparr>)"

inductive pipe_reachable :: "crc_fun \<Rightarrow> disk \<Rightarrow> async_config \<Rightarrow> pipeline \<Rightarrow> pipeline \<Rightarrow> bool" for crc d jcfg p0 where
  pipe_start: "pipe_reachable crc d jcfg p0 p0"
| pipe_more: "pipe_reachable crc d jcfg p0 p \<Longrightarrow> pipe_step crc d jcfg p p' \<Longrightarrow> pipe_reachable crc d jcfg p0 p'"

subsection \<open>The invariant\<close>

definition calls :: "pipeline \<Rightarrow> command list" where
  "calls p = map fst (returned p) @ (case pending p of None \<Rightarrow> [] | Some c \<Rightarrow> [c])"

definition numbered :: "command list \<Rightarrow> journal_entry list" where
  "numbered cs = map (\<lambda>(i, c). \<lparr>je_sequence = i, je_command = c\<rparr>) (enumerate 1 cs)"

lemma numbered_snoc: "numbered (cs @ [c]) = numbered cs @ [\<lparr>je_sequence = Suc (length cs), je_command = c\<rparr>]"
  by (simp add: numbered_def enumerate_append_eq)

lemma length_numbered [simp]: "length (numbered cs) = length cs"
  by (simp add: numbered_def)

lemma commands_numbered [simp]: "map je_command (numbered cs) = cs"
proof (induction cs rule: rev_induct)
  case Nil
  then show ?case by (simp add: numbered_def)
qed (simp add: numbered_snoc)

text \<open>The calls whose entry has been sent: the finished ones, and the pending one once it is past the send.\<close>

definition logged_calls :: "pipeline \<Rightarrow> command list" where
  "logged_calls p = map fst (returned p) @
     (case pending p of None \<Rightarrow> []
      | Some c \<Rightarrow> (case clients (pl_journal p) 0 of Publishing _ \<Rightarrow> [c] | Done None \<Rightarrow> [c] | _ \<Rightarrow> []))"

definition answers_ok :: "pipeline \<Rightarrow> bool" where
  "answers_ok p \<longleftrightarrow> (\<forall>(c, r) \<in> set (returned p). \<exists>evs. r = Inr evs)"

fun client_in_call :: "nat \<Rightarrow> command option \<Rightarrow> client \<Rightarrow> bool" where
  "client_in_call n None ph \<longleftrightarrow> (\<forall>sq c. ph \<noteq> CheckClosed sq c \<and> ph \<noteq> Sending sq c \<and> ph \<noteq> Publishing sq)"
| "client_in_call n (Some c) ph \<longleftrightarrow> ph = CheckClosed n c \<or> ph = Sending n c \<or> ph = Publishing n \<or> (\<exists>r. ph = Done r)"

definition pipe_inv :: "engine \<Rightarrow> pipeline \<Rightarrow> bool" where
  "pipe_inv e0 p \<longleftrightarrow>
     input_seq p = length (calls p) \<and>
     client_in_call (input_seq p) (pending p) (clients (pl_journal p) 0) \<and>
     (\<exists>evs. process_all (calls p) e0 = Inr (evs, pl_engine p) \<and>
        (\<forall>i < length (returned p). \<forall>out. snd (returned p ! i) = Inr out \<longrightarrow> out = evs ! i) \<and>
        (pending p \<noteq> None \<longrightarrow> last evs = events (pl_engine p))) \<and>
     (dropped p \<longrightarrow> pending p = None) \<and>
     (answers_ok p \<longrightarrow> sent (pl_journal p) = numbered (logged_calls p))"

lemma process_all_append:
  "process_all (cs @ ds) e =
     rbind (process_all cs e) (\<lambda>(evs, e1). rbind (process_all ds e1) (\<lambda>(evs', e2). Inr (evs @ evs', e2)))"
proof (induction cs arbitrary: e)
  case (Cons c cs)
  then show ?case by (cases "process c e") (auto simp: rbind_def split: sum.splits)
qed (auto simp: rbind_def split: sum.splits)

lemma process_all_length: "process_all cs e = Inr (evs, e') \<Longrightarrow> length evs = length cs"
  by (induction cs arbitrary: e evs) (auto simp: rbind_eq_Inr)


lemma worker_step_frame: "worker_step d cfg s = Some t \<Longrightarrow> clients t = clients s \<and> sent t = sent s"
  by (auto simp: worker_step_def split: worker.splits list.splits message.splits if_splits prod.splits option.splits)

lemma send_shutdown_frame:
  "send_shutdown cfg c s = Some t \<Longrightarrow> clients t = (clients s)(c := Joining) \<and> sent t = sent s"
  by (auto simp: send_shutdown_def set_client_def split: if_splits)

text \<open>A step of the journal alone that keeps the part the pipeline reads.\<close>

lemma pipe_inv_journal:
  assumes "pipe_inv e0 p" "sent j = sent (pl_journal p)"
    "clients j 0 = clients (pl_journal p) 0 \<or>
       (pending p = None \<and> (\<forall>sq c. clients j 0 \<noteq> CheckClosed sq c \<and> clients j 0 \<noteq> Sending sq c \<and> clients j 0 \<noteq> Publishing sq))"
  shows "pipe_inv e0 (p\<lparr>pl_journal := j\<rparr>)"
proof -
  have "client_in_call (input_seq p) (pending p) (clients j 0)" using assms by (auto simp: pipe_inv_def)
  moreover have "logged_calls (p\<lparr>pl_journal := j\<rparr>) = logged_calls p"
    using assms(3) by (auto simp: logged_calls_def split: option.splits)
  ultimately show ?thesis using assms(1,2) by (simp add: pipe_inv_def calls_def answers_ok_def)
qed

lemma pipe_inv_step:
  assumes inv: "pipe_inv e0 p" and step: "pipe_step crc d jcfg p p'"
  shows "pipe_inv e0 p'"
proof -
  let ?ph = "clients (pl_journal p) 0"
  obtain evs where seq: "input_seq p = length (calls p)" and cl: "client_in_call (input_seq p) (pending p) ?ph"
    and run: "process_all (calls p) e0 = Inr (evs, pl_engine p)"
    and outs: "\<forall>i < length (returned p). \<forall>out. snd (returned p ! i) = Inr out \<longrightarrow> out = evs ! i"
    and last: "pending p \<noteq> None \<longrightarrow> last evs = events (pl_engine p)"
    and drop: "dropped p \<longrightarrow> pending p = None"
    and sent: "answers_ok p \<longrightarrow> sent (pl_journal p) = numbered (logged_calls p)"
    using inv unfolding pipe_inv_def by blast
  have len: "length evs = length (calls p)" by (rule process_all_length [OF run])
  show ?thesis
    using step
  proof (cases rule: pipe_step.cases)
    case (pipe_call cmd)
    then obtain e where p': "p' = p\<lparr>input_seq := input_seq p + 1, pl_engine := e,
        pl_journal := begin_append 0 (input_seq p + 1) cmd (pl_journal p), pending := Some cmd\<rparr>"
      "process cmd (pl_engine p) = Inr e"
      by (auto simp: pipeline_call_def rbind_eq_Inr arith_results)
    have c: "calls p' = calls p @ [cmd]" "logged_calls p = calls p" "calls p = map fst (returned p)"
      using pipe_call(1) by (simp_all add: p' calls_def logged_calls_def)
    have ph: "clients (pl_journal p') 0 = CheckClosed (input_seq p + 1) cmd \<or>
        clients (pl_journal p') 0 = Done (Some WriterDegraded)"
      by (simp add: p' begin_append_def)
    then have "logged_calls p' = calls p" by (auto simp: logged_calls_def p' c(3))
    moreover have "process_all (calls p') e0 = Inr (evs @ [events e], e)"
      unfolding c(1) process_all_append by (simp add: run p'(2))
    moreover have "\<forall>i < length (returned p). \<forall>out. snd (returned p ! i) = Inr out \<longrightarrow> out = (evs @ [events e]) ! i"
      using outs len c(3) by (simp add: nth_append)
    moreover have "sent (pl_journal p') = sent (pl_journal p)" by (simp add: p' begin_append_def)
    ultimately show ?thesis using seq ph c sent pipe_call(2)
      by (auto simp: pipe_inv_def p' answers_ok_def)
  next
    case (pipe_check sq cmd)
    then have pend: "pending p = Some cmd" "sq = input_seq p" using cl by (cases "pending p"; auto)+
    then show ?thesis using pipe_check inv
      by (auto simp: pipe_inv_def check_closed_def calls_def answers_ok_def logged_calls_def)
  next
    case (pipe_send sq cmd)
    then have pend: "pending p = Some cmd" "sq = input_seq p" using cl by (cases "pending p"; auto)+
    have n: "input_seq p = Suc (length (returned p))" using seq pend(1) by (simp add: calls_def)
    have log: "logged_calls p = map fst (returned p)" using pend(1) pipe_send(2) by (simp add: logged_calls_def)
    show ?thesis using pipe_send(1) inv pend n log
      by (auto simp: pipe_inv_def try_send_def calls_def answers_ok_def logged_calls_def numbered_snoc)
  next
    case (pipe_publish sq)
    then obtain c where pend: "pending p = Some c" "sq = input_seq p" using cl by (cases "pending p") auto
    then show ?thesis using pipe_publish inv
      by (auto simp: pipe_inv_def publish_def calls_def answers_ok_def logged_calls_def)
  next
    case (pipe_return cmd answer)
    have c: "calls p' = calls p" using pipe_return(1,2) by (simp add: calls_def pipeline_return_def)
    have lst: "evs ! length (returned p) = events (pl_engine p)"
      using last pipe_return(2) len by (cases evs rule: rev_cases) (auto simp: calls_def nth_append)
    have "out = evs ! i" if "i < length (returned p')" "snd (returned p' ! i) = Inr out" for i out
      using that outs lst by (auto simp: pipe_return(1) pipeline_return_def nth_append not_less less_Suc_eq split: if_splits option.splits)
    moreover have "sent (pl_journal p') = numbered (logged_calls p')" if "answers_ok p'"
    proof -
      have "answer = None" "answers_ok p"
        using that by (auto simp: answers_ok_def pipe_return(1) pipeline_return_def split: option.splits)
      then show ?thesis using sent pipe_return by (simp add: logged_calls_def pipeline_return_def)
    qed
    moreover have "client_in_call (input_seq p') (pending p') (clients (pl_journal p') 0)"
      using pipe_return by (simp add: pipeline_return_def)
    ultimately show ?thesis using seq run c pipe_return(1)
      by (simp add: pipe_inv_def) (simp add: pipeline_return_def)
  next
    case (pipe_worker j)
    then show ?thesis using pipe_inv_journal [OF inv] worker_step_frame by simp
  next
    case pipe_drop
    have "pipe_inv e0 (p\<lparr>pl_journal := begin_close 0 (pl_journal p)\<rparr>)"
      using pipe_drop by (intro pipe_inv_journal [OF inv]) (simp_all add: begin_close_def)
    then show ?thesis using pipe_drop by (simp add: pipe_inv_def calls_def answers_ok_def logged_calls_def)
  next
    case (pipe_shutdown j)
    then have "pending p = None" using cl by (cases "pending p") auto
    then show ?thesis using pipe_shutdown send_shutdown_frame by (auto intro!: pipe_inv_journal [OF inv])
  next
    case pipe_join
    then have "pending p = None" using cl by (cases "pending p") auto
    then show ?thesis using pipe_join by (auto intro!: pipe_inv_journal [OF inv])
  qed
qed


subsection \<open>Reachable pipelines\<close>

text \<open>The journal of a pipeline goes through steps of the journal.\<close>

lemma pipe_step_journal:
  assumes "pipe_step crc d jcfg p p'" "pipe_inv e0 p" "async_inv crc jcfg name es0 (pl_journal p)" "honest_faults d"
  shows "async_inv crc jcfg name es0 (pl_journal p')"
proof -
  have keep: "async_inv crc jcfg name es0 j" if "async_step crc d jcfg (pl_journal p) j" for j
    by (rule async_inv_step [OF assms(3) that assms(4)])
  show ?thesis
    using assms(1)
  proof (cases rule: pipe_step.cases)
    case (pipe_call cmd)
    then have eq: "pl_journal p' = begin_append 0 (input_seq p + 1) cmd (pl_journal p)" and le: "input_seq p + 1 \<le> u64_max"
      by (auto simp: pipeline_call_def rbind_eq_Inr arith_results)
    show ?thesis unfolding eq begin_append_def
      by (intro async_inv_set_client [OF assms(3)]) (use pipe_call(3) le in simp)
  next
    case pipe_drop
    then show ?thesis using async_inv_set_client [OF async_inv_frame(2) [OF assms(3)]]
        async_inv_set_client [OF assms(3)] by (simp add: begin_close_def)
  qed (auto simp: pipeline_return_def assms(3) intro: keep async_step.intros)
qed

lemma pipeline_new_inv:
  assumes "pipeline_new d cfg capacity fs path_prefix = Inr (Inr p)" "fs_read fs (journal_file path_prefix) = None"
  shows "engine_new cfg capacity = Inr (pl_engine p)" "pipe_inv (pl_engine p) p"
    "async_inv crc jcfg (journal_file path_prefix) [] (pl_journal p)"
proof -
  obtain j where j: "async_open d fs path_prefix = Inr j" "p = \<lparr>pl_engine = pl_engine p, pl_journal = j, input_seq = 0,
      pending = None, returned = [], dropped = False\<rparr>" "engine_new cfg capacity = Inr (pl_engine p)"
    using assms(1) by (cases "async_open d fs path_prefix") (auto simp: pipeline_new_def rbind_eq_Inr)
  have "clients j = (\<lambda>_. Idle)" "sent j = []" by (simp_all add: async_open_file [OF j(1)])
  then show "pipe_inv (pl_engine p) p"
    by (subst j(2)) (simp add: pipe_inv_def calls_def logged_calls_def numbered_def)
  show "async_inv crc jcfg (journal_file path_prefix) [] (pl_journal p)"
    using async_inv_open [OF j(1), of crc "[]" jcfg] assms(2) by (subst j(2)) simp
  show "engine_new cfg capacity = Inr (pl_engine p)" by (rule j(3))
qed

lemma pipe_reachable_inv:
  assumes "pipe_reachable crc d jcfg p0 p" "pipe_inv e0 p0" "async_inv crc jcfg name es0 (pl_journal p0)" "honest_faults d"
  shows "pipe_inv e0 p \<and> async_inv crc jcfg name es0 (pl_journal p)"
  using assms(1)
proof induction
  case (pipe_more p p')
  then show ?case using pipe_inv_step pipe_step_journal assms(4) by blast
qed (use assms in simp)

lemma numbered_take: "take k (numbered cs) = numbered (take k cs)"
proof (induction cs rule: rev_induct)
  case (snoc c cs)
  then show ?case by (cases "k \<le> length cs") (simp_all add: numbered_snoc)
qed (simp add: numbered_def)

lemma last_seq_numbered: "last_seq 0 (numbered cs) = length cs"
  by (cases cs rule: rev_cases) (simp_all add: numbered_snoc last_seq_def, simp add: numbered_def)

lemma logged_calls_prefix: "\<exists>cs. calls p = logged_calls p @ cs"
  by (auto simp: calls_def logged_calls_def split: option.splits client.splits)

lemma pipeline_replays:
  assumes "pipe_inv e0 p" "async_inv crc jcfg name [] (pl_journal p)" "answers_ok p"
  shows "\<exists>k fs' rep es evs e. durable_sequence p \<le> k \<and> k \<le> length (calls p) \<and>
    recover_file crc (aj_dir (pl_journal p)) name = Inr (fs', rep) \<and> read_path crc fs' name [] = Inr es \<and>
    map je_command es = take k (calls p) \<and> process_all (map je_command es) e0 = Inr (evs, e) \<and>
    (\<forall>i < min k (length (returned p)). snd (returned p ! i) = Inr (evs ! i)) \<and>
    (k = length (calls p) \<longrightarrow> e = pl_engine p)"
proof -
  obtain all where run: "process_all (calls p) e0 = Inr (all, pl_engine p)"
    and outs: "\<forall>i < length (returned p). \<forall>out. snd (returned p ! i) = Inr out \<longrightarrow> out = all ! i"
    and sent: "sent (pl_journal p) = numbered (logged_calls p)"
    using assms(1,3) unfolding pipe_inv_def by blast
  obtain j k fs' rep where k: "j \<le> k" "k \<le> length (logged_calls p)"
    "durable (pl_journal p) = last_seq 0 (take j (numbered (logged_calls p)))"
    "recover_file crc (aj_dir (pl_journal p)) name = Inr (fs', rep)"
    "read_path crc fs' name [] = Inr (numbered (take k (logged_calls p)))"
    using async_inv_recovers [OF assms(2)] by (auto simp: sent numbered_take)
  obtain cs where cs: "calls p = logged_calls p @ cs" using logged_calls_prefix by blast
  have tk: "take k (logged_calls p) = take k (calls p)" using k(2) by (simp add: cs)
  have "process_all (take k (calls p) @ drop k (calls p)) e0 = Inr (all, pl_engine p)" using run by simp
  then obtain evs e rest where r: "process_all (take k (calls p)) e0 = Inr (evs, e)" "all = evs @ rest"
    "process_all (drop k (calls p)) e = Inr (rest, pl_engine p)"
    unfolding process_all_append by (auto simp: rbind_eq_Inr)
  have len: "length evs = k" using process_all_length [OF r(1)] k(2) cs by simp
  have outs': "snd (returned p ! i) = Inr (evs ! i)" if "i < min k (length (returned p))" for i
  proof -
    have "returned p ! i \<in> set (returned p)" using that by simp
    then obtain out where out: "snd (returned p ! i) = Inr out" using assms(3) by (force simp: answers_ok_def)
    then have "out = all ! i" using outs that by simp
    then show ?thesis using out that len r(2) by (simp add: nth_append)
  qed
  have "j \<le> length (logged_calls p)" using k(1,2) by simp
  then have durable: "durable_sequence p \<le> k"
    using k(1,3) by (simp add: durable_sequence_def numbered_take last_seq_numbered)
  show ?thesis
  proof (intro exI conjI)
    show "recover_file crc (aj_dir (pl_journal p)) name = Inr (fs', rep)" by (rule k(4))
    show "read_path crc fs' name [] = Inr (numbered (take k (calls p)))" using k(5) tk by simp
    show "process_all (map je_command (numbered (take k (calls p)))) e0 = Inr (evs, e)" using r(1) by simp
    show "k = length (calls p) \<longrightarrow> e = pl_engine p" using r(3) by auto
    show "k \<le> length (calls p)" using k(2) cs by simp
  qed (use durable outs' in auto)
qed


subsection \<open>Schedules\<close>

text \<open>A schedule says who moves: runs of the pipeline that can be evaluated.\<close>

datatype pipe_action = Call command | Client | Return | Work

definition pipe_do :: "crc_fun \<Rightarrow> disk \<Rightarrow> async_config \<Rightarrow> pipe_action \<Rightarrow> pipeline \<Rightarrow> pipeline option" where
  "pipe_do crc d jcfg a p =
     (case a of
        Call cmd \<Rightarrow>
          if pending p = None \<and> \<not> dropped p \<and> command_ok cmd
          then (case pipeline_call cmd p of Inl _ \<Rightarrow> None | Inr p' \<Rightarrow> Some p') else None
      | Client \<Rightarrow>
          (case clients (pl_journal p) 0 of
             CheckClosed sq cmd \<Rightarrow> Some (p\<lparr>pl_journal := check_closed 0 sq cmd (pl_journal p)\<rparr>)
           | Sending sq cmd \<Rightarrow> Some (p\<lparr>pl_journal := try_send crc jcfg 0 sq cmd (pl_journal p)\<rparr>)
           | Publishing sq \<Rightarrow> Some (p\<lparr>pl_journal := publish 0 sq (pl_journal p)\<rparr>)
           | _ \<Rightarrow> None)
      | Return \<Rightarrow>
          (case (pending p, clients (pl_journal p) 0) of
             (Some cmd, Done answer) \<Rightarrow> Some (pipeline_return cmd answer p)
           | _ \<Rightarrow> None)
      | Work \<Rightarrow> map_option (\<lambda>j. p\<lparr>pl_journal := j\<rparr>) (worker_step d jcfg (pl_journal p)))"

fun pipe_exec :: "crc_fun \<Rightarrow> disk \<Rightarrow> async_config \<Rightarrow> pipe_action list \<Rightarrow> pipeline \<Rightarrow> pipeline option" where
  "pipe_exec crc d jcfg [] p = Some p"
| "pipe_exec crc d jcfg (a # as) p =
     (case pipe_do crc d jcfg a p of None \<Rightarrow> None | Some p' \<Rightarrow> pipe_exec crc d jcfg as p')"

lemma pipe_do_step: "pipe_do crc d jcfg a p = Some p' \<Longrightarrow> pipe_step crc d jcfg p p'"
  by (auto simp: pipe_do_def intro: pipe_step.intros split: pipe_action.splits client.splits option.splits if_splits sum.splits)

lemma pipe_exec_reachable:
  "pipe_exec crc d jcfg as p = Some p' \<Longrightarrow> pipe_reachable crc d jcfg p0 p \<Longrightarrow> pipe_reachable crc d jcfg p0 p'"
proof (induction as arbitrary: p)
  case (Cons a as)
  then obtain p1 where p1: "pipe_do crc d jcfg a p = Some p1" "pipe_exec crc d jcfg as p1 = Some p'"
    by (auto split: option.splits)
  then show ?case using Cons.IH [OF p1(2)] pipe_more [OF Cons.prems(2) pipe_do_step [OF p1(1)]] by simp
qed simp

end
