(* ===== verification/Spec2Isabelle.thy ===== *)
theory Spec2Isabelle
  imports Mx_Engine_Props Mx_Journal_Props Mx_Structure_Props Mx_Pipeline
begin

text \<open>
  A verification of matchX, a limit order book with a matching engine and a write-ahead journal (a Rust
  workspace; the paths below are under \<open>src/crates/\<close>).

  \<^bold>\<open>The program.\<close> A command (new order, cancellation, modification) goes to \<open>MatchingEngine::process\<close>
  (\<open>matchx-engine\<close>), which matches it against the \<open>OrderBook\<close> (\<open>matchx-book\<close>), rests what remains, and
  returns events. The orders live in a slab arena (\<open>matchx-arena\<close>); the levels of the book hold the ends of
  doubly linked queues threaded through it. The book keeps, for each side, a dense window of levels indexed
  by tick with an occupancy bitset and a Fenwick tree, a sparse map with an index of its own for the prices
  outside the window, the best price, and one map from ids to slots for both sides. The journal
  (\<open>matchx-journal\<close>) encodes commands in checksummed records, in one file or in rotating segments; it has a
  batch reader, a streaming reader, recovery by truncation, and a front end whose clients feed one worker
  thread through a bounded channel. The pipeline (\<open>matchx-bench/src/pipeline.rs\<close>) composes the engine with
  that front end.

  \<^bold>\<open>How it is modelled.\<close> Rust structs are records, enums are datatypes, both with the source's fields and
  constructors (prefixed where the names clash: \<open>o_\<close> order, \<open>a_\<close> arena, \<open>h_\<close> huge arena, \<open>fw_\<close> Fenwick tree,
  \<open>si_\<close> sparse index, \<open>s_\<close> stop entry, \<open>je_\<close> journal entry, \<open>aj_\<close> asynchronous journal, \<open>pl_\<close> pipeline).
  Unsigned integers are naturals whose width is in the checked operations \<open>add_u64\<close>, \<open>add_u32\<close>, \<open>sub_u\<close>, as
  the arithmetic of the code is checked; bitset words and bytes are words. A method that takes \<open>&mut self\<close>
  returns the new state. Every panic is a value of the type \<open>panic\<close>, so nothing the code can do is left
  out of a function's result, and the journal's errors are a second sum type (\<open>failure\<close> where the journal
  can do both: its segment sizes, indices and byte counts are checked 64-bit sums). An \<open>Inl\<close> of \<open>panic\<close> is where
  the program would stop; \<open>yields m P\<close> says that \<open>m\<close> returns a value with \<open>P\<close> or stops for want of a
  machine resource (a counter at its width, a vector at its maximal size, the event buffer full), which
  excludes every other panic; \<open>returns\<close> and \<open>gives\<close> say that a computation returns, for concrete runs.
  A debug build is modelled (\<open>debug_assert\<close>, the arena's generations and overflow checks are on).

  \<^bold>\<open>The theories.\<close>
  \<^item> \<open>Mx_Prelude\<close>: panics, bind, checked arithmetic and vectors, \<open>for\<close> loops, \<open>yields\<close>. \<open>Mx_Types\<close>:
    \<open>matchx-types/src/lib.rs\<close>. \<open>Mx_Arena\<close> (the slab and its free list) and \<open>Mx_Huge_Arena\<close> (its variant over
    \<open>mmap\<close>): \<open>matchx-arena/src/lib.rs\<close>.
  \<^item> \<open>matchx-book/src/lib.rs\<close>: \<open>Mx_Fenwick\<close> with the interface \<open>Mx_Prefix_Tree\<close>, \<open>Mx_Sparse_Index\<close>,
    \<open>Mx_Depth_Spec\<close> (what the two indices promise), \<open>Mx_BTree_Map\<close> (the part of \<open>BTreeMap\<close> in use),
    \<open>Mx_Bitset\<close>, \<open>Mx_Book\<close> (the book and all its operations), \<open>Mx_Recenter\<close> (moving the window).
  \<^item> The book's invariant: \<open>Mx_Links\<close> (the linked queues), \<open>Mx_Side_View\<close> (one side as a record),
    \<open>Mx_Book_Inv\<close> (\<open>book_rel\<close>: one queue per side and price, with levels, bitset, best price, depth and id
    index agreeing with it) with insertion, \<open>Mx_Book_Ops\<close> with removal and reduction, \<open>Mx_Book_Frame\<close>,
    \<open>Mx_Recenter_Laws\<close>, \<open>Mx_Liquidity\<close> (the reported depth against what rests).
  \<^item> \<open>matchx-engine/src\<close>: \<open>Mx_Policy\<close> and \<open>Mx_Policy_Laws\<close> (\<open>policy.rs\<close>), \<open>Mx_Engine\<close> (\<open>lib.rs\<close>: every
    command, the matching loop with self-trade prevention and icebergs, stops, events), \<open>Mx_Engine_Inv\<close>,
    \<open>Mx_Engine_Safe\<close> and \<open>Mx_Engine_Runs\<close> (the invariant along matching, commands and sessions),
    \<open>Mx_Engine_Log\<close> (the events), \<open>Mx_Stops\<close> (the stop queues), \<open>Mx_Reach\<close>.
  \<^item> The reference exchange: \<open>Mx_Ladder\<close> (a side of the book as one list in priority order),
    \<open>Mx_Reference\<close> (matching on that list, and that the loop refines it), \<open>Mx_Ref_Laws\<close>, \<open>Mx_Ref_Book\<close>,
    \<open>Mx_Depth_Exact\<close> (the depth indices hold just what rests and what ever traded with resting orders, so what a
    fill-or-kill order is checked against), \<open>Mx_Ref_Engine\<close> (each command on the abstract book),
    \<open>Mx_Ref_Exchange\<close> (the book with its waiting stops, the last price and the past trades: whole calls and
    sessions). \<open>Mx_Design\<close>: the exchange of the design documents where the code departs from it, and the
    sessions on which the two are one.
  \<^item> \<open>matchx-journal/src\<close>: \<open>Mx_Bytes\<close>, \<open>Mx_Codec\<close>, \<open>Mx_Codec_Laws\<close> (\<open>codec.rs\<close>), \<open>Mx_Files\<close> (a directory,
    paths, and a disk whose operations may fail and writes stop half way), \<open>Mx_Wal_Read\<close> (\<open>reader.rs\<close>, \<open>recovery.rs\<close>,
    \<open>streaming_reader.rs\<close>), \<open>Mx_Wal_Write\<close> (\<open>writer.rs\<close>), \<open>Mx_Wal_Laws\<close>, \<open>Mx_Wal_Crash\<close>,
    \<open>Mx_Async_Journal\<close> and \<open>Mx_Async_Live\<close> (\<open>async_journal.rs\<close> as a step relation, in which the worker
    receives one message, writes one record, sets one flag or drops its receiver at a time: safety, and
    progress of the worker).
  \<^item> \<open>Mx_Pipeline\<close>: \<open>matchx-bench/src/pipeline.rs\<close>, a step relation over the engine and the journal.
  \<^item> The properties: \<open>Mx_Engine_Props\<close>, \<open>Mx_Journal_Props\<close>, \<open>Mx_Structure_Props\<close>, and here those of the
    pipeline.

  \<^bold>\<open>What is shown.\<close> Any commands leave the engine consistent or run into a machine limit; the book does not
  cross, its observers and best prices are exact, queues are first in first out, matching follows price and
  time and conserves quantity; engine and reference exchange agree command by command, triggered
  stops and fill-or-kill orders included, and on sessions without the features in which the code departs from
  the design documents both agree with the exchange of these documents; moving the window keeps the book. The codec is exact, the log survives any failing write up to the last successful append,
  both readers agree, and in every interleaving the durable entries are in the file; the worker drains the
  channel. A pipeline without errors has a journal that replays to the events its calls returned. The two
  arenas, the depth indices and the policy's loop meet their abstract specifications. Where the code does
  not do what it means to, the theorem is a run that shows it (the properties of kind \<open>error\<close>).

  \<^bold>\<open>Parameters, bounds and fuel.\<close> Code outside the repository is a parameter: the checksum \<open>crc\<close> (any
  function), the outcome of \<open>mmap\<close>, and the disk (which writes fail, and after how many bytes;
  \<open>honest_faults\<close>: a failing write is a strict prefix). The loops of the code are total functions with their
  measures: matching by taker quantity plus orders in the arena, draining the stops by their number, reading by
  the bytes left. Fuel appears in two places and both are proved sufficient: the policy's loop needs the
  length of the queue, and the walk over a queue the capacity of the arena. The Fenwick loops have no fuel: a
  step that does not move would be the value \<open>Diverges\<close>, which \<open>yields\<close> excludes. An arena holds
  less than \<open>2 ^ 32\<close> orders; the properties of segmented journals speak of fewer than \<open>10 ^ 8\<close> segments, as
  the names have eight digits.

  \<^bold>\<open>Not modelled.\<close> The latency summary (\<open>matchx-bench/src/metrics.rs\<close>: a percentile by floating-point rank);
  the release build, where an unchecked counter would wrap; the failure message the tests inject into the
  worker, and a channel of capacity 0 (a rendezvous); \<open>munmap\<close> on drop; the layout assertions on
  types; weak memory (the shared flags and counters of the journal are sequentially consistent here);
  benchmarks and integration tests, which only drive the parts above.
\<close>

section \<open>The pipeline\<close>

text \<open>C4: the journal replays to the engine. Take a pipeline on a fresh file and any interleaving of its
  calls with the worker thread, on a disk whose writes may fail, and let no call have returned an error.
  Then recovering the file as it is now and reading it gives exactly the commands of the first calls, at
  least up to the durable sequence number, and a new engine fed with them emits just the events those calls
  returned; if that is all the calls, it ends in the state of the live engine.\<close>

theorem pipeline_replay:
  assumes "pipeline_new d cfg capacity fs path_prefix = Inr (Inr p0)" "fs_read fs (journal_file path_prefix) = None" "honest_faults d"
    "pipe_reachable crc d jcfg p0 p" "answers_ok p"
  shows "\<exists>k fs' rep es evs e. durable_sequence p \<le> k \<and> k \<le> length (calls p) \<and>
    recover_file crc (aj_dir (pl_journal p)) (journal_file path_prefix) = Inr (fs', rep) \<and>
    read_path crc fs' (journal_file path_prefix) [] = Inr es \<and>
    map je_command es = take k (calls p) \<and> run_engine cfg capacity (map je_command es) = Inr (evs, e) \<and>
    (\<forall>i < min k (length (returned p)). snd (returned p ! i) = Inr (evs ! i)) \<and>
    (k = length (calls p) \<longrightarrow> e = pl_engine p)"
proof -
  note new = pipeline_new_inv [OF assms(1,2)]
  note inv = pipe_reachable_inv [OF assms(4) new(2,3) assms(3)]
  have "run_engine cfg capacity cs = process_all cs (pl_engine p0)" for cs
    unfolding run_engine_def by (simp add: new(1))
  then show ?thesis using pipeline_replays [OF conjunct1 [OF inv] conjunct2 [OF inv] assms(5)] by simp
qed

definition demo_journal :: async_config where
  "demo_journal = default_config\<lparr>queue_capacity := 1, batch_size := 4\<rparr>"

definition demo_schedule :: "pipe_action list" where
  "demo_schedule = [Call (plain 1 Ask 103 5 Limit GTC), Client, Client, Client, Return, Work, Work, Work, Work, Work]"

theorem pipeline_replay_witness:
  "\<exists>p0 p k fs' rep es evs e. pipeline_new healthy_disk (demo_config CancelOldest) 4 [] [''j''] = Inr (Inr p0) \<and>
     pipe_reachable (\<lambda>_. 7) healthy_disk demo_journal p0 p \<and> durable_sequence p = 1 \<and> durable_sequence p \<le> k \<and> k \<le> length (calls p) \<and>
     recover_file (\<lambda>_. 7) (aj_dir (pl_journal p)) ''j.wal'' = Inr (fs', rep) \<and> read_path (\<lambda>_. 7) fs' ''j.wal'' [] = Inr es \<and>
     map je_command es = take k (calls p) \<and> demo_run CancelOldest (map je_command es) = Inr (evs, e)"
proof -
  have "returns (pipeline_new healthy_disk (demo_config CancelOldest) 4 [] [''j'']) (\<lambda>r.
     returns r (\<lambda>p0. gives (pipe_exec (\<lambda>_. 7) healthy_disk demo_journal demo_schedule p0) (\<lambda>p.
         durable_sequence p = 1 \<and> (\<forall>(c, r) \<in> set (returned p). \<not> isl r))))"
    by code_simp
  then obtain p0 p where p: "pipeline_new healthy_disk (demo_config CancelOldest) 4 [] [''j''] = Inr (Inr p0)"
    "pipe_exec (\<lambda>_. 7) healthy_disk demo_journal demo_schedule p0 = Some p" "durable_sequence p = 1"
    "\<forall>(c, r) \<in> set (returned p). \<not> isl r"
    unfolding returns_nested returns_tuple unfolding returns_iff gives_iff by (elim exE conjE)
  have reach: "pipe_reachable (\<lambda>_. 7) healthy_disk demo_journal p0 p"
    by (rule pipe_exec_reachable [OF p(2) pipe_start])
  have ok: "answers_ok p" unfolding answers_ok_def using p(4) by (auto simp: isl_def split: prod.splits) (metis sum.exhaust_sel isl_def)
  have disk: "fs_read [] (journal_file [''j'']) = None" "honest_faults healthy_disk" and at: "journal_file [''j''] = ''j.wal''"
    by (simp_all add: fs_read_def honest_faults_def journal_file_def first_segment_path_def with_extension_def
      path_file_name_def file_stem_def)
  show ?thesis
    using pipeline_replay [OF p(1) disk reach ok, unfolded at] p(1,3) reach
    by (elim exE conjE) (intro exI conjI, assumption+)
qed

definition full_queue_schedule :: "pipe_action list" where
  "full_queue_schedule =
     [Call (plain 1 Ask 103 5 Limit GTC), Client, Client, Client, Return,
      Call (CancelOrder 1), Client, Client, Return, Work,
      Call (plain 2 Bid 103 5 Limit GTC), Client, Client, Client, Return, Work, Work, Work, Work, Work, Work]"

text \<open>C34: after an error the engine and the journal disagree. A call runs the engine before it appends
  the command, and the engine is not rolled back when the append fails. With a full queue: a sell is
  placed; its cancellation runs in the engine but answers \<open>QueueFull\<close> and is never logged; a buy at the
  same price rests in the live engine. The durable sequence number is 3, yet the recovered journal holds
  only the two orders, and replaying it makes a trade that never happened.\<close>

theorem pipeline_queue_full_diverges:
  "\<exists>p0 p fs' rep es evs e. pipeline_new healthy_disk (demo_config CancelOldest) 4 [] [''j''] = Inr (Inr p0) \<and>
     pipe_reachable (\<lambda>_. 7) healthy_disk demo_journal p0 p \<and>
     map fst (returned p) = [plain 1 Ask 103 5 Limit GTC, CancelOrder 1, plain 2 Bid 103 5 Limit GTC] \<and>
     snd (returned p ! 1) = Inl QueueFull \<and> durable_sequence p = 3 \<and>
     recover_file (\<lambda>_. 7) (aj_dir (pl_journal p)) ''j.wal'' = Inr (fs', rep) \<and> read_path (\<lambda>_. 7) fs' ''j.wal'' [] = Inr es \<and>
     map je_command es = [plain 1 Ask 103 5 Limit GTC, plain 2 Bid 103 5 Limit GTC] \<and>
     demo_run CancelOldest (map je_command es) = Inr (evs, e) \<and>
     fills_in (last evs) = [(1, 2, 103, 5)] \<and> ladder Bid e = [] \<and> map o_id (ladder Bid (pl_engine p)) = [2]"
proof -
  have "returns (pipeline_new healthy_disk (demo_config CancelOldest) 4 [] [''j'']) (\<lambda>r.
     returns r (\<lambda>p0. gives (pipe_exec (\<lambda>_. 7) healthy_disk demo_journal full_queue_schedule p0) (\<lambda>p.
         map fst (returned p) = [plain 1 Ask 103 5 Limit GTC, CancelOrder 1, plain 2 Bid 103 5 Limit GTC] \<and>
         snd (returned p ! 1) = Inl QueueFull \<and> durable_sequence p = 3 \<and>
         map o_id (ladder Bid (pl_engine p)) = [2] \<and>
         returns (recover_file (\<lambda>_. 7) (aj_dir (pl_journal p)) ''j.wal'') (\<lambda>(fs', rep).
           returns (read_path (\<lambda>_. 7) fs' ''j.wal'' []) (\<lambda>es.
             map je_command es = [plain 1 Ask 103 5 Limit GTC, plain 2 Bid 103 5 Limit GTC])))))"
    by code_simp
  then obtain p0 p fs' rep es where p: "pipeline_new healthy_disk (demo_config CancelOldest) 4 [] [''j''] = Inr (Inr p0)"
    "pipe_exec (\<lambda>_. 7) healthy_disk demo_journal full_queue_schedule p0 = Some p"
    "map fst (returned p) = [plain 1 Ask 103 5 Limit GTC, CancelOrder 1, plain 2 Bid 103 5 Limit GTC]"
    "snd (returned p ! 1) = Inl QueueFull" "durable_sequence p = 3" "map o_id (ladder Bid (pl_engine p)) = [2]"
    "recover_file (\<lambda>_. 7) (aj_dir (pl_journal p)) ''j.wal'' = Inr (fs', rep)" "read_path (\<lambda>_. 7) fs' ''j.wal'' [] = Inr es"
    "map je_command es = [plain 1 Ask 103 5 Limit GTC, plain 2 Bid 103 5 Limit GTC]"
    unfolding returns_nested returns_tuple unfolding returns_iff gives_iff by (elim exE conjE)
  have "returns (demo_run CancelOldest [plain 1 Ask 103 5 Limit GTC, plain 2 Bid 103 5 Limit GTC])
      (\<lambda>(evs, e). fills_in (last evs) = [(1, 2, 103, 5)] \<and> ladder Bid e = [])" by code_simp
  then obtain evs e where "demo_run CancelOldest (map je_command es) = Inr (evs, e)"
    "fills_in (last evs) = [(1, 2, 103, 5)]" "ladder Bid e = []"
    unfolding p(9) returns_tuple by auto
  then show ?thesis using p pipe_exec_reachable [OF p(2) pipe_start] by - (intro exI conjI, assumption+)
qed

end
